(* ===== verification/Glifi_Prelude.thy ===== *)
theory Glifi_Prelude
  imports Main "HOL-Library.Word"
begin

unbundle bit_operations_syntax

text \<open>
  Shared vocabulary of the development: the names of the program's machine types, the
  error codes of \<open>src/include/glifistore/core/error.hpp\<close>, the result type every fallible
  operation returns, and the generic lemmas on results, lists and words that the component
  theories use, the characteristic equations in the collection \<open>result_simps\<close>.

  An \<open>Error\<close> of the source carries a code and a diagnostic text.  No modelled operation
  branches on the text, so an error is its code.
\<close>

named_theorems result_simps \<open>characteristic equations of fallible operations\<close>

section \<open>Machine types\<close>

type_synonym byte = "8 word"
type_synonym u16 = "16 word"
type_synonym u32 = "32 word"
type_synonym u64 = "64 word"
type_synonym bytes = "byte list"

section \<open>Errors and results\<close>

datatype error_code =
    Invalid_argument
  | Arithmetic_overflow
  | Record_too_large
  | Segment_full
  | Segment_sealed
  | Invalid_record
  | Checksum_mismatch
  | Invalid_reference
  | Sequence_conflict
  | Corrupted_data
  | Not_found
  | Resource_exhausted
  | Storage_exhausted
  | File_too_large
  | Descriptor_exhausted
  | Read_only_filesystem
  | Internal_error
  | Unavailable
  | Io_error

type_synonym 'a result = "error_code + 'a"
type_synonym status = "unit result"

abbreviation fail :: "error_code \<Rightarrow> 'a result" where
  "fail e \<equiv> Inl e"

abbreviation ok :: status where
  "ok \<equiv> Inr ()"

text \<open>
  \<open>bind_result r f\<close> is the source's idiom \<open>if (!r) return unexpected(r.error())\<close>
  followed by the rest of the function on the value.
\<close>

definition bind_result :: "'a result \<Rightarrow> ('a \<Rightarrow> 'b result) \<Rightarrow> 'b result" where
  "bind_result r f = (case r of Inl e \<Rightarrow> Inl e | Inr x \<Rightarrow> f x)"

lemma bind_result_simps [simp]:
  "bind_result (Inl e) f = Inl e"
  "bind_result (Inr x) f = f x"
  by (simp_all add: bind_result_def)

lemma bind_result_eq_Inr_iff:
  "bind_result r f = Inr y \<longleftrightarrow> (\<exists>x. r = Inr x \<and> f x = Inr y)"
  by (cases r) simp_all

lemma bind_result_eq_Inl_iff:
  "bind_result r f = Inl e \<longleftrightarrow> r = Inl e \<or> (\<exists>x. r = Inr x \<and> f x = Inl e)"
  by (cases r) simp_all

lemmas bind_result_iffs [result_simps] = bind_result_eq_Inr_iff bind_result_eq_Inl_iff

lemma if_Inl_eq_Inr [result_simps]:
  "(if c then Inl e else r) = Inr y \<longleftrightarrow> \<not> c \<and> r = Inr y"
  by simp

lemma not_Inl_unit [simp]: "(\<forall>e. s \<noteq> Inl e) \<longleftrightarrow> s = ok" for s :: status
  by (cases s) auto

section \<open>Lists\<close>

text \<open>\<open>blit xs i ys\<close> overwrites \<open>ys\<close> into \<open>xs\<close> from position \<open>i\<close>: a \<open>memcpy\<close> into a buffer.\<close>

definition blit :: "'a list \<Rightarrow> nat \<Rightarrow> 'a list \<Rightarrow> 'a list" where
  "blit xs i ys = take i xs @ ys @ drop (i + length ys) xs"

lemma length_blit [simp]: "i + length ys \<le> length xs \<Longrightarrow> length (blit xs i ys) = length xs"
  by (simp add: blit_def)

lemma nth_blit:
  assumes "i + length ys \<le> length xs"
  shows "blit xs i ys ! j = (if i \<le> j \<and> j < i + length ys then ys ! (j - i) else xs ! j)"
proof -
  have mi: "min (length xs) i = i" using assms by simp
  consider "j < i" | "i \<le> j" "j - i < length ys" "j < i + length ys" | "i + length ys \<le> j"
    by linarith
  then show ?thesis
  proof cases
    case 3
    then have "\<not> j - i < length ys \<or> length ys = 0" by linarith
    with 3 show ?thesis using assms by (auto simp: blit_def nth_append mi)
  qed (use assms in \<open>simp_all add: blit_def nth_append mi\<close>)
qed

text \<open>\<open>sub xs i n\<close> is the span \<open>xs.subspan(i, n)\<close>.\<close>

definition sub :: "'a list \<Rightarrow> nat \<Rightarrow> nat \<Rightarrow> 'a list" where
  "sub xs i n = take n (drop i xs)"

lemma length_sub [simp]: "i + n \<le> length xs \<Longrightarrow> length (sub xs i n) = n"
  by (simp add: sub_def)

lemma nth_sub: "i + n \<le> length xs \<Longrightarrow> j < n \<Longrightarrow> sub xs i n ! j = xs ! (i + j)"
  by (simp add: sub_def)

lemma sub_eq_iff_nth:
  "i + n \<le> length xs \<Longrightarrow> length ys = n \<Longrightarrow>
   sub xs i n = ys \<longleftrightarrow> (\<forall>j < n. xs ! (i + j) = ys ! j)"
  by (auto simp: list_eq_iff_nth_eq nth_sub)

lemma nth_update: "xs[i := x] ! j = (if i = j \<and> i < length xs then x else xs ! j)"
  by (cases "i < length xs") (auto simp: nth_list_update list_update_beyond)

lemma blit_update_inside:
  assumes "p + length ys \<le> length e" "p \<le> j" "j < p + length ys"
  shows "blit (e[j := b]) p ys = blit e p ys"
  using assms by (intro nth_equalityI) (auto simp: nth_blit nth_update)

lemma blit_update_outside:
  assumes "p + length ys \<le> length e" "j < p \<or> p + length ys \<le> j"
  shows "blit (e[j := b]) p ys = (blit e p ys)[j := b]"
  using assms by (intro nth_equalityI) (auto simp: nth_blit nth_update)

lemma sub_blit:
  assumes "i + length ys \<le> length e"
  shows "sub (blit e i ys) i (length ys) = ys"
  using assms by (intro nth_equalityI) (simp_all add: nth_sub nth_blit)

lemma sub_blit_frame:
  assumes "p + length ys \<le> length e" "i + n \<le> length e" "i + n \<le> p \<or> p + length ys \<le> i"
  shows "sub (blit e p ys) i n = sub e i n"
  using assms by (intro nth_equalityI) (auto simp: nth_sub nth_blit)

lemma blit_Nil [simp]: "blit e p [] = e"
  by (simp add: blit_def)

lemma sub_bytes_eq:
  assumes "sub xs p n = sub ys p n" "p + n \<le> length xs" "p + n \<le> length ys" "p \<le> j" "j < p + n"
  shows "xs ! j = ys ! j"
  using nth_sub [of p n xs "j - p"] nth_sub [of p n ys "j - p"] assms by simp

lemma all_shift:
  fixes a n :: nat
  shows "(\<forall>j < n - a. P (a + j)) \<longleftrightarrow> (\<forall>j. a \<le> j \<and> j < n \<longrightarrow> P j)"
proof safe
  fix j assume "\<forall>j < n - a. P (a + j)" "a \<le> j" "j < n"
  then have "P (a + (j - a))" by (metis diff_less_mono)
  then show "P j" using \<open>a \<le> j\<close> by simp
qed simp

section \<open>Words\<close>

lemma unat_less_power: "unat (w :: 'a::len word) < 2 ^ LENGTH('a)"
  by (rule unsigned_less)

lemma of_nat_unat_id [simp]: "of_nat (unat w) = (w :: 'a::len word)"
  by simp

lemma unat_of_nat_small: "n < 2 ^ LENGTH('a::len) \<Longrightarrow> unat (of_nat n :: 'a word) = n"
  by (simp add: unat_of_nat)

lemma unat_of_nat_32: "n < 4294967296 \<Longrightarrow> unat (of_nat n :: u32) = n"
  by (rule unat_of_nat_small) simp

lemma unat_of_nat_64: "n < 18446744073709551616 \<Longrightarrow> unat (of_nat n :: u64) = n"
  by (rule unat_of_nat_small) simp

lemma unat_u32_bound: "unat (w :: u32) < 4294967296"
  using unat_less_power [of w] by simp

lemma unat_u64_bound: "unat (w :: u64) < 18446744073709551616"
  using unat_less_power [of w] by simp

lemma unat_minus_one_sub: "unat (- 1 - w :: 'a::len word) = 2 ^ LENGTH('a) - 1 - unat w"
  by (subst unat_sub) (simp_all add: unsigned_minus_1_eq_mask mask_eq_exp_minus_1)

lemma unat_mask: "k \<le> LENGTH('a) \<Longrightarrow> unat (mask k :: 'a::len word) = 2 ^ k - 1"
proof -
  assume "k \<le> LENGTH('a)"
  then have "unat (mask k :: 'a word) = mask k"
    by (intro bit_eqI) (auto simp: bit_unsigned_iff bit_mask_iff bit_imp_le_length)
  then show ?thesis by (simp add: mask_eq_exp_minus_1)
qed

lemma unat_ucast_u64: "unat (ucast w :: u64) = unat w" for w :: u32
proof -
  have "unat w < 2 ^ 64" using unat_u32_bound [of w] by simp
  then show ?thesis by (simp add: unsigned_ucast_eq take_bit_nat_eq_self)
qed

end
