(* ===== verification/Checked_Math.thy ===== *)
theory Checked_Math
  imports Glifi_Prelude
begin

text \<open>
  Overflow-checked arithmetic: \<open>src/include/glifistore/core/checked_math.hpp\<close>.  The
  templates over an unsigned type are polymorphic in the word length; the lemmas give their
  meaning on the natural numbers the words stand for.
\<close>

section \<open>Checked addition, alignment and ranges\<close>

definition checked_add :: "'a::len word \<Rightarrow> 'a word \<Rightarrow> 'a word result" where
  "checked_add lhs rhs =
     (if rhs > - 1 - lhs then fail Arithmetic_overflow else Inr (lhs + rhs))"

definition align_up_checked :: "'a::len word \<Rightarrow> 'a word \<Rightarrow> 'a word result" where
  "align_up_checked val alignment =
     (if alignment = 0 \<or> alignment AND (alignment - 1) \<noteq> 0 then fail Invalid_argument
      else bind_result (checked_add val (alignment - 1)) (\<lambda>with_padding.
        Inr (with_padding AND NOT (alignment - 1))))"

definition range_contains :: "'a::len word \<Rightarrow> 'a word \<Rightarrow> 'a word \<Rightarrow> bool" where
  "range_contains capacity offset len \<longleftrightarrow> offset \<le> capacity \<and> len \<le> capacity - offset"

lemma checked_add_overflow_iff:
  "rhs > - 1 - lhs \<longleftrightarrow> 2 ^ LENGTH('a) \<le> unat lhs + unat rhs" for lhs rhs :: "'a::len word"
proof -
  have "unat lhs < 2 ^ LENGTH('a)" by (rule unat_less_power)
  then have "2 ^ LENGTH('a) - 1 - unat lhs < unat rhs \<longleftrightarrow> 2 ^ LENGTH('a) \<le> unat lhs + unat rhs"
    by linarith
  then show ?thesis
    by (simp only: word_less_nat_alt unat_minus_one_sub)
qed

lemma unat_add_no_overflow:
  "unat a + unat b < 2 ^ LENGTH('a) \<Longrightarrow> unat (a + b) = unat a + unat b" for a b :: "'a::len word"
  by (simp add: unat_word_ariths)

lemma checked_add_Inr_iff:
  "checked_add a b = Inr c \<longleftrightarrow> unat c = unat a + unat b" for a b c :: "'a::len word"
proof
  assume "checked_add a b = Inr c"
  then have "unat a + unat b < 2 ^ LENGTH('a)" "c = a + b"
    by (auto simp: checked_add_def checked_add_overflow_iff split: if_splits)
  then show "unat c = unat a + unat b" by (simp add: unat_add_no_overflow)
next
  assume eq: "unat c = unat a + unat b"
  then have "unat a + unat b < 2 ^ LENGTH('a)" using unat_less_power [of c] by simp
  then have "unat (a + b) = unat c" "\<not> b > - 1 - a"
    by (simp_all add: eq unat_add_no_overflow checked_add_overflow_iff)
  then show "checked_add a b = Inr c"
    by (simp add: checked_add_def word_unat_eq_iff del: not_less)
qed

lemma checked_add_Inl_iff:
  "checked_add a b = Inl e \<longleftrightarrow> e = Arithmetic_overflow \<and> 2 ^ LENGTH('a) \<le> unat a + unat b"
  for a b :: "'a::len word"
  by (auto simp: checked_add_def checked_add_overflow_iff)

lemma range_contains_iff:
  "range_contains cap off len \<longleftrightarrow> unat off + unat len \<le> unat cap" for cap off len :: "'a::len word"
proof (cases "off \<le> cap")
  case True
  then have "unat (cap - off) = unat cap - unat off" "unat off \<le> unat cap"
    by (simp_all add: unat_sub word_le_nat_alt)
  then show ?thesis using True by (auto simp: range_contains_def word_le_nat_alt)
next
  case False
  then show ?thesis by (simp add: range_contains_def word_le_nat_alt)
qed


section \<open>Alignment\<close>

lemma nat_and_pred_zero:
  fixes n :: nat
  assumes "0 < n" "n AND (n - 1) = 0"
  shows "\<exists>k. n = 2 ^ k"
  using assms
proof (induction n rule: less_induct)
  case (less n)
  show ?case
  proof (cases "even n")
    case True
    then obtain m where m: "n = 2 * m" by blast
    have half: "(2 * m - 1) div 2 = m - 1" using less.prems(1) m by simp
    have "n AND (n - 1) = 2 * (m AND (m - 1))"
      by (subst and_rec) (use less.prems(1) half in \<open>simp add: m\<close>)
    with less.prems have "m AND (m - 1) = 0" "0 < m" "m < n" by (simp_all add: m)
    then obtain k where "m = 2 ^ k" using less.IH by blast
    then have "n = 2 ^ Suc k" by (simp add: m)
    then show ?thesis by blast
  next
    case False
    then obtain m where m: "n = 2 * m + 1" using oddE by blast
    have "n AND (n - 1) = 2 * (m AND m)"
      by (subst and_rec) (simp add: m)
    with less.prems have "m = 0" by simp
    then have "n = 2 ^ 0" by (simp add: m)
    then show ?thesis by blast
  qed
qed

lemma power_of_two_word:
  fixes a :: "'a::len word"
  assumes "a \<noteq> 0" "a AND (a - 1) = 0"
  obtains k where "unat a = 2 ^ k" "k < LENGTH('a)" "a - 1 = mask k"
proof -
  have pos: "0 < unat a" using assms(1) by (simp add: unat_gt_0)
  have pred: "unat (a - 1) = unat a - 1" using assms(1) by (simp add: unat_minus_one)
  have "unat (a AND (a - 1)) = 0" using assms(2) by simp
  then have "unat a AND (unat a - 1) = 0" by (simp add: unsigned_and_eq pred)
  with pos obtain k where k: "unat a = 2 ^ k" using nat_and_pred_zero by blast
  have kl: "k < LENGTH('a)"
    using unat_less_power [of a] by (simp add: k power_strict_increasing_iff)
  have "unat (a - 1) = unat (mask k :: 'a word)"
    using kl by (simp add: pred k unat_mask)
  then have "a - 1 = mask k" by (simp only: word_unat_eq_iff)
  with k kl show thesis by (rule that)
qed

lemma and_not_mask_unat:
  "unat (w AND NOT (mask k)) = unat w - unat w mod 2 ^ k" for w :: "'a::len word"
proof -
  have "w = (w AND NOT (mask k)) + take_bit k w"
  proof -
    have "(w AND NOT (mask k)) AND take_bit k w = 0"
      by (rule bit_word_eqI) (auto simp: bit_simps)
    then have "(w AND NOT (mask k)) + take_bit k w = (w AND NOT (mask k)) OR take_bit k w"
      by (simp add: disjunctive_add_eq_or)
    also have "\<dots> = w" by (rule bit_word_eqI) (auto simp: bit_simps)
    finally show ?thesis by simp
  qed
  then have sub: "w AND NOT (mask k) = w - take_bit k w" by (metis add_diff_cancel_right')
  have "take_bit k w \<le> w"
    unfolding word_le_nat_alt unsigned_take_bit_eq by (simp add: take_bit_eq_mod)
  then show ?thesis
    unfolding sub by (simp only: unat_sub unsigned_take_bit_eq) (simp add: take_bit_eq_mod)
qed

lemma align_up_checked_Inr:
  fixes v a r :: "'a::len word"
  assumes "align_up_checked v a = Inr r"
  shows "unat a dvd unat r" "unat v \<le> unat r" "unat r < unat v + unat a"
proof -
  from assms have nz: "a \<noteq> 0" and pow: "a AND (a - 1) = 0"
    and add: "\<exists>p. checked_add v (a - 1) = Inr p \<and> r = p AND NOT (a - 1)"
    by (auto simp: align_up_checked_def bind_result_iffs split: if_splits)
  from nz pow obtain k where k: "unat a = 2 ^ k" "a - 1 = mask k"
    by (rule power_of_two_word)
  from add k obtain p where p: "checked_add v (a - 1) = Inr p" "r = p AND NOT (mask k)" by auto
  from p(1) have up: "unat p = unat v + (2 ^ k - 1)"
    using nz by (simp add: checked_add_Inr_iff unat_minus_one k(1))
  have ur: "unat r = unat p - unat p mod 2 ^ k" by (simp add: p(2) and_not_mask_unat)
  show "unat a dvd unat r" by (simp add: ur k(1) dvd_minus_mod)
  have "unat p mod 2 ^ k < 2 ^ k" by simp
  then show "unat v \<le> unat r" unfolding ur up by linarith
  have "(0 :: nat) < 2 ^ k" by simp
  then show "unat r < unat v + unat a" unfolding ur up k(1) by linarith
qed

lemma align_up_checked_Inl:
  fixes v a :: "'a::len word"
  assumes "align_up_checked v a = Inl e"
  shows "e = Invalid_argument \<and> (\<nexists>k. unat a = 2 ^ k)
       \<or> e = Arithmetic_overflow \<and> 2 ^ LENGTH('a) \<le> unat v + (unat a - 1)"
proof (cases "a = 0 \<or> a AND (a - 1) \<noteq> 0")
  case True
  have "\<nexists>k. unat a = 2 ^ k"
  proof
    assume "\<exists>k. unat a = 2 ^ k"
    then obtain k where k: "unat a = 2 ^ k" by blast
    then have nz: "a \<noteq> 0" by auto
    have "unat a AND (unat a - 1) = 0"
      by (simp only: k flip: mask_eq_exp_minus_1 take_bit_eq_mask) (simp add: take_bit_eq_mod)
    then have "unat (a AND (a - 1)) = 0"
      using nz by (simp add: unsigned_and_eq unat_minus_one)
    then show False using True nz by (simp add: unat_eq_0)
  qed
  with True assms show ?thesis by (simp add: align_up_checked_def)
next
  case False
  then show ?thesis using assms
    by (auto simp: align_up_checked_def bind_result_iffs checked_add_Inl_iff unat_minus_one)
qed

lemma round_up_8:
  fixes r v :: nat
  assumes "8 dvd r" "v \<le> r" "r < v + 8"
  shows "r = (v + 7) div 8 * 8"
proof -
  from assms(1) obtain k where k: "r = 8 * k" by (rule dvdE)
  have "(v + 7) div 8 = k"
    by (rule div_nat_eqI) (use assms k in simp_all)
  then show ?thesis using k by simp
qed

lemma align_up_8:
  "unat v + 7 < 2 ^ 64 \<Longrightarrow>
   align_up_checked (v :: u64) 8 = Inr (of_nat ((unat v + 7) div 8 * 8))"
proof -
  assume bound: "unat v + 7 < 2 ^ 64"
  have "align_up_checked v 8 \<noteq> Inl e" for e
  proof
    assume "align_up_checked v 8 = Inl e"
    from align_up_checked_Inl [OF this]
    have "(\<nexists>k. unat (8 :: u64) = 2 ^ k) \<or> 2 ^ LENGTH(64) \<le> unat v + (unat (8 :: u64) - 1)"
      by blast
    moreover have "\<exists>k. unat (8 :: u64) = 2 ^ k" by (rule exI [of _ 3]) simp
    ultimately have "2 ^ LENGTH(64) \<le> unat v + (unat (8 :: u64) - 1)" by blast
    with bound show False by simp
  qed
  then obtain r where r: "align_up_checked v 8 = Inr r" by (cases "align_up_checked v 8") auto
  from align_up_checked_Inr [OF this]
  have "8 dvd unat r" "unat v \<le> unat r" "unat r < unat v + 8" by simp_all
  then have "unat r = (unat v + 7) div 8 * 8" by (rule round_up_8)
  then have "r = of_nat ((unat v + 7) div 8 * 8)" by (metis of_nat_unat_id)
  with r show ?thesis by simp
qed

end
