(* ===== verification/Integer_Math.thy ===== *)
theory Integer_Math
  imports Checked_Math
begin

text \<open>
  Saturating addition and exact basis points:
  \<open>src/include/glifistore/core/integer_math.hpp\<close>.  The doubling loop of \<open>basis_points\<close> is a
  recursion on the remaining scale; its invariant is the value of the two fractions.
\<close>

section \<open>Saturating addition and basis points\<close>

definition saturating_add :: "u64 \<Rightarrow> u64 \<Rightarrow> u64" where
  "saturating_add left right = (if right > - 1 - left then - 1 else left + right)"

lemma saturating_add_exact:
  "unat (saturating_add a b) = min (unat a + unat b) (2 ^ 64 - 1)"
proof (cases "b > - 1 - a")
  case True
  then have "2 ^ 64 \<le> unat a + unat b" by (simp add: checked_add_overflow_iff)
  with True show ?thesis by (simp add: saturating_add_def unsigned_minus_1_eq_mask mask_eq_exp_minus_1)
next
  case False
  then have "unat a + unat b < 2 ^ LENGTH(64)" by (simp only: checked_add_overflow_iff not_le)
  with False show ?thesis by (simp add: saturating_add_def unat_add_no_overflow)
qed

record fraction =
  quotient :: u32
  remainder :: u64

definition fraction_add :: "u64 \<Rightarrow> fraction \<Rightarrow> fraction \<Rightarrow> fraction" where
  "fraction_add denominator left right =
     (let q = quotient left + quotient right in
      if remainder right \<noteq> 0 \<and> remainder left \<ge> denominator - remainder right
      then \<lparr>quotient = q + 1, remainder = remainder left - (denominator - remainder right)\<rparr>
      else \<lparr>quotient = q, remainder = remainder left + remainder right\<rparr>)"

lemma unat_drop_bit_1: "unat (drop_bit 1 (w :: 'a::len word)) = unat w div 2"
  unfolding unat_drop_bit_eq by (simp add: drop_bit_eq_div)

function basis_loop :: "u64 \<Rightarrow> fraction \<Rightarrow> fraction \<Rightarrow> u32 \<Rightarrow> fraction" where
  "basis_loop denominator result multiple scale =
     (if scale = 0 then result
      else
        let result' = (if scale AND 1 \<noteq> 0 then fraction_add denominator result multiple else result);
            scale' = drop_bit 1 scale
        in basis_loop denominator result'
             (if scale' \<noteq> 0 then fraction_add denominator multiple multiple else multiple) scale')"
  by pat_completeness auto

termination
  by (relation "measure (\<lambda>(d, r, m, s). unat s)")
    (simp_all only: wf_measure in_measure prod.case unat_drop_bit_1, simp add: unat_gt_0)

declare basis_loop.simps [simp del]

definition basis_points :: "u64 \<Rightarrow> u64 \<Rightarrow> u32" where
  "basis_points numerator denominator =
     (if denominator = 0 then 0
      else if numerator \<ge> denominator then 10000
      else quotient (basis_loop denominator \<lparr>quotient = 0, remainder = 0\<rparr>
                       \<lparr>quotient = 0, remainder = numerator\<rparr> 10000))"

text \<open>The value of a fraction, scaled by the denominator, and its well-formedness.\<close>

definition fraction_val :: "u64 \<Rightarrow> fraction \<Rightarrow> nat" where
  "fraction_val d f = unat (quotient f) * unat d + unat (remainder f)"

lemma fraction_add_val:
  assumes "remainder l < d" "remainder r < d"
    and "fraction_val d l + fraction_val d r < 2 ^ 32 * unat d"
  shows "fraction_val d (fraction_add d l r) = fraction_val d l + fraction_val d r"
    and "remainder (fraction_add d l r) < d"
proof -
  define ql qr rl rr D where "ql = unat (quotient l)" "qr = unat (quotient r)"
    "rl = unat (remainder l)" "rr = unat (remainder r)" "D = unat d"
  note defs = this
  have rl: "rl < D" and rr: "rr < D" using assms(1,2) by (simp_all add: defs word_less_nat_alt)
  have Dlim: "D < 2 ^ 64" using unat_u64_bound [of d] by (simp add: defs)
  have total: "(ql + qr) * D + (rl + rr) < 2 ^ 32 * D"
    using assms(3) by (simp add: fraction_val_def defs algebra_simps)
  then have "(ql + qr) * D < 2 ^ 32 * D" by linarith
  then have qsum: "ql + qr < 2 ^ 32" by simp
  have dm: "unat (d - remainder r) = D - rr"
    using assms(2) by (simp add: unat_sub less_imp_le defs)
  have qadd: "unat (quotient l + quotient r) = ql + qr"
    using qsum by (simp add: unat_add_no_overflow defs)
  let ?carry = "remainder r \<noteq> 0 \<and> remainder l \<ge> d - remainder r"
  have carry: "?carry \<longleftrightarrow> D \<le> rl + rr"
  proof -
    have "remainder r \<noteq> 0 \<longleftrightarrow> rr \<noteq> 0" by (simp add: defs unat_eq_0)
    moreover have "remainder l \<ge> d - remainder r \<longleftrightarrow> D - rr \<le> rl"
      by (simp only: word_le_nat_alt dm) (simp add: defs)
    ultimately show ?thesis using rl rr by linarith
  qed
  have both: "fraction_val d (fraction_add d l r) = (ql + qr) * D + (rl + rr)
      \<and> remainder (fraction_add d l r) < d"
  proof (cases ?carry)
    case True
    then have c: "D \<le> rl + rr" using carry by blast
    with total have "(ql + qr + 1) * D < 2 ^ 32 * D" by (simp add: algebra_simps)
    then have q1: "ql + qr + 1 < 2 ^ 32" by (simp only: mult_less_cancel2)
    have "unat (quotient l + quotient r + 1) = ql + qr + 1"
      using q1 qadd by (simp add: unat_add_no_overflow)
    moreover have "unat (remainder l - (d - remainder r)) = rl - (D - rr)"
      using True by (simp add: unat_sub dm) (simp add: defs)
    moreover have "(ql + qr + 1) * D + (rl - (D - rr)) = (ql + qr) * D + (rl + rr)"
      using c rr by (simp add: algebra_simps)
    moreover have "rl - (D - rr) < D" using rl by linarith
    ultimately show ?thesis using True
      by (simp add: fraction_add_def Let_def fraction_val_def word_less_nat_alt flip: defs(5))
  next
    case False
    then have c: "rl + rr < D" using carry by (simp only: not_le)
    then have "unat (remainder l + remainder r) = rl + rr"
      using Dlim by (simp add: unat_add_no_overflow defs)
    then show ?thesis using c unfolding fraction_add_def Let_def if_not_P [OF False]
      by (simp add: fraction_val_def word_less_nat_alt qadd flip: defs(5))
  qed
  then show "fraction_val d (fraction_add d l r) = fraction_val d l + fraction_val d r"
    by (simp add: fraction_val_def defs algebra_simps)
  from both show "remainder (fraction_add d l r) < d" by blast
qed

lemma mult_halve: "s * m = s mod 2 * m + s div 2 * (2 * m)" for s m :: nat
proof -
  have "s mod 2 * m + s div 2 * (2 * m) = (s mod 2 + s div 2 * 2) * m"
    by (simp only: add_mult_distrib mult.assoc)
  also have "\<dots> = s * m" by (simp only: mod_div_mult_eq)
  finally show ?thesis by simp
qed

lemma basis_loop_val:
  assumes "remainder res < d" "remainder mult < d"
    and "fraction_val d res + unat scale * fraction_val d mult < 2 ^ 32 * unat d"
  shows "fraction_val d (basis_loop d res mult scale)
           = fraction_val d res + unat scale * fraction_val d mult
       \<and> remainder (basis_loop d res mult scale) < d"
  using assms
proof (induction d res mult scale rule: basis_loop.induct)
  case (1 d res mult scale)
  show ?case
  proof (cases "scale = 0")
    case True
    then show ?thesis using 1 by (simp add: basis_loop.simps [of d res mult 0])
  next
    case False
    define scale' where "scale' = drop_bit 1 scale"
    define res' where "res' = (if scale AND 1 \<noteq> 0 then fraction_add d res mult else res)"
    define mult' where "mult' = (if scale' \<noteq> 0 then fraction_add d mult mult else mult)"
    have half: "unat scale' = unat scale div 2" by (simp only: scale'_def unat_drop_bit_1)
    have oddbit: "scale AND 1 \<noteq> 0 \<longleftrightarrow> odd (unat scale)"
    proof -
      have "scale AND 1 \<noteq> 0 \<longleftrightarrow> odd scale" by (simp add: and_one_eq odd_iff_mod_2_eq_one)
      also have "\<dots> \<longleftrightarrow> bit (unat scale) 0" by (simp only: bit_unsigned_iff) (simp add: bit_0)
      finally show ?thesis by (simp only: bit_0)
    qed
    have pos: "0 < unat scale" using False by (simp add: unat_gt_0)
    have resv: "fraction_val d res' = fraction_val d res + (unat scale mod 2) * fraction_val d mult
        \<and> remainder res' < d"
    proof (cases "odd (unat scale)")
      case True
      have "fraction_val d mult \<le> unat scale * fraction_val d mult" using pos by simp
      with 1(4) have "fraction_val d res + fraction_val d mult < 2 ^ 32 * unat d" by linarith
      from fraction_add_val [OF 1(2,3) this] True oddbit show ?thesis
        by (simp add: res'_def odd_iff_mod_2_eq_one)
    next
      case False
      with oddbit 1(2) show ?thesis by (simp add: res'_def)
    qed
    have multv: "unat scale' * fraction_val d mult' = unat scale' * (2 * fraction_val d mult)
        \<and> remainder mult' < d"
    proof (cases "scale' = 0")
      case True
      then show ?thesis using 1(3) by (simp add: mult'_def)
    next
      case nz: False
      then have "0 < unat scale'" by (simp add: unat_gt_0)
      then have "2 \<le> unat scale" using half by linarith
      then have "2 * fraction_val d mult \<le> unat scale * fraction_val d mult" by simp
      with 1(4) have "fraction_val d mult + fraction_val d mult < 2 ^ 32 * unat d" by linarith
      from fraction_add_val [OF 1(3,3) this] nz show ?thesis by (simp add: mult'_def)
    qed
    have split: "unat scale * m = (unat scale mod 2) * m + unat scale' * (2 * m)" for m
      unfolding half by (rule mult_halve)
    have sum: "fraction_val d res' + unat scale' * fraction_val d mult'
        = fraction_val d res + unat scale * fraction_val d mult"
      using resv multv split [of "fraction_val d mult"] by simp
    have "fraction_val d (basis_loop d res' mult' scale')
           = fraction_val d res' + unat scale' * fraction_val d mult'
       \<and> remainder (basis_loop d res' mult' scale') < d"
      using 1(1) [OF False refl refl, folded scale'_def, folded mult'_def res'_def] resv multv sum 1(4)
      by (simp add: scale'_def res'_def mult'_def)
    moreover have "basis_loop d res mult scale = basis_loop d res' mult' scale'"
      using False by (simp add: basis_loop.simps [of d res mult scale] Let_def scale'_def res'_def mult'_def)
    ultimately show ?thesis using sum by simp
  qed
qed

lemma basis_points_ratio:
  assumes "n < d"
  shows "unat (basis_points n d) = unat n * 10000 div unat d"
proof -
  have dpos: "d \<noteq> 0" "0 < d" using assms by (auto simp: word_less_nat_alt)
  let ?r = "basis_loop d \<lparr>quotient = 0, remainder = 0\<rparr> \<lparr>quotient = 0, remainder = n\<rparr> 10000"
  have lim: "10000 * unat n < 2 ^ 32 * unat d"
    using assms by (simp add: word_less_nat_alt)
  have "fraction_val d ?r = 10000 * unat n \<and> remainder ?r < d"
    using basis_loop_val [of "\<lparr>quotient = 0, remainder = 0\<rparr>" d "\<lparr>quotient = 0, remainder = n\<rparr>" 10000]
      assms dpos lim by (simp add: fraction_val_def)
  then have "10000 * unat n = unat (quotient ?r) * unat d + unat (remainder ?r)"
    and rem: "unat (remainder ?r) < unat d" by (simp_all add: fraction_val_def word_less_nat_alt)
  then have "10000 * unat n div unat d = unat (quotient ?r) + unat (remainder ?r) div unat d"
    by simp
  also have "\<dots> = unat (quotient ?r)" using rem by simp
  finally have "10000 * unat n div unat d = unat (quotient ?r)" .
  moreover have "\<not> d \<le> n" using assms by (simp add: not_le)
  ultimately show ?thesis using dpos by (simp add: basis_points_def mult.commute)
qed

text \<open>
  C16.  For every numerator and denominator, \<open>basis_points\<close> is the exact integer part of
  ten thousand times the ratio, capped at ten thousand (and 0 for a zero denominator): the
  quotient/remainder doubling never loses precision and never overflows.
\<close>

theorem basis_points_exact:
  "unat (basis_points n d) = (if d = 0 then 0 else min 10000 (unat n * 10000 div unat d))"
proof (cases "d = 0 \<or> d \<le> n")
  case True
  have "d \<noteq> 0 \<Longrightarrow> d \<le> n \<Longrightarrow> 10000 \<le> unat n * 10000 div unat d"
    by (simp add: less_eq_div_iff_mult_less_eq unat_gt_0 word_le_nat_alt)
  with True show ?thesis by (auto simp: basis_points_def)
next
  case False
  then have "n < d" by (simp add: not_le)
  then have "unat n * 10000 div unat d \<le> 10000"
    by (simp add: word_less_nat_alt div_le_dividend less_mult_imp_div_less less_imp_le)
  with False basis_points_ratio [OF \<open>n < d\<close>] show ?thesis by simp
qed

end
