(* ===== verification/Little_Endian.thy ===== *)
theory Little_Endian
  imports Glifi_Prelude
begin

text \<open>
  Positional little-endian codecs: \<open>src/include/glifistore/core/little_endian.hpp\<close>.
  A buffer is a byte list; \<open>put_u16\<close>, \<open>put_u32\<close> and \<open>put_u64\<close> overwrite it in place and
  \<open>get_u16\<close>, \<open>get_u32\<close> and \<open>get_u64\<close> read it.  As in the source, callers have checked that
  the accessed range lies within the buffer.  The lemmas reduce all widths to \<open>put_le\<close> and
  \<open>get_le\<close>: a write is read back, a disjoint read is not disturbed, and a read determines the
  bytes it read.
\<close>

named_theorems le_defs \<open>the fixed-width accessors in terms of \<open>put_le\<close> and \<open>get_le\<close>\<close>

section \<open>The accessors\<close>

definition byte_of_word :: "'a::len word \<Rightarrow> nat \<Rightarrow> byte" where
  "byte_of_word val index = ucast (drop_bit (index * 8) val AND 0xFF)"

definition put_le :: "nat \<Rightarrow> bytes \<Rightarrow> nat \<Rightarrow> 'a::len word \<Rightarrow> bytes" where
  "put_le n out pos val =
     foldl (\<lambda>out index. out[pos + index := byte_of_word val index]) out [0..<n]"

definition get_le :: "nat \<Rightarrow> bytes \<Rightarrow> nat \<Rightarrow> 'a::len word" where
  "get_le n inp pos =
     foldl (\<lambda>val index. val OR push_bit (index * 8) (ucast (inp ! (pos + index)))) 0 [0..<n]"

definition put_u16 :: "bytes \<Rightarrow> nat \<Rightarrow> u16 \<Rightarrow> bytes" where
  "put_u16 out pos val =
     (out[pos := ucast (val AND 0xFF)])[pos + 1 := ucast (drop_bit 8 val AND 0xFF)]"

definition put_u32 :: "bytes \<Rightarrow> nat \<Rightarrow> u32 \<Rightarrow> bytes" where
  "put_u32 out pos val = put_le 4 out pos val"

definition put_u64 :: "bytes \<Rightarrow> nat \<Rightarrow> u64 \<Rightarrow> bytes" where
  "put_u64 out pos val = put_le 8 out pos val"

definition get_u16 :: "bytes \<Rightarrow> nat \<Rightarrow> u16" where
  "get_u16 inp pos = ucast (inp ! pos) OR push_bit 8 (ucast (inp ! (pos + 1)))"

definition get_u32 :: "bytes \<Rightarrow> nat \<Rightarrow> u32" where
  "get_u32 inp pos = get_le 4 inp pos"

definition get_u64 :: "bytes \<Rightarrow> nat \<Rightarrow> u64" where
  "get_u64 inp pos = get_le 8 inp pos"

lemma put_u16_le: "put_u16 = put_le 2"
  by (simp add: fun_eq_iff put_u16_def put_le_def byte_of_word_def upt_rec)

lemma get_u16_le: "get_u16 = get_le 2"
  by (simp add: fun_eq_iff get_u16_def get_le_def upt_rec)

lemma put_u32_le: "put_u32 = put_le 4"
  by (simp add: fun_eq_iff put_u32_def)

lemma put_u64_le: "put_u64 = put_le 8"
  by (simp add: fun_eq_iff put_u64_def)

lemma get_u32_le: "get_u32 = get_le 4"
  by (simp add: fun_eq_iff get_u32_def)

lemma get_u64_le: "get_u64 = get_le 8"
  by (simp add: fun_eq_iff get_u64_def)

lemmas le_accessors [le_defs] =
  put_u16_le put_u32_le put_u64_le get_u16_le get_u32_le get_u64_le

section \<open>Writes\<close>

lemma put_le_Suc:
  "put_le (Suc n) out pos v = (put_le n out pos v)[pos + n := byte_of_word v n]"
  by (simp add: put_le_def)

lemma put_le_0 [simp]: "put_le 0 out pos v = out"
  by (simp add: put_le_def)

lemma length_put_le [simp]: "length (put_le n out pos v) = length out"
  by (induction n) (simp_all add: put_le_Suc)

lemma length_put [simp]:
  "length (put_u16 out pos v16) = length out"
  "length (put_u32 out pos v32) = length out"
  "length (put_u64 out pos v64) = length out"
  by (simp_all add: le_defs)

lemma nth_put_le:
  assumes "pos + n \<le> length out"
  shows "put_le n out pos v ! j =
           (if pos \<le> j \<and> j < pos + n then byte_of_word v (j - pos) else out ! j)"
  using assms
proof (induction n)
  case (Suc n)
  then show ?case by (auto simp: put_le_Suc nth_list_update not_less less_Suc_eq)
qed auto

lemma nth_put_le_frame:
  "j < pos \<or> pos + n \<le> j \<Longrightarrow> put_le n out pos v ! j = out ! j"
  by (induction n) (auto simp: put_le_Suc)

section \<open>Reads\<close>

lemma get_le_Suc:
  "get_le (Suc n) inp pos = get_le n inp pos OR push_bit (n * 8) (ucast (inp ! (pos + n)))"
  by (simp add: get_le_def)

lemma get_le_0 [simp]: "get_le 0 inp pos = 0"
  by (simp add: get_le_def)

lemma get_le_cong:
  "(\<And>i. i < n \<Longrightarrow> xs ! (p + i) = ys ! (q + i)) \<Longrightarrow> get_le n xs p = get_le n ys q"
  by (induction n) (simp_all add: get_le_Suc)

lemma bit_get_le:
  "bit (get_le n inp pos :: 'a::len word) m \<longleftrightarrow>
     m < LENGTH('a) \<and> m < 8 * n \<and> bit (inp ! (pos + m div 8)) (m mod 8)"
proof (induction n)
  case (Suc n)
  show ?case
  proof (cases "m < 8 * n")
    case True
    then show ?thesis by (auto simp: get_le_Suc bit_simps Suc.IH)
  next
    case False
    then have old: "\<not> bit (get_le n inp pos :: 'a word) m" by (simp add: Suc.IH)
    have new: "bit (push_bit (n * 8) (ucast (inp ! (pos + n))) :: 'a word) m \<longleftrightarrow>
        m < LENGTH('a) \<and> bit (inp ! (pos + n)) (m - n * 8)"
      using False by (auto simp: bit_push_bit_iff bit_ucast_iff mult.commute)
    show ?thesis
    proof (cases "m < 8 * Suc n")
      case True
      have "m div 8 = n" by (rule div_nat_eqI) (use True False in simp_all)
      moreover from this have "m mod 8 = m - n * 8" by (simp add: minus_div_mult_eq_mod [symmetric])
      ultimately show ?thesis using True by (simp add: get_le_Suc bit_or_iff old new)
    next
      case False
      then have "\<not> bit (inp ! (pos + n)) (m - n * 8)"
        using bit_imp_le_length [of "inp ! (pos + n)" "m - n * 8"] by auto
      with False show ?thesis by (simp add: get_le_Suc bit_or_iff old new)
    qed
  qed
qed simp

lemma byte_of_word_take_bit:
  "byte_of_word v i = ucast (take_bit 8 (drop_bit (i * 8) v))"
proof -
  have "(0xFF :: 'a::len word) = mask 8" by (simp add: mask_eq_exp_minus_1)
  then show ?thesis by (simp only: byte_of_word_def take_bit_eq_mask)
qed

lemma bit_byte_of_word:
  "bit (byte_of_word v i) k \<longleftrightarrow> k < 8 \<and> bit v (i * 8 + k)"
  by (auto simp: byte_of_word_take_bit bit_ucast_iff bit_take_bit_iff bit_drop_bit_eq)

section \<open>Laws\<close>

lemma get_put_le:
  fixes v :: "'a::len word"
  assumes "LENGTH('a) = 8 * n" "pos + n \<le> length out"
  shows "get_le n (put_le n out pos v) pos = v"
proof (rule bit_word_eqI)
  fix m assume m: "m < LENGTH('a)"
  then have i: "m div 8 < n" using assms(1) by (simp add: less_mult_imp_div_less mult.commute)
  then have "put_le n out pos v ! (pos + m div 8) = byte_of_word v (m div 8)"
    using assms(2) by (simp add: nth_put_le)
  then show "bit (get_le n (put_le n out pos v) pos :: 'a word) m = bit v m"
    using m assms(1) by (simp add: bit_get_le bit_byte_of_word)
qed

lemma get_put_u [simp]:
  "pos + 2 \<le> length out \<Longrightarrow> get_u16 (put_u16 out pos v16) pos = v16"
  "pos + 4 \<le> length out \<Longrightarrow> get_u32 (put_u32 out pos v32) pos = v32"
  "pos + 8 \<le> length out \<Longrightarrow> get_u64 (put_u64 out pos v64) pos = v64"
  by (simp_all add: le_defs get_put_le)

lemma get_put_le_frame:
  "q + m \<le> p \<or> p + n \<le> q \<Longrightarrow> get_le m (put_le n out p v) q = get_le m out q"
  by (rule get_le_cong) (auto intro: nth_put_le_frame)

lemma get_le_blit_frame:
  assumes "p + length ys \<le> length out" "q + m \<le> p \<or> p + length ys \<le> q"
  shows "get_le m (blit out p ys) q = get_le m out q"
  by (rule get_le_cong) (use assms in \<open>auto simp: nth_blit\<close>)

lemma get_le_take:
  assumes "q + m \<le> k" "k \<le> length out"
  shows "get_le m (take k out) q = get_le m out q"
  by (rule get_le_cong) (use assms in simp)

lemma get_le_sub:
  "i + n \<le> length xs \<Longrightarrow> q + m \<le> n \<Longrightarrow> get_le m (sub xs i n) q = get_le m xs (i + q)"
  by (rule get_le_cong) (simp add: nth_sub add.assoc)

lemma get_le_inj:
  fixes xs ys :: bytes
  assumes "get_le n xs p = (get_le n ys q :: 'a::len word)" "8 * n \<le> LENGTH('a)" "i < n"
  shows "xs ! (p + i) = ys ! (q + i)"
proof (rule bit_word_eqI)
  fix k assume "k < LENGTH(8)"
  then have k: "k < 8" by simp
  let ?m = "8 * i + k"
  have m: "?m < 8 * n" "?m div 8 = i" "?m mod 8 = k" using assms(3) k by simp_all
  have "bit (get_le n xs p :: 'a word) ?m = bit (get_le n ys q :: 'a word) ?m" using assms(1) by simp
  then show "bit (xs ! (p + i)) k = bit (ys ! (q + i)) k"
    using m assms(2) by (simp add: bit_get_le)
qed

text \<open>
  Two buffers whose read agrees everywhere but at one byte of the read range give different
  values: a corrupted field is seen.
\<close>

lemma get_le_update_neq:
  assumes "8 * n \<le> LENGTH('a::len)" "p \<le> i" "i < p + n" "i < length xs" "b \<noteq> xs ! i"
  shows "get_le n (xs[i := b]) p \<noteq> (get_le n xs p :: 'a word)"
proof
  assume "get_le n (xs[i := b]) p = (get_le n xs p :: 'a word)"
  then have "xs[i := b] ! (p + (i - p)) = xs ! (p + (i - p))"
    by (rule get_le_inj [OF _ assms(1)]) (use assms(2,3) in linarith)
  then show False using assms(2,4,5) by simp
qed

lemma get_le_update_frame:
  "i < p \<or> p + n \<le> i \<Longrightarrow> get_le n (xs[i := b]) p = get_le n xs p"
  by (rule get_le_cong) auto

lemma blit_put_le:
  assumes "p + n \<le> length e" "length ys = n"
  shows "blit (put_le n e p w) p ys = blit e p ys"
  using assms by (intro nth_equalityI) (auto simp: nth_blit nth_put_le)

lemma sub_put_le_frame:
  "i + n \<le> length e \<Longrightarrow> p + m \<le> i \<Longrightarrow> sub (put_le m e p w) i n = sub e i n"
  by (rule nth_equalityI) (simp_all add: nth_sub nth_put_le_frame)

lemma sub_put_le_before:
  "i + n \<le> length e \<Longrightarrow> i + n \<le> p \<Longrightarrow> sub (put_le m e p w) i n = sub e i n"
  by (rule nth_equalityI) (simp_all add: nth_sub nth_put_le_frame)

lemma get_le_append: "q + m \<le> length xs \<Longrightarrow> get_le m (xs @ ys) q = get_le m xs q"
  by (rule get_le_cong) (simp add: nth_append)

lemma get_le_bytes_eq:
  assumes "get_le n xs p = (get_le n ys p :: 'a::len word)" "8 * n \<le> LENGTH('a)" "p \<le> j" "j < p + n"
  shows "xs ! j = ys ! j"
  using get_le_inj [OF assms(1,2), of "j - p"] assms(3,4) by simp

lemmas u16_bytes_eq = get_le_bytes_eq [where 'a = 16 and n = 2, simplified]
lemmas u32_bytes_eq = get_le_bytes_eq [where 'a = 32 and n = 4, simplified]
lemmas u64_bytes_eq = get_le_bytes_eq [where 'a = 64 and n = 8, simplified]

text \<open>\<open>agree xs ys a b\<close>: the buffers hold the same bytes from \<open>a\<close> up to \<open>b\<close>.\<close>

definition agree :: "bytes \<Rightarrow> bytes \<Rightarrow> nat \<Rightarrow> nat \<Rightarrow> bool" where
  "agree xs ys a b \<longleftrightarrow> (\<forall>j. a \<le> j \<and> j < b \<longrightarrow> xs ! j = ys ! j)"

lemma agree_empty [simp]: "agree xs ys a a"
  by (auto simp: agree_def)

lemma agree_extend:
  assumes "agree xs ys a p" "get_le n xs p = (get_le n ys p :: 'a::len word)" "8 * n \<le> LENGTH('a)"
    and "q = p + n"
  shows "agree xs ys a q"
  unfolding agree_def
proof (intro allI impI)
  fix j assume j: "a \<le> j \<and> j < q"
  show "xs ! j = ys ! j"
    using assms(1,4) j get_le_bytes_eq [OF assms(2,3), of j] by (cases "j < p") (simp_all add: agree_def)
qed

lemmas agree_u16 = agree_extend [where 'a = 16 and n = 2, simplified]
lemmas agree_u32 = agree_extend [where 'a = 32 and n = 4, simplified]
lemmas agree_u64 = agree_extend [where 'a = 64 and n = 8, simplified]

text \<open>
  C17.  Every fixed-width field written with \<open>put_u16\<close>, \<open>put_u32\<close> or \<open>put_u64\<close> inside a buffer, up to
  its last byte, is read back unchanged by the matching getter, and the write leaves every other
  byte and the length of the buffer alone.
\<close>

theorem little_endian_roundtrip:
  shows "(pos + 2 \<le> length out \<longrightarrow> get_u16 (put_u16 out pos v16) pos = v16 \<and> length (put_u16 out pos v16) = length out
           \<and> (j < pos \<or> pos + 2 \<le> j \<longrightarrow> put_u16 out pos v16 ! j = out ! j))
       \<and> (pos + 4 \<le> length out \<longrightarrow> get_u32 (put_u32 out pos v32) pos = v32 \<and> length (put_u32 out pos v32) = length out
           \<and> (j < pos \<or> pos + 4 \<le> j \<longrightarrow> put_u32 out pos v32 ! j = out ! j))
       \<and> (pos + 8 \<le> length out \<longrightarrow> get_u64 (put_u64 out pos v64) pos = v64 \<and> length (put_u64 out pos v64) = length out
           \<and> (j < pos \<or> pos + 8 \<le> j \<longrightarrow> put_u64 out pos v64 ! j = out ! j))"
  by (simp add: le_defs get_put_le nth_put_le_frame)

theorem little_endian_roundtrip_witness:
  "get_u16 (put_u16 (replicate 12 0) 10 0x1234) 10 = 0x1234
   \<and> put_u32 (replicate 12 0xAA) 8 0x12345678 ! 7 = 0xAA \<and> get_u64 (put_u64 (replicate 12 0) 4 5) 4 = 5"
  using little_endian_roundtrip [of 10 "replicate 12 0" "0x1234"]
    little_endian_roundtrip [of 8 "replicate 12 0xAA" _ 7 "0x12345678"]
    little_endian_roundtrip [of 4 "replicate 12 0" _ _ _ 5]
  by simp

end
