(* ===== verification/Key_Hash.thy ===== *)
theory Key_Hash
  imports Little_Endian
begin

text \<open>
  Key hashing and Worker routing: \<open>src/include/glifistore/core/key_hash.hpp\<close>,
  \<open>src/include/glifistore/core/worker_routing.hpp\<close> and the value functions of
  \<open>src/src/core/worker_routing.cpp\<close>.  A \<open>RoutingAlgorithm\<close> is an enumeration with a fixed
  underlying type into which any 32-bit number is cast, so it is that number here.
\<close>

section \<open>FNV-1a and SipHash-2-4\<close>

definition kFnv1a64Offset :: u64 where
  "kFnv1a64Offset = 14695981039346656037"

definition kFnv1a64Prime :: u64 where
  "kFnv1a64Prime = 1099511628211"

definition hash_key :: "bytes \<Rightarrow> u64" where
  "hash_key key = foldl (\<lambda>hash b. (hash XOR ucast b) * kFnv1a64Prime) kFnv1a64Offset key"

type_synonym sip_state = "u64 \<times> u64 \<times> u64 \<times> u64"

definition rotl64 :: "u64 \<Rightarrow> nat \<Rightarrow> u64" where
  "rotl64 val shift = push_bit shift val OR drop_bit (64 - shift) val"

definition sipround :: "sip_state \<Rightarrow> sip_state" where
  "sipround = (\<lambda>(v0, v1, v2, v3).
     let v0 = v0 + v1;
         v1 = rotl64 v1 13;
         v1 = v1 XOR v0;
         v0 = rotl64 v0 32;
         v2 = v2 + v3;
         v3 = rotl64 v3 16;
         v3 = v3 XOR v2;
         v0 = v0 + v3;
         v3 = rotl64 v3 21;
         v3 = v3 XOR v0;
         v2 = v2 + v1;
         v1 = rotl64 v1 17;
         v1 = v1 XOR v2;
         v2 = rotl64 v2 32
     in (v0, v1, v2, v3))"

text \<open>One message block: \<open>v3 ^= message\<close>, two rounds, \<open>v0 ^= message\<close>.\<close>

definition sip_absorb :: "u64 \<Rightarrow> sip_state \<Rightarrow> sip_state" where
  "sip_absorb message = (\<lambda>(v0, v1, v2, v3).
     case sipround (sipround (v0, v1, v2, v3 XOR message)) of
       (w0, w1, w2, w3) \<Rightarrow> (w0 XOR message, w1, w2, w3))"

function sip_blocks :: "bytes \<Rightarrow> nat \<Rightarrow> sip_state \<Rightarrow> sip_state \<times> nat" where
  "sip_blocks key offset v =
     (if offset + 8 \<le> length key
      then sip_blocks key (offset + 8) (sip_absorb (get_le 8 key offset) v)
      else (v, offset))"
  by pat_completeness auto
termination
  by (relation "measure (\<lambda>(key, offset, v). length key - offset)") auto

declare sip_blocks.simps [simp del]

definition sip_tail :: "bytes \<Rightarrow> nat \<Rightarrow> u64" where
  "sip_tail key offset =
     push_bit 56 (of_nat (length key)) OR get_le (length key - offset) key offset"

definition siphash24 :: "bytes \<Rightarrow> u64 \<Rightarrow> u64 \<Rightarrow> u64" where
  "siphash24 key k0 k1 =
     (let v = (k0 XOR 0x736f6d6570736575, k1 XOR 0x646f72616e646f6d,
               k0 XOR 0x6c7967656e657261, k1 XOR 0x7465646279746573);
          (v, offset) = sip_blocks key 0 v;
          (v0, v1, v2, v3) = sip_absorb (sip_tail key offset) v;
          (v0, v1, v2, v3) =
            sipround (sipround (sipround (sipround (v0, v1, v2 XOR 0xff, v3))))
      in v0 XOR v1 XOR v2 XOR v3)"

definition hash_key_keyed :: "bytes \<Rightarrow> u64 \<Rightarrow> u64 \<Rightarrow> u64" where
  "hash_key_keyed key k0 k1 = siphash24 key k0 k1"

text \<open>\<open>worker_count\<close> is a container size; the callers never pass 0.\<close>

definition route_worker :: "u64 \<Rightarrow> nat \<Rightarrow> nat" where
  "route_worker key_hash worker_count = unat key_hash mod worker_count"

section \<open>Routing state\<close>

type_synonym routing_algorithm = u32

definition fnv1a64_v1 :: routing_algorithm where "fnv1a64_v1 = 1"
definition siphash24_v1 :: routing_algorithm where "siphash24_v1 = 2"

definition kDefaultWorkerHashSeed :: u64 where "kDefaultWorkerHashSeed = 0"
definition kWorkerRoutingSipKey1Xor :: u64 where "kWorkerRoutingSipKey1Xor = 0x6a09e667f3bcc909"

text \<open>The bytes of \<open>GlifiStore/2\<close>.\<close>

definition kWireProtocolIdentity :: bytes where
  "kWireProtocolIdentity = [71, 108, 105, 102, 105, 83, 116, 111, 114, 101, 47, 50]"

definition kWireInitIdentityExtendedBytes :: nat where
  "kWireInitIdentityExtendedBytes = length kWireProtocolIdentity + 1 + 4 + 8"

record worker_routing_state =
  algorithm :: routing_algorithm
  seed :: u64

definition default_routing :: worker_routing_state where
  "default_routing = \<lparr>algorithm = fnv1a64_v1, seed = kDefaultWorkerHashSeed\<rparr>"

definition keyed :: "worker_routing_state \<Rightarrow> bool" where
  "keyed state \<longleftrightarrow> algorithm state = siphash24_v1"

definition validate_worker_routing_state :: "worker_routing_state \<Rightarrow> status" where
  "validate_worker_routing_state state =
     (if algorithm state = fnv1a64_v1 then
        (if seed state \<noteq> kDefaultWorkerHashSeed then fail Invalid_argument else ok)
      else if algorithm state = siphash24_v1 then ok
      else fail Invalid_argument)"

definition hash_key_routing :: "bytes \<Rightarrow> worker_routing_state \<Rightarrow> u64" where
  "hash_key_routing key state =
     (if algorithm state = siphash24_v1
      then siphash24 key (seed state) (seed state XOR kWorkerRoutingSipKey1Xor)
      else hash_key key)"

record hashed_key =
  hk_key :: bytes
  hk_hash :: u64

definition compute_hashed_key :: "worker_routing_state \<Rightarrow> bytes \<Rightarrow> hashed_key" where
  "compute_hashed_key state key = \<lparr>hk_key = key, hk_hash = hash_key_routing key state\<rparr>"

section \<open>The INIT identity value\<close>

definition append_u32 :: "bytes \<Rightarrow> u32 \<Rightarrow> bytes" where
  "append_u32 out val = put_u32 (out @ replicate 4 0) (length out) val"

definition append_u64 :: "bytes \<Rightarrow> u64 \<Rightarrow> bytes" where
  "append_u64 out val = put_u64 (out @ replicate 8 0) (length out) val"

definition encode_init_identity_value :: "worker_routing_state \<Rightarrow> bytes" where
  "encode_init_identity_value state =
     (if \<not> keyed state then kWireProtocolIdentity
      else append_u64 (append_u32 (kWireProtocolIdentity @ [0]) (algorithm state)) (seed state))"

definition decode_init_identity_value :: "bytes \<Rightarrow> worker_routing_state result" where
  "decode_init_identity_value val =
     (if length val = length kWireProtocolIdentity \<and> val = kWireProtocolIdentity
      then Inr default_routing
      else if length val \<noteq> kWireInitIdentityExtendedBytes then fail Corrupted_data
      else if take (length kWireProtocolIdentity) val \<noteq> kWireProtocolIdentity
            \<or> val ! length kWireProtocolIdentity \<noteq> 0 then fail Corrupted_data
      else
        let state = \<lparr>algorithm = get_u32 val (length kWireProtocolIdentity + 1),
                     seed = get_u64 val (length kWireProtocolIdentity + 1 + 4)\<rparr>
        in bind_result (validate_worker_routing_state state) (\<lambda>_.
             if \<not> keyed state then fail Corrupted_data else Inr state))"

lemma length_identity [simp]: "length kWireProtocolIdentity = 12"
  by (simp add: kWireProtocolIdentity_def)

lemma length_append_u [simp]:
  "length (append_u32 out v32) = length out + 4"
  "length (append_u64 out v64) = length out + 8"
  by (simp_all add: append_u32_def append_u64_def)

lemma nth_append_u:
  "j < length out \<Longrightarrow> append_u32 out v32 ! j = out ! j"
  "j < length out \<Longrightarrow> append_u64 out v64 ! j = out ! j"
  by (simp_all add: append_u32_def append_u64_def le_defs nth_put_le_frame nth_append)

lemma get_append_u:
  "get_u32 (append_u32 out v32) (length out) = v32"
  "get_u64 (append_u64 out v64) (length out) = v64"
  "q + 4 \<le> length out \<Longrightarrow> get_u32 (append_u64 out v64) q = get_u32 out q"
  by (simp_all add: append_u32_def append_u64_def)
    (simp add: le_defs get_put_le_frame, rule get_le_cong, simp add: nth_append)

lemma decode_encode_init_identity:
  assumes "validate_worker_routing_state s = ok"
  shows "decode_init_identity_value (encode_init_identity_value s) = Inr s"
proof (cases "keyed s")
  case False
  with assms have "s = default_routing"
    by (cases s) (auto simp: keyed_def validate_worker_routing_state_def default_routing_def
        split: if_splits)
  with False show ?thesis
    by (simp add: encode_init_identity_value_def decode_init_identity_value_def)
next
  case True
  define p where "p = append_u32 (kWireProtocolIdentity @ [0]) (algorithm s)"
  have len: "length p = 17" by (simp add: p_def)
  have enc: "encode_init_identity_value s = append_u64 p (seed s)"
    using True by (simp add: encode_init_identity_value_def p_def)
  have pre: "take 12 (append_u64 p (seed s)) = kWireProtocolIdentity"
    by (rule nth_equalityI) (simp_all add: len nth_append_u p_def nth_append)
  have zero: "append_u64 p (seed s) ! 12 = 0"
    by (simp add: nth_append_u len p_def nth_append)
  have alg: "get_u32 (append_u64 p (seed s)) 13 = algorithm s"
    using get_append_u(1) [of "kWireProtocolIdentity @ [0]"] by (simp add: get_append_u(3) len p_def)
  have sd: "get_u64 (append_u64 p (seed s)) 17 = seed s"
    using get_append_u(2) [of p] by (simp add: len)
  have rebuilt: "\<lparr>algorithm = algorithm s, seed = seed s\<rparr> = s" by (cases s) simp
  show ?thesis using assms True
    by (simp add: enc decode_init_identity_value_def kWireInitIdentityExtendedBytes_def len pre zero
        alg sd Let_def rebuilt)
qed

lemma encode_decode_init_identity:
  assumes "decode_init_identity_value v = Inr s"
  shows "encode_init_identity_value s = v \<and> validate_worker_routing_state s = ok"
proof (cases "v = kWireProtocolIdentity")
  case True
  then show ?thesis using assms
    by (auto simp: decode_init_identity_value_def encode_init_identity_value_def default_routing_def
        keyed_def fnv1a64_v1_def siphash24_v1_def validate_worker_routing_state_def)
next
  case False
  with assms have len: "length v = 25" and pre: "take 12 v = kWireProtocolIdentity"
    and zero: "v ! 12 = 0" and s: "s = \<lparr>algorithm = get_u32 v 13, seed = get_u64 v 17\<rparr>"
    and valid: "validate_worker_routing_state s = ok" and k: "keyed s"
    by (auto simp: decode_init_identity_value_def kWireInitIdentityExtendedBytes_def Let_def
        bind_result_iffs split: if_splits)
  define p where "p = append_u32 (kWireProtocolIdentity @ [0]) (algorithm s)"
  have lp: "length p = 17" by (simp add: p_def)
  have "append_u64 p (seed s) = v"
  proof (rule nth_equalityI)
    show "length (append_u64 p (seed s)) = length v" by (simp add: lp len)
    fix j assume "j < length (append_u64 p (seed s))"
    then consider "j < 12" | "j = 12" | "13 \<le> j" "j < 17" | "17 \<le> j" "j < 25"
      unfolding length_append_u lp by linarith
    then show "append_u64 p (seed s) ! j = v ! j"
    proof cases
      case 1
      have "v ! j = take 12 v ! j" using 1 len by simp
      with 1 show ?thesis by (simp add: pre nth_append_u lp p_def nth_append)
    next
      case 2
      then show ?thesis by (simp add: zero nth_append_u lp p_def nth_append)
    next
      case 3
      have eq: "get_le 4 p 13 = (get_le 4 v 13 :: u32)"
        using get_append_u(1) [of "kWireProtocolIdentity @ [0]" "algorithm s"]
        by (simp add: p_def s le_defs)
      have "p ! (13 + (j - 13)) = v ! (13 + (j - 13))"
        by (rule get_le_inj [OF eq]) (use 3 in simp_all)
      with 3 show ?thesis by (simp add: nth_append_u lp)
    next
      case 4
      have eq: "get_le 8 (append_u64 p (seed s)) 17 = (get_le 8 v 17 :: u64)"
        using get_append_u(2) [of p "seed s"] by (simp add: lp s le_defs)
      have "append_u64 p (seed s) ! (17 + (j - 17)) = v ! (17 + (j - 17))"
        by (rule get_le_inj [OF eq]) (use 4 in simp_all)
      with 4 show ?thesis by simp
    qed
  qed
  then show ?thesis using k valid by (simp add: encode_init_identity_value_def p_def)
qed

text \<open>
  C15.  The INIT identity value is a bijective encoding of the valid routing states: a value
  decodes to \<open>s\<close> exactly when \<open>s\<close> is valid and the value is the encoding of \<open>s\<close>.  A client that
  accepts the identity routes with the seed and algorithm the server published.
\<close>

theorem init_identity_canonical:
  "decode_init_identity_value v = Inr s \<longleftrightarrow>
     validate_worker_routing_state s = ok \<and> v = encode_init_identity_value s"
  using decode_encode_init_identity encode_decode_init_identity by blast

lemma route_worker_less: "0 < n \<Longrightarrow> route_worker h n < n"
  by (simp add: route_worker_def)

end
