(* ===== verification/Routing_Seqlock.thy ===== *)
theory Routing_Seqlock
  imports Key_Hash
begin

text \<open>
  The process-wide routing state of \<open>src/src/core/worker_routing.cpp\<close>: \<open>set_worker_routing\<close> and
  \<open>get_worker_routing\<close> share four atomics in a sequence-lock protocol.  All loads and stores
  of the cells and of the revision are sequentially consistent, so an execution is an
  interleaving of their atomic accesses; the step relation has one rule for each.  The list
  \<open>published\<close> is a history variable: the states installed so far, oldest first.
\<close>

section \<open>The shared cells and the threads\<close>

datatype seq_pc =
    Idle
  | Set_spin worker_routing_state          \<comment> \<open>\<open>while (writer.test_and_set())\<close>\<close>
  | Set_load worker_routing_state          \<comment> \<open>flag held; load and check the revision\<close>
  | Set_begin worker_routing_state u64     \<comment> \<open>store revision + 1\<close>
  | Set_algorithm worker_routing_state u64
  | Set_seed worker_routing_state u64
  | Set_commit worker_routing_state u64    \<comment> \<open>store revision + 2\<close>
  | Set_clear                              \<comment> \<open>\<open>writer.clear()\<close>\<close>
  | Get_before                             \<comment> \<open>load the revision; wait while it is odd\<close>
  | Get_algorithm u64
  | Get_seed u64 routing_algorithm
  | Get_check u64 worker_routing_state
  | Get_done worker_routing_state

record seqlock =
  g_algorithm :: routing_algorithm
  g_seed :: u64
  g_revision :: u64
  g_writer :: bool
  terminated :: bool
  pcs :: "nat \<Rightarrow> seq_pc"
  published :: "worker_routing_state list"

definition seqlock_init :: seqlock where
  "seqlock_init = \<lparr>g_algorithm = fnv1a64_v1, g_seed = kDefaultWorkerHashSeed, g_revision = 0,
     g_writer = False, terminated = False, pcs = (\<lambda>_. Idle), published = [default_routing]\<rparr>"

abbreviation goto :: "seqlock \<Rightarrow> nat \<Rightarrow> seq_pc \<Rightarrow> seqlock" where
  "goto s t pc \<equiv> s\<lparr>pcs := (pcs s)(t := pc)\<rparr>"

inductive seq_step :: "seqlock \<Rightarrow> seqlock \<Rightarrow> bool" where
  call_set: "pcs s t = Idle \<Longrightarrow> \<not> terminated s \<Longrightarrow> seq_step s (goto s t (Set_spin st))"
| acquire: "pcs s t = Set_spin st \<Longrightarrow> \<not> terminated s \<Longrightarrow> \<not> g_writer s \<Longrightarrow>
    seq_step s (goto (s\<lparr>g_writer := True\<rparr>) t (Set_load st))"
| load_revision: "pcs s t = Set_load st \<Longrightarrow> \<not> terminated s \<Longrightarrow>
    \<not> (g_revision s AND 1 \<noteq> 0 \<or> g_revision s > - 1 - 2) \<Longrightarrow>
    seq_step s (goto s t (Set_begin st (g_revision s)))"
| terminate: "pcs s t = Set_load st \<Longrightarrow> \<not> terminated s \<Longrightarrow>
    g_revision s AND 1 \<noteq> 0 \<or> g_revision s > - 1 - 2 \<Longrightarrow>
    seq_step s (s\<lparr>terminated := True\<rparr>)"
| store_begin: "pcs s t = Set_begin st revision \<Longrightarrow> \<not> terminated s \<Longrightarrow>
    seq_step s (goto (s\<lparr>g_revision := revision + 1\<rparr>) t (Set_algorithm st revision))"
| store_algorithm: "pcs s t = Set_algorithm st revision \<Longrightarrow> \<not> terminated s \<Longrightarrow>
    seq_step s (goto (s\<lparr>g_algorithm := algorithm st\<rparr>) t (Set_seed st revision))"
| store_seed: "pcs s t = Set_seed st revision \<Longrightarrow> \<not> terminated s \<Longrightarrow>
    seq_step s (goto (s\<lparr>g_seed := seed st\<rparr>) t (Set_commit st revision))"
| store_commit: "pcs s t = Set_commit st revision \<Longrightarrow> \<not> terminated s \<Longrightarrow>
    seq_step s (goto (s\<lparr>g_revision := revision + 2, published := published s @ [st]\<rparr>) t Set_clear)"
| release: "pcs s t = Set_clear \<Longrightarrow> \<not> terminated s \<Longrightarrow>
    seq_step s (goto (s\<lparr>g_writer := False\<rparr>) t Idle)"
| call_get: "pcs s t = Idle \<Longrightarrow> \<not> terminated s \<Longrightarrow> seq_step s (goto s t Get_before)"
| load_before: "pcs s t = Get_before \<Longrightarrow> \<not> terminated s \<Longrightarrow> g_revision s AND 1 = 0 \<Longrightarrow>
    seq_step s (goto s t (Get_algorithm (g_revision s)))"
| load_algorithm: "pcs s t = Get_algorithm before \<Longrightarrow> \<not> terminated s \<Longrightarrow>
    seq_step s (goto s t (Get_seed before (g_algorithm s)))"
| load_seed: "pcs s t = Get_seed before alg \<Longrightarrow> \<not> terminated s \<Longrightarrow>
    seq_step s (goto s t (Get_check before \<lparr>algorithm = alg, seed = g_seed s\<rparr>))"
| validated: "pcs s t = Get_check before st \<Longrightarrow> \<not> terminated s \<Longrightarrow> g_revision s = before \<Longrightarrow>
    seq_step s (goto s t (Get_done st))"
| retry: "pcs s t = Get_check before st \<Longrightarrow> \<not> terminated s \<Longrightarrow> g_revision s \<noteq> before \<Longrightarrow>
    seq_step s (goto s t Get_before)"
| return_get: "pcs s t = Get_done st \<Longrightarrow> \<not> terminated s \<Longrightarrow> seq_step s (goto s t Idle)"

inductive seq_reachable :: "seqlock \<Rightarrow> bool" where
  seq_start: "seq_reachable seqlock_init"
| seq_next: "seq_reachable s \<Longrightarrow> seq_step s s' \<Longrightarrow> seq_reachable s'"

section \<open>The invariant\<close>

text \<open>Which threads hold the writer flag, and which have the revision odd.\<close>

definition in_writer :: "seq_pc \<Rightarrow> bool" where
  "in_writer pc \<longleftrightarrow> (case pc of Set_load _ \<Rightarrow> True | Set_begin _ _ \<Rightarrow> True | Set_algorithm _ _ \<Rightarrow> True
     | Set_seed _ _ \<Rightarrow> True | Set_commit _ _ \<Rightarrow> True | Set_clear \<Rightarrow> True | _ \<Rightarrow> False)"

definition mid_write :: "seq_pc \<Rightarrow> bool" where
  "mid_write pc \<longleftrightarrow> (case pc of Set_algorithm _ _ \<Rightarrow> True | Set_seed _ _ \<Rightarrow> True
     | Set_commit _ _ \<Rightarrow> True | _ \<Rightarrow> False)"

text \<open>The number of completed installations.\<close>

definition commits :: "seqlock \<Rightarrow> nat" where
  "commits s = length (published s) - 1"

definition cell_inv :: "seqlock \<Rightarrow> bool" where
  "cell_inv s \<longleftrightarrow> published s \<noteq> [] \<and>
     (if \<exists>t. mid_write (pcs s t) then unat (g_revision s) = 2 * commits s + 1
      else unat (g_revision s) = 2 * commits s
         \<and> \<lparr>algorithm = g_algorithm s, seed = g_seed s\<rparr> = last (published s))"

text \<open>What each program counter knows.\<close>

definition pc_inv :: "seqlock \<Rightarrow> seq_pc \<Rightarrow> bool" where
  "pc_inv s pc \<longleftrightarrow> (case pc of
       Set_begin st revision \<Rightarrow> unat revision = 2 * commits s \<and> unat revision \<le> 2 ^ 64 - 3
     | Set_algorithm st revision \<Rightarrow> unat revision = 2 * commits s \<and> unat revision \<le> 2 ^ 64 - 3
     | Set_seed st revision \<Rightarrow> unat revision = 2 * commits s \<and> unat revision \<le> 2 ^ 64 - 3
         \<and> g_algorithm s = algorithm st
     | Set_commit st revision \<Rightarrow> unat revision = 2 * commits s \<and> unat revision \<le> 2 ^ 64 - 3
         \<and> g_algorithm s = algorithm st \<and> g_seed s = seed st
     | Get_algorithm before \<Rightarrow> even (unat before) \<and> unat before \<le> 2 * commits s
     | Get_seed before alg \<Rightarrow> even (unat before) \<and> unat before \<le> 2 * commits s
         \<and> (g_revision s = before \<longrightarrow> alg = g_algorithm s)
     | Get_check before st \<Rightarrow> even (unat before) \<and> unat before \<le> 2 * commits s
         \<and> (g_revision s = before \<longrightarrow> st = \<lparr>algorithm = g_algorithm s, seed = g_seed s\<rparr>)
     | Get_done st \<Rightarrow> st \<in> set (published s)
     | _ \<Rightarrow> True)"

definition seq_inv :: "seqlock \<Rightarrow> bool" where
  "seq_inv s \<longleftrightarrow> cell_inv s
     \<and> (\<forall>t u. in_writer (pcs s t) \<longrightarrow> in_writer (pcs s u) \<longrightarrow> t = u)
     \<and> ((\<exists>t. in_writer (pcs s t)) \<longrightarrow> g_writer s)
     \<and> (\<forall>t. pc_inv s (pcs s t))"

lemmas seq_pc_defs = in_writer_def mid_write_def

lemma mid_write_in_writer: "mid_write pc \<Longrightarrow> in_writer pc"
  by (auto simp: seq_pc_defs split: seq_pc.splits)

text \<open>A reader keeps what it knows when the cells are unchanged or the revision moved on.\<close>

lemma pc_inv_frame:
  assumes "pc_inv s pc" "\<not> in_writer pc"
    and "commits s \<le> commits s'" "set (published s) \<subseteq> set (published s')"
    and "g_revision s' = g_revision s \<and> g_algorithm s' = g_algorithm s \<and> g_seed s' = g_seed s
       \<or> odd (unat (g_revision s')) \<or> 2 * commits s < unat (g_revision s')"
  shows "pc_inv s' pc"
  using assms by (cases pc) (auto simp: pc_inv_def in_writer_def)

text \<open>One thread moves from \<open>pcs s t\<close> to \<open>pc\<close>.\<close>

lemma seq_inv_move:
  assumes inv: "seq_inv s"
    and move: "pcs s' = (pcs s)(t := pc)"
    and cells: "cell_inv s'"
    and moved: "pc_inv s' pc"
    and others: "\<And>u. u \<noteq> t \<Longrightarrow> \<not> in_writer (pcs s u) \<Longrightarrow> pc_inv s' (pcs s u)"
    and writers: "\<And>u. u \<noteq> t \<Longrightarrow> in_writer (pcs s u) \<Longrightarrow> pc_inv s' (pcs s u)"
    and enter: "in_writer pc \<Longrightarrow> (in_writer (pcs s t) \<or> \<not> g_writer s) \<and> g_writer s'"
    and leave: "\<And>u. u \<noteq> t \<Longrightarrow> in_writer (pcs s u) \<Longrightarrow> g_writer s'"
  shows "seq_inv s'"
  unfolding seq_inv_def
proof (intro conjI allI impI)
  from inv have excl: "in_writer (pcs s a) \<Longrightarrow> in_writer (pcs s b) \<Longrightarrow> a = b" for a b
    by (auto simp: seq_inv_def)
  from inv have flag: "in_writer (pcs s a) \<Longrightarrow> g_writer s" for a by (auto simp: seq_inv_def)
  show "cell_inv s'" by (rule cells)
  show "a = b" if "in_writer (pcs s' a)" "in_writer (pcs s' b)" for a b
    using that move enter excl flag by (auto split: if_splits)
  show "g_writer s'" if "\<exists>a. in_writer (pcs s' a)"
    using that move enter leave by (auto split: if_splits)
  show "pc_inv s' (pcs s' a)" for a
    using move moved others writers by (cases "a = t") auto
qed

lemma seq_inv_exclusive:
  "seq_inv s \<Longrightarrow> in_writer (pcs s t) \<Longrightarrow> u \<noteq> t \<Longrightarrow> \<not> in_writer (pcs s u)"
  by (auto simp: seq_inv_def)

lemma seq_inv_pc: "seq_inv s \<Longrightarrow> pc_inv s (pcs s u)"
  by (simp add: seq_inv_def)

lemma seq_inv_cells: "seq_inv s \<Longrightarrow> cell_inv s"
  by (simp add: seq_inv_def)

lemma seq_inv_flag: "seq_inv s \<Longrightarrow> in_writer (pcs s t) \<Longrightarrow> g_writer s"
  by (auto simp: seq_inv_def)

lemma pc_inv_cong:
  "g_revision s' = g_revision s \<Longrightarrow> g_algorithm s' = g_algorithm s \<Longrightarrow> g_seed s' = g_seed s \<Longrightarrow>
   published s' = published s \<Longrightarrow> pc_inv s' pc = pc_inv s pc"
  by (cases pc) (simp_all add: pc_inv_def commits_def)

lemma cell_inv_cong:
  "g_revision s' = g_revision s \<Longrightarrow> g_algorithm s' = g_algorithm s \<Longrightarrow> g_seed s' = g_seed s \<Longrightarrow>
   published s' = published s \<Longrightarrow> (\<exists>t. mid_write (pcs s' t)) = (\<exists>t. mid_write (pcs s t)) \<Longrightarrow>
   cell_inv s' = cell_inv s"
  by (simp add: cell_inv_def commits_def)

text \<open>Moves that leave the cells alone.\<close>

lemma seq_inv_quiet:
  assumes inv: "seq_inv s"
    and same: "g_revision s' = g_revision s" "g_algorithm s' = g_algorithm s" "g_seed s' = g_seed s"
      "published s' = published s"
    and move: "pcs s' = (pcs s)(t := pc)"
    and mid: "\<not> mid_write (pcs s t)" "\<not> mid_write pc"
    and moved: "pc_inv s pc"
    and enter: "in_writer pc \<Longrightarrow> (in_writer (pcs s t) \<or> \<not> g_writer s) \<and> g_writer s'"
    and leave: "\<And>u. u \<noteq> t \<Longrightarrow> in_writer (pcs s u) \<Longrightarrow> g_writer s'"
  shows "seq_inv s'"
proof (rule seq_inv_move [OF inv move _ _ _ _ enter leave])
  have "(\<exists>u. mid_write (pcs s' u)) = (\<exists>u. mid_write (pcs s u))"
    using move mid by (auto split: if_splits)
  then show "cell_inv s'" using inv same by (simp add: cell_inv_cong [of s' s] seq_inv_def)
  show "pc_inv s' pc" using moved same by (simp add: pc_inv_cong [of s' s])
  show "pc_inv s' (pcs s u)" for u using inv same by (simp add: pc_inv_cong [of s' s] seq_inv_def)
  then show "pc_inv s' (pcs s u)" for u .
qed assumption+

lemma even_revision: "w AND 1 = 0 \<longleftrightarrow> even (unat w)" for w :: u64
proof -
  have "w AND 1 = 0 \<longleftrightarrow> even w" by (simp add: and_one_eq even_iff_mod_2_eq_zero)
  also have "\<dots> \<longleftrightarrow> \<not> bit (unat w) 0" by (simp only: bit_unsigned_iff) (simp add: bit_0)
  finally show ?thesis by (simp only: bit_0 not_not)
qed

text \<open>Moves of the thread that holds the writer flag.\<close>

lemma seq_inv_writer:
  assumes inv: "seq_inv s" and w: "in_writer (pcs s t)"
    and move: "pcs s' = (pcs s)(t := pc)" and flag: "g_writer s' = g_writer s"
    and cells: "cell_inv s'" and moved: "pc_inv s' pc"
    and pub: "commits s \<le> commits s'" "set (published s) \<subseteq> set (published s')"
    and rev: "odd (unat (g_revision s')) \<or> 2 * commits s < unat (g_revision s')"
  shows "seq_inv s'"
proof (rule seq_inv_move [OF inv move cells moved])
  note excl = seq_inv_exclusive [OF inv w]
  show "pc_inv s' (pcs s u)" if "u \<noteq> t" "\<not> in_writer (pcs s u)" for u
    by (rule pc_inv_frame [OF seq_inv_pc [OF inv] that(2) pub]) (use rev in blast)
  show "pc_inv s' (pcs s u)" "g_writer s'" if "u \<noteq> t" "in_writer (pcs s u)" for u
    using excl [OF that(1)] that(2) by simp_all
  show "(in_writer (pcs s t) \<or> \<not> g_writer s) \<and> g_writer s'"
    using w flag seq_inv_flag [OF inv w] by simp
qed

lemma mid_write_revision:
  "seq_inv s \<Longrightarrow> mid_write (pcs s t) \<Longrightarrow> unat (g_revision s) = 2 * commits s + 1"
  using seq_inv_cells [of s] by (auto simp: cell_inv_def split: if_splits)

lemma revision_bounds:
  fixes revision :: u64
  assumes "unat revision = 2 * c" "unat revision \<le> 2 ^ 64 - 3"
  shows "unat (revision + 1) = 2 * c + 1" "unat (revision + 2) = 2 * c + 2"
  using assms by (simp_all add: unat_word_ariths)

lemma cell_inv_mid:
  assumes "published s \<noteq> []" "mid_write (pcs s t)" "unat (g_revision s) = 2 * commits s + 1"
  shows "cell_inv s"
  using assms by (auto simp: cell_inv_def)

lemma seq_inv_published: "seq_inv s \<Longrightarrow> published s \<noteq> []"
  by (simp add: seq_inv_def cell_inv_def)

lemma step_store_begin:
  assumes pc: "pcs s t = Set_begin st revision" and inv: "seq_inv s"
  shows "seq_inv (goto (s\<lparr>g_revision := revision + 1\<rparr>) t (Set_algorithm st revision))"
proof -
  have know: "unat revision = 2 * commits s" "unat revision \<le> 2 ^ 64 - 3"
    using seq_inv_pc [OF inv, of t] by (simp_all add: pc pc_inv_def)
  note next1 = revision_bounds(1) [OF know]
  show ?thesis
  proof (rule seq_inv_writer [OF inv, of t _ "Set_algorithm st revision"])
    show "cell_inv (goto (s\<lparr>g_revision := revision + 1\<rparr>) t (Set_algorithm st revision))"
      by (rule cell_inv_mid [of _ t])
        (simp_all add: seq_inv_published [OF inv] next1 commits_def mid_write_def)
  qed (use know next1 in \<open>simp_all add: pc in_writer_def pc_inv_def commits_def\<close>)
qed

lemma step_store_algorithm:
  assumes pc: "pcs s t = Set_algorithm st revision" and inv: "seq_inv s"
  shows "seq_inv (goto (s\<lparr>g_algorithm := algorithm st\<rparr>) t (Set_seed st revision))"
proof -
  have know: "unat revision = 2 * commits s" "unat revision \<le> 2 ^ 64 - 3"
    using seq_inv_pc [OF inv, of t] by (simp_all add: pc pc_inv_def)
  have odd: "unat (g_revision s) = 2 * commits s + 1"
    by (rule mid_write_revision [OF inv, of t]) (simp add: pc mid_write_def)
  show ?thesis
  proof (rule seq_inv_writer [OF inv, of t _ "Set_seed st revision"])
    show "cell_inv (goto (s\<lparr>g_algorithm := algorithm st\<rparr>) t (Set_seed st revision))"
      by (rule cell_inv_mid [of _ t])
        (simp_all add: seq_inv_published [OF inv] odd commits_def mid_write_def)
  qed (use know odd in \<open>simp_all add: pc in_writer_def pc_inv_def commits_def\<close>)
qed

lemma step_store_seed:
  assumes pc: "pcs s t = Set_seed st revision" and inv: "seq_inv s"
  shows "seq_inv (goto (s\<lparr>g_seed := seed st\<rparr>) t (Set_commit st revision))"
proof -
  have know: "unat revision = 2 * commits s" "unat revision \<le> 2 ^ 64 - 3" "g_algorithm s = algorithm st"
    using seq_inv_pc [OF inv, of t] by (simp_all add: pc pc_inv_def)
  have odd: "unat (g_revision s) = 2 * commits s + 1"
    by (rule mid_write_revision [OF inv, of t]) (simp add: pc mid_write_def)
  show ?thesis
  proof (rule seq_inv_writer [OF inv, of t _ "Set_commit st revision"])
    show "cell_inv (goto (s\<lparr>g_seed := seed st\<rparr>) t (Set_commit st revision))"
      by (rule cell_inv_mid [of _ t])
        (simp_all add: seq_inv_published [OF inv] odd commits_def mid_write_def)
  qed (use know odd in \<open>simp_all add: pc in_writer_def pc_inv_def commits_def\<close>)
qed

lemma step_store_commit:
  assumes pc: "pcs s t = Set_commit st revision" and inv: "seq_inv s"
  shows "seq_inv (goto (s\<lparr>g_revision := revision + 2, published := published s @ [st]\<rparr>) t Set_clear)"
    (is "seq_inv ?s")
proof -
  have w: "in_writer (pcs s t)" by (simp add: pc in_writer_def)
  have know: "unat revision = 2 * commits s" "unat revision \<le> 2 ^ 64 - 3" "g_algorithm s = algorithm st"
      "g_seed s = seed st"
    using seq_inv_pc [OF inv, of t] by (simp_all add: pc pc_inv_def)
  note rev = revision_bounds(2) [OF know(1,2)]
  have com: "commits ?s = commits s + 1"
    using seq_inv_published [OF inv] by (cases "published s") (simp_all add: commits_def)
  have "\<not> mid_write (pcs ?s u)" for u
  proof (cases "u = t")
    case True
    then show ?thesis by (simp add: mid_write_def)
  next
    case False
    from seq_inv_exclusive [OF inv w this] mid_write_in_writer False show ?thesis by auto
  qed
  moreover have "\<lparr>algorithm = algorithm st, seed = seed st\<rparr> = st" by (cases st) simp
  ultimately have "cell_inv ?s" using com rev know by (simp add: cell_inv_def)
  then show ?thesis
    by (rule seq_inv_writer [OF inv w, of _ Set_clear, rotated 2])
      (use com rev in \<open>simp_all add: pc_inv_def subset_insertI\<close>)
qed

lemma step_load_revision:
  assumes pc: "pcs s t = Set_load st" and inv: "seq_inv s"
    and guard: "\<not> (g_revision s AND 1 \<noteq> 0 \<or> g_revision s > - 1 - 2)"
  shows "seq_inv (goto s t (Set_begin st (g_revision s)))"
proof -
  have w: "in_writer (pcs s t)" by (simp add: pc in_writer_def)
  have "\<not> mid_write (pcs s u)" for u
  proof (cases "u = t")
    case True
    then show ?thesis by (simp add: pc mid_write_def)
  next
    case False
    from seq_inv_exclusive [OF inv w this] mid_write_in_writer show ?thesis by blast
  qed
  then have rev: "unat (g_revision s) = 2 * commits s"
    using seq_inv_cells [OF inv] by (simp add: cell_inv_def)
  have "g_revision s \<le> - 1 - 2" using guard by (simp add: not_less)
  then have "unat (g_revision s) \<le> 2 ^ 64 - 3" by (simp add: word_le_nat_alt)
  then show ?thesis
    by (intro seq_inv_quiet [OF inv, of _ t "Set_begin st (g_revision s)"])
      (simp_all add: rev pc pc_inv_def seq_pc_defs seq_inv_flag [OF inv w])
qed

lemma step_load_before:
  assumes pc: "pcs s t = Get_before" and inv: "seq_inv s" and even: "g_revision s AND 1 = 0"
  shows "seq_inv (goto s t (Get_algorithm (g_revision s)))"
proof -
  have ev: "even (unat (g_revision s))" using even by (simp add: even_revision)
  then have "unat (g_revision s) \<le> 2 * commits s"
    using seq_inv_cells [OF inv] by (auto simp: cell_inv_def split: if_splits)
  with ev show ?thesis
    by (intro seq_inv_quiet [OF inv, of _ t "Get_algorithm (g_revision s)"])
      (auto simp: pc pc_inv_def seq_pc_defs intro: seq_inv_flag [OF inv])
qed

lemma step_validated:
  assumes pc: "pcs s t = Get_check (g_revision s) st" and inv: "seq_inv s"
  shows "seq_inv (goto s t (Get_done st))"
proof -
  have "even (unat (g_revision s))" "st = \<lparr>algorithm = g_algorithm s, seed = g_seed s\<rparr>"
    using seq_inv_pc [OF inv, of t] by (simp_all add: pc pc_inv_def)
  then have "st \<in> set (published s)"
    using seq_inv_cells [OF inv] by (auto simp: cell_inv_def split: if_splits)
  then show ?thesis
    by (intro seq_inv_quiet [OF inv, of _ t "Get_done st"])
      (auto simp: pc pc_inv_def seq_pc_defs intro: seq_inv_flag [OF inv])
qed

lemma step_reader:
  assumes inv: "seq_inv s" and reader: "\<not> in_writer (pcs s t)" "\<not> in_writer pc" and moved: "pc_inv s pc"
  shows "seq_inv (goto s t pc)"
  by (rule seq_inv_quiet [OF inv, of _ t pc])
    (use assms mid_write_in_writer in \<open>auto intro: seq_inv_flag [OF inv]\<close>)

lemma step_acquire:
  assumes pc: "pcs s t = Set_spin st" and inv: "seq_inv s" and free: "\<not> g_writer s"
  shows "seq_inv (goto (s\<lparr>g_writer := True\<rparr>) t (Set_load st))"
  by (rule seq_inv_quiet [OF inv, of _ t "Set_load st"])
    (simp_all add: pc free pc_inv_def seq_pc_defs)

lemma step_release:
  assumes pc: "pcs s t = Set_clear" and inv: "seq_inv s"
  shows "seq_inv (goto (s\<lparr>g_writer := False\<rparr>) t Idle)"
proof -
  have "in_writer (pcs s t)" by (simp add: pc in_writer_def)
  note excl = seq_inv_exclusive [OF inv this]
  show ?thesis
    by (rule seq_inv_quiet [OF inv, of _ t Idle])
      (use excl in \<open>simp_all add: pc pc_inv_def seq_pc_defs\<close>)
qed

lemma seq_step_inv:
  assumes "seq_step s s'" "seq_inv s"
  shows "seq_inv s'"
  using assms
proof (induction rule: seq_step.induct)
  case (terminate s t st)
  then show ?case
    by (simp add: seq_inv_def pc_inv_cong [of "s\<lparr>terminated := True\<rparr>" s]
        cell_inv_cong [of "s\<lparr>terminated := True\<rparr>" s])
next
  case (load_algorithm s t before)
  then show ?case
    using seq_inv_pc [of s t] by (intro step_reader) (simp_all add: pc_inv_def in_writer_def)
next
  case (load_seed s t before alg)
  then show ?case
    using seq_inv_pc [of s t] by (intro step_reader) (simp_all add: pc_inv_def in_writer_def)
next
  case (validated s t before st)
  then show ?case by (intro step_validated) simp_all
next
  case (store_begin s t st revision)
  then show ?case by (intro step_store_begin)
next
  case (store_algorithm s t st revision)
  then show ?case by (intro step_store_algorithm)
next
  case (store_seed s t st revision)
  then show ?case by (intro step_store_seed)
next
  case (store_commit s t st revision)
  then show ?case by (intro step_store_commit)
next
  case (load_revision s t st)
  then show ?case by (intro step_load_revision)
next
  case (load_before s t)
  then show ?case by (intro step_load_before)
next
  case (acquire s t st)
  then show ?case by (intro step_acquire)
next
  case (release s t)
  then show ?case by (intro step_release)
qed (simp_all add: step_reader pc_inv_def in_writer_def)

lemma seq_reachable_inv: "seq_reachable s \<Longrightarrow> seq_inv s"
proof (induction rule: seq_reachable.induct)
  case seq_start
  show ?case
    by (simp add: seqlock_init_def seq_inv_def cell_inv_def commits_def pc_inv_def seq_pc_defs
        default_routing_def)
next
  case (seq_next s s')
  then show ?case by (blast intro: seq_step_inv)
qed

text \<open>
  C14.  However the writers and readers interleave, a completed \<open>get_worker_routing\<close> returns a pair
  that one \<open>set_worker_routing\<close> (or the initial state) installed as a whole: a torn pair of an
  algorithm and a foreign seed is never observed, and two writers are never inside the
  critical section together.
\<close>

theorem seqlock_reads_are_published:
  assumes "seq_reachable s"
  shows "(\<forall>t st. pcs s t = Get_done st \<longrightarrow> st \<in> set (published s))
       \<and> (\<forall>t u. in_writer (pcs s t) \<and> in_writer (pcs s u) \<longrightarrow> t = u)"
proof -
  from assms have inv: "seq_inv s" by (rule seq_reachable_inv)
  have "st \<in> set (published s)" if "pcs s t = Get_done st" for t st
    using inv that by (auto simp: seq_inv_def pc_inv_def dest!: spec [of _ t])
  with inv show ?thesis by (simp add: seq_inv_def)
qed

theorem seqlock_reads_are_published_witness:
  "\<exists>s. seq_reachable s \<and> pcs s 0 = Get_done default_routing \<and> default_routing \<in> set (published s)"
proof -
  let ?s1 = "goto seqlock_init 0 Get_before"
  let ?s2 = "goto ?s1 0 (Get_algorithm (g_revision ?s1))"
  let ?s3 = "goto ?s2 0 (Get_seed (g_revision ?s1) (g_algorithm ?s2))"
  let ?s4 = "goto ?s3 0 (Get_check (g_revision ?s1) \<lparr>algorithm = g_algorithm ?s2, seed = g_seed ?s3\<rparr>)"
  let ?s5 = "goto ?s4 0 (Get_done \<lparr>algorithm = g_algorithm ?s2, seed = g_seed ?s3\<rparr>)"
  have 1: "seq_step seqlock_init ?s1" by (rule call_get) (simp_all add: seqlock_init_def)
  have 2: "seq_step ?s1 ?s2" by (rule load_before) (simp_all add: seqlock_init_def)
  have 3: "seq_step ?s2 ?s3" by (rule load_algorithm) (simp_all add: seqlock_init_def)
  have 4: "seq_step ?s3 ?s4" by (rule load_seed) (simp_all add: seqlock_init_def)
  have 5: "seq_step ?s4 ?s5" by (rule validated) (simp_all add: seqlock_init_def)
  have r: "seq_reachable ?s5"
    by (intro seq_reachable.seq_next [OF _ 5] seq_reachable.seq_next [OF _ 4]
        seq_reachable.seq_next [OF _ 3] seq_reachable.seq_next [OF _ 2]
        seq_reachable.seq_next [OF seq_start 1])
  have "pcs ?s5 0 = Get_done default_routing"
    by (simp add: seqlock_init_def default_routing_def)
  with r seqlock_reads_are_published [OF r] show ?thesis by blast
qed

end
