(* ===== verification/Crc32c.thy ===== *)
theory Crc32c
  imports Little_Endian
begin

text \<open>
  The CRC-32C checksum of \<open>src/src/segment/crc32c.cpp\<close>: the table-driven software update, the
  two hardware updates over the processor's instructions (parameters), and the checksum over
  a buffer whose checksum field reads as zero.  The reference is the bit-serial register
  \<open>crc_bits\<close>: the table, the software loop and the hardware loops all compute it, and from its
  injectivity follows that a change confined to four consecutive bytes is always detected.
\<close>

section \<open>The table and the software update\<close>

definition kCrc32cInit :: u32 where "kCrc32cInit = 0xFFFFFFFF"
definition kCrc32cPoly :: u32 where "kCrc32cPoly = 0x82F63B78"

text \<open>One iteration of the inner loop of \<open>make_crc32c_table\<close>.\<close>

definition crc_shift :: "u32 \<Rightarrow> u32" where
  "crc_shift crc = (let mask = 0 - (crc AND 1) in drop_bit 1 crc XOR (kCrc32cPoly AND mask))"

primrec crc_bits :: "nat \<Rightarrow> u32 \<Rightarrow> u32" where
  "crc_bits 0 crc = crc"
| "crc_bits (Suc n) crc = crc_bits n (crc_shift crc)"

definition make_crc32c_table :: "u32 list" where
  "make_crc32c_table = map (\<lambda>index. crc_bits 8 (of_nat index)) [0..<256]"

definition crc32c_step :: "u32 \<Rightarrow> byte \<Rightarrow> u32" where
  "crc32c_step crc b =
     make_crc32c_table ! unat ((crc XOR ucast b) AND 0xFF) XOR drop_bit 8 crc"

definition crc32c_software_update :: "u32 \<Rightarrow> bytes \<Rightarrow> u32" where
  "crc32c_software_update crc data = foldl crc32c_step crc data"

text \<open>
  The hardware update.  Each loop runs while a full operand is left; the SSE build has the
  operand widths 8, 4 and 1, the ARM build 8, 4, 2 and 1.  The instructions are parameters.
\<close>

function hw_loop :: "nat \<Rightarrow> (u32 \<Rightarrow> bytes \<Rightarrow> u32) \<Rightarrow> u32 \<Rightarrow> bytes \<Rightarrow> u32 \<times> bytes" where
  "hw_loop w ins crc data =
     (if 0 < w \<and> w \<le> length data then hw_loop w ins (ins crc (take w data)) (drop w data)
      else (crc, data))"
  by pat_completeness auto
termination
  by (relation "measure (\<lambda>(w, ins, crc, data). length data)") auto

declare hw_loop.simps [simp del]

definition crc32c_hardware_update_sse ::
  "(u32 \<Rightarrow> u64 \<Rightarrow> u64) \<Rightarrow> (u32 \<Rightarrow> u32 \<Rightarrow> u32) \<Rightarrow> (u32 \<Rightarrow> byte \<Rightarrow> u32) \<Rightarrow> u32 \<Rightarrow> bytes \<Rightarrow> u32" where
  "crc32c_hardware_update_sse mm_crc32_u64 mm_crc32_u32 mm_crc32_u8 crc data =
     (let (crc, data) = hw_loop 8 (\<lambda>crc d. ucast (mm_crc32_u64 crc (get_u64 d 0))) crc data;
          (crc, data) = hw_loop 4 (\<lambda>crc d. mm_crc32_u32 crc (get_u32 d 0)) crc data;
          (crc, data) = hw_loop 1 (\<lambda>crc d. mm_crc32_u8 crc (d ! 0)) crc data
      in crc)"

definition crc32c_hardware_update_arm ::
  "(u32 \<Rightarrow> u64 \<Rightarrow> u32) \<Rightarrow> (u32 \<Rightarrow> u32 \<Rightarrow> u32) \<Rightarrow> (u32 \<Rightarrow> u16 \<Rightarrow> u32) \<Rightarrow> (u32 \<Rightarrow> byte \<Rightarrow> u32)
   \<Rightarrow> u32 \<Rightarrow> bytes \<Rightarrow> u32" where
  "crc32c_hardware_update_arm crc32cd crc32cw crc32ch crc32cb crc data =
     (let (crc, data) = hw_loop 8 (\<lambda>crc d. crc32cd crc (get_u64 d 0)) crc data;
          (crc, data) = hw_loop 4 (\<lambda>crc d. crc32cw crc (get_u32 d 0)) crc data;
          (crc, data) = hw_loop 2 (\<lambda>crc d. crc32ch crc (get_u16 d 0)) crc data
      in if length data > 0 then crc32cb crc (data ! 0) else crc)"

text \<open>A build without the instructions: \<open>crc32c_update\<close> is the software update.\<close>

definition crc32c_update :: "u32 \<Rightarrow> bytes \<Rightarrow> u32" where
  "crc32c_update crc data = crc32c_software_update crc data"

definition crc32c :: "bytes \<Rightarrow> u32" where
  "crc32c data = NOT (crc32c_update kCrc32cInit data)"

definition crc32c_with_zeroed_checksum_field :: "bytes \<Rightarrow> u32" where
  "crc32c_with_zeroed_checksum_field data =
     (let kChecksumOffset = 20; kChecksumSize = 4;
          crc = kCrc32cInit;
          crc = (if length data \<ge> kChecksumOffset then crc32c_update crc (take kChecksumOffset data)
                 else crc);
          crc = (if length data > kChecksumOffset then
                   let crc = crc32c_update crc
                         (replicate (min kChecksumSize (length data - kChecksumOffset)) 0)
                   in if length data > kChecksumOffset + kChecksumSize
                      then crc32c_update crc (drop (kChecksumOffset + kChecksumSize) data) else crc
                 else crc)
      in NOT crc)"

section \<open>The bit-serial register\<close>

lemma crc_shift_bit:
  "bit (crc_shift crc) n \<longleftrightarrow> bit crc (Suc n) \<noteq> (bit crc 0 \<and> bit kCrc32cPoly n)"
proof (cases "bit crc 0")
  case True
  then have "crc AND 1 = 1" by (simp add: and_one_eq bit_0 odd_iff_mod_2_eq_one)
  then have "crc_shift crc = drop_bit 1 crc XOR kCrc32cPoly" by (simp add: crc_shift_def)
  with True show ?thesis by (simp add: bit_xor_iff bit_drop_bit_eq)
next
  case False
  then have "crc AND 1 = 0" by (simp add: and_one_eq bit_0 even_iff_mod_2_eq_zero)
  then have "crc_shift crc = drop_bit 1 crc" by (simp add: crc_shift_def)
  with False show ?thesis by (simp add: bit_drop_bit_eq)
qed

lemma crc_shift_xor: "crc_shift (a XOR b) = crc_shift a XOR crc_shift b"
  by (rule bit_word_eqI) (auto simp: crc_shift_bit bit_xor_iff)

lemma crc_bits_xor: "crc_bits n (a XOR b) = crc_bits n a XOR crc_bits n b"
  by (induction n arbitrary: a b) (simp_all add: crc_shift_xor)

lemma crc_bits_add: "crc_bits (m + n) a = crc_bits n (crc_bits m a)"
  by (induction m arbitrary: a) simp_all

lemma crc_shift_inj: "crc_shift a = crc_shift b \<Longrightarrow> a = b"
proof (rule bit_word_eqI)
  assume eq: "crc_shift a = crc_shift b"
  have top: "bit kCrc32cPoly 31" by (simp add: kCrc32cPoly_def)
  have out: "\<not> bit (w :: u32) 32" for w using bit_imp_le_length [of w 32] by auto
  have low: "bit a 0 = bit b 0"
    using arg_cong [OF eq, of "\<lambda>w. bit w 31"] top out [of a] out [of b]
    by (simp add: crc_shift_bit numeral_eq_Suc)
  fix n
  show "bit a n = bit b n"
  proof (cases n)
    case 0
    with low show ?thesis by simp
  next
    case (Suc m)
    with arg_cong [OF eq, of "\<lambda>w. bit w m"] low show ?thesis by (auto simp: crc_shift_bit)
  qed
qed

lemma crc_bits_inj: "crc_bits n a = crc_bits n b \<Longrightarrow> a = b"
  by (induction n arbitrary: a b) (auto dest: crc_shift_inj)

text \<open>A register whose low bits are zero is only shifted.\<close>

lemma crc_bits_drop: "(\<And>i. i < n \<Longrightarrow> \<not> bit a i) \<Longrightarrow> crc_bits n a = drop_bit n a"
proof (induction n arbitrary: a)
  case (Suc n)
  from Suc.prems [of 0] have "crc_shift a = drop_bit 1 a"
    by (intro bit_word_eqI) (simp add: crc_shift_bit bit_drop_bit_eq)
  moreover have "crc_bits n (drop_bit 1 a) = drop_bit n (drop_bit 1 a)"
    by (rule Suc.IH) (use Suc.prems in \<open>simp add: bit_drop_bit_eq\<close>)
  ultimately show ?case by (simp add: drop_bit_drop_bit)
qed simp


section \<open>The software update computes the register\<close>

lemma table_nth: "w < 256 \<Longrightarrow> make_crc32c_table ! unat (w :: u32) = crc_bits 8 w"
  by (simp add: make_crc32c_table_def word_less_nat_alt)

lemma crc32c_step_bitwise: "crc32c_step crc b = crc_bits 8 (crc XOR ucast b)"
proof -
  let ?x = "crc XOR ucast b :: u32"
  have m: "(0xFF :: u32) = mask 8" by (simp add: mask_eq_exp_minus_1)
  have low: "?x AND 0xFF = take_bit 8 ?x" by (simp only: m take_bit_eq_mask)
  have "unat (take_bit 8 ?x) < 256"
    unfolding unsigned_take_bit_eq by (simp add: take_bit_eq_mod)
  then have "take_bit 8 ?x < 256" by (simp add: word_less_nat_alt)
  then have tab: "make_crc32c_table ! unat (?x AND 0xFF) = crc_bits 8 (take_bit 8 ?x)"
    by (simp only: low) (rule table_nth)
  have split: "?x = take_bit 8 ?x XOR push_bit 8 (drop_bit 8 ?x)"
  proof (rule bit_word_eqI)
    fix n assume "n < LENGTH(32)"
    then show "bit ?x n = bit (take_bit 8 ?x XOR push_bit 8 (drop_bit 8 ?x)) n"
      by (cases "n < 8") (simp_all add: bit_simps)
  qed
  have "crc_bits 8 (push_bit 8 (drop_bit 8 ?x)) = drop_bit 8 (push_bit 8 (drop_bit 8 ?x))"
    by (rule crc_bits_drop) (simp add: bit_simps)
  also have "\<dots> = drop_bit 8 crc"
    by (rule bit_word_eqI) (auto simp: bit_simps dest: bit_imp_le_length)
  finally have high: "crc_bits 8 (push_bit 8 (drop_bit 8 ?x)) = drop_bit 8 crc" .
  have "crc_bits 8 ?x = crc_bits 8 (take_bit 8 ?x) XOR drop_bit 8 crc"
    by (subst split) (simp only: crc_bits_xor high)
  then show ?thesis by (simp only: crc32c_step_def tab)
qed

lemma software_update_simps [simp]:
  "crc32c_software_update crc [] = crc"
  "crc32c_software_update crc (b # data) = crc32c_software_update (crc32c_step crc b) data"
  by (simp_all add: crc32c_software_update_def)

lemma software_update_append:
  "crc32c_software_update crc (xs @ ys) = crc32c_software_update (crc32c_software_update crc xs) ys"
  by (simp add: crc32c_software_update_def)

text \<open>Up to four bytes are one operand of the register.\<close>

lemma software_update_chunk:
  assumes "length data \<le> 4"
  shows "crc32c_software_update crc data
           = crc_bits (8 * length data) (crc XOR get_le (length data) data 0)"
  using assms
proof (induction data rule: rev_induct)
  case (snoc b data)
  let ?n = "length data"
  let ?low = "get_le ?n data 0 :: u32" and ?high = "push_bit (8 * ?n) (ucast b) :: u32"
  have n: "?n \<le> 3" using snoc.prems by simp
  have word: "get_le (Suc ?n) (data @ [b]) 0 = ?low XOR ?high"
  proof -
    have same: "get_le ?n (data @ [b]) 0 = ?low" by (rule get_le_cong) (simp add: nth_append)
    have "?low AND ?high = 0"
      by (rule bit_word_eqI) (auto simp: bit_and_iff bit_get_le bit_push_bit_iff)
    then have "?low OR ?high = ?low XOR ?high"
      by (simp add: disjunctive_xor_eq_or)
    then show ?thesis by (simp add: get_le_Suc same mult.commute)
  qed
  have "crc_bits (8 * ?n) ?high = drop_bit (8 * ?n) ?high"
    by (rule crc_bits_drop) (simp add: bit_push_bit_iff)
  also have "\<dots> = ucast b"
    by (rule bit_word_eqI) (use n in \<open>auto simp: bit_simps dest: bit_imp_le_length\<close>)
  finally have high: "crc_bits (8 * ?n) ?high = ucast b" .
  have "crc32c_software_update crc (data @ [b])
      = crc_bits 8 (crc_bits (8 * ?n) (crc XOR ?low) XOR ucast b)"
    using snoc by (simp add: software_update_append crc32c_step_bitwise)
  also have "\<dots> = crc_bits 8 (crc_bits (8 * ?n) (crc XOR ?low XOR ?high))"
    by (simp only: crc_bits_xor high xor.assoc)
  also have "\<dots> = crc_bits (8 * length (data @ [b])) (crc XOR get_le (length (data @ [b])) (data @ [b]) 0)"
    using crc_bits_add [of "8 * ?n" 8] word by (simp add: xor.assoc add.commute)
  finally show ?case .
qed simp

lemma software_update_8:
  assumes "length data = 8"
  shows "crc32c_software_update crc data
    = crc_bits 32 (crc_bits 32 (crc XOR get_le 4 data 0) XOR get_le 4 data 4)"
proof -
  have "crc32c_software_update crc (take 4 data @ drop 4 data)
      = crc_bits 32 (crc_bits 32 (crc XOR get_le 4 (take 4 data) 0) XOR get_le 4 (drop 4 data) 0)"
    using assms by (simp only: software_update_append) (simp add: software_update_chunk)
  moreover have "get_le 4 (take 4 data) 0 = (get_le 4 data 0 :: u32)"
    and "get_le 4 (drop 4 data) 0 = (get_le 4 data 4 :: u32)"
    using assms by (auto intro!: get_le_cong)
  ultimately show ?thesis by simp
qed

lemma software_update_inj:
  "crc32c_software_update a data = crc32c_software_update b data \<Longrightarrow> a = b"
proof (induction data arbitrary: a b)
  case (Cons x data)
  then have "crc_bits 8 (a XOR ucast x) = crc_bits 8 (b XOR ucast x)"
    by (simp add: crc32c_step_bitwise)
  then have eq: "a XOR ucast x = b XOR ucast x" by (rule crc_bits_inj)
  have "(a XOR ucast x) XOR ucast x = (b XOR ucast x) XOR ucast x" by (simp only: eq)
  then show ?case by (simp add: xor.assoc)
qed simp

section \<open>Detection\<close>

lemma crc32c_burst_neq:
  assumes "length d = length d'" "length d \<le> 4" "d \<noteq> d'"
  shows "crc32c (pre @ d @ post) \<noteq> crc32c (pre @ d' @ post)"
proof
  let ?n = "length d" and ?c = "crc32c_software_update kCrc32cInit pre"
  assume "crc32c (pre @ d @ post) = crc32c (pre @ d' @ post)"
  then have "NOT (NOT (crc32c_update kCrc32cInit (pre @ d @ post)))
      = NOT (NOT (crc32c_update kCrc32cInit (pre @ d' @ post)))"
    by (simp only: crc32c_def)
  then have "crc32c_software_update (crc32c_software_update ?c d) post
      = crc32c_software_update (crc32c_software_update ?c d') post"
    by (simp add: crc32c_update_def software_update_append)
  then have "crc32c_software_update ?c d = crc32c_software_update ?c d'"
    by (rule software_update_inj)
  then have "crc_bits (8 * ?n) (?c XOR get_le ?n d 0) = crc_bits (8 * ?n) (?c XOR get_le ?n d' 0)"
    using assms by (simp add: software_update_chunk)
  then have eq: "?c XOR get_le ?n d 0 = ?c XOR get_le ?n d' 0" by (rule crc_bits_inj)
  have "?c XOR (?c XOR get_le ?n d 0) = ?c XOR (?c XOR get_le ?n d' 0)" by (simp only: eq)
  then have word: "get_le ?n d 0 = (get_le ?n d' 0 :: u32)" by (simp add: xor.assoc [symmetric])
  have "d = d'"
  proof (rule nth_equalityI [OF assms(1)])
    fix i assume "i < length d"
    then have "d ! (0 + i) = d' ! (0 + i)"
      by (intro get_le_inj [OF word]) (use assms(2) in simp_all)
    then show "d ! i = d' ! i" by simp
  qed
  then show False using assms(3) by simp
qed

text \<open>
  C13.  CRC-32C, as the code computes it, detects every error burst of up to 32 bits: replacing
  at most four consecutive bytes of a message by different ones always changes the checksum.
\<close>

theorem crc32c_detects_bursts:
  assumes "length d = length d'" "length d \<le> 4" "d \<noteq> d'"
  shows "crc32c (pre @ d @ post) \<noteq> crc32c (pre @ d' @ post)"
  using assms by (rule crc32c_burst_neq)

theorem crc32c_detects_bursts_witness:
  "crc32c ([1, 2] @ [3, 4] @ [5]) \<noteq> crc32c ([1, 2] @ [0, 9] @ [5])"
  by (rule crc32c_detects_bursts) simp_all

lemma crc32c_update_neq:
  assumes "i < length data" "b \<noteq> data ! i"
  shows "crc32c (data[i := b]) \<noteq> crc32c data"
proof -
  have upd: "data[i := b] = take i data @ [b] @ drop (Suc i) data"
    using assms(1) by (simp add: upd_conv_take_nth_drop)
  have "crc32c (take i data @ [b] @ drop (Suc i) data)
      \<noteq> crc32c (take i data @ [data ! i] @ drop (Suc i) data)"
    by (rule crc32c_burst_neq) (use assms(2) in simp_all)
  moreover have "take i data @ [data ! i] @ drop (Suc i) data = data"
    using assms(1) by (simp add: id_take_nth_drop [symmetric])
  ultimately show ?thesis by (simp only: upd) simp
qed

section \<open>The hardware updates\<close>

lemma hw_loop_update:
  assumes "0 < w" "\<And>crc d. length d = w \<Longrightarrow> ins crc d = crc32c_software_update crc d"
    and "hw_loop w ins crc data = (crc', rest)"
  shows "crc32c_software_update crc data = crc32c_software_update crc' rest \<and> length rest < w"
  using assms
proof (induction w ins crc data rule: hw_loop.induct)
  case (1 w ins crc data)
  show ?case
  proof (cases "w \<le> length data")
    case True
    then have loop: "hw_loop w ins (ins crc (take w data)) (drop w data) = (crc', rest)"
      using 1(2,4) by (simp add: hw_loop.simps [of w ins crc data])
    have "crc32c_software_update (ins crc (take w data)) (drop w data)
        = crc32c_software_update crc' rest \<and> length rest < w"
      by (rule 1(1)) (use True 1(2) in simp, rule 1(2), rule 1(3), simp, rule loop)
    moreover have "crc32c_software_update crc data
        = crc32c_software_update (crc32c_software_update crc (take w data)) (drop w data)"
      by (simp add: software_update_append [symmetric])
    ultimately show ?thesis using 1(3) True by simp
  next
    case False
    then show ?thesis using 1(2,4) by (simp add: hw_loop.simps [of w ins crc data] not_le)
  qed
qed

lemma get_u64_halves:
  "ucast (get_u64 d 0) = (get_le 4 d 0 :: u32)"
  "ucast (drop_bit 32 (get_u64 d 0)) = (get_le 4 d 4 :: u32)"
proof -
  show "ucast (get_u64 d 0) = (get_le 4 d 0 :: u32)"
    by (rule bit_word_eqI) (auto simp: le_defs bit_ucast_iff bit_get_le)
  show "ucast (drop_bit 32 (get_u64 d 0)) = (get_le 4 d 4 :: u32)"
    by (rule bit_word_eqI)
      (auto simp: le_defs bit_ucast_iff bit_drop_bit_eq bit_get_le div_add1_eq mod_add_left_eq [of 32 8, symmetric])
qed

lemma single_byte: "length d = 1 \<Longrightarrow> d = [d ! 0]"
  by (cases d) simp_all

text \<open>
  C12.  The SSE4.2 and the ARM builds compute the software checksum.  The hypotheses are the
  documented meaning of the instructions: each feeds its operand, least significant bit
  first, to the reflected CRC-32C register; the 64-bit forms feed the low half first.
\<close>

theorem crc32c_hardware_equals_software:
  assumes u8: "\<And>crc b. u8 crc b = crc_bits 8 (crc XOR ucast b)"
    and u16: "\<And>crc w. u16 crc w = crc_bits 16 (crc XOR ucast w)"
    and u32: "\<And>crc w. u32 crc w = crc_bits 32 (crc XOR w)"
    and u64: "\<And>crc w. u64 crc w
               = crc_bits 32 (crc_bits 32 (crc XOR ucast w) XOR ucast (drop_bit 32 w))"
  shows "crc32c_hardware_update_sse (\<lambda>crc w. ucast (u64 crc w)) u32 u8 crc data
           = crc32c_software_update crc data
       \<and> crc32c_hardware_update_arm u64 u32 u16 u8 crc data = crc32c_software_update crc data"
proof -
  have i8: "length d = 1 \<Longrightarrow> u8 c (d ! 0) = crc32c_software_update c d" for c d
    using single_byte [of d] by (metis crc32c_step_bitwise software_update_simps u8)
  have i16: "length d = 2 \<Longrightarrow> u16 c (get_u16 d 0) = crc32c_software_update c d" for c d
  proof -
    assume "length d = 2"
    moreover have "ucast (get_u16 d 0) = (get_le 2 d 0 :: 32 word)"
      by (rule bit_word_eqI) (auto simp: le_defs bit_ucast_iff bit_get_le)
    ultimately show ?thesis by (simp add: u16 software_update_chunk)
  qed
  have i32: "length d = 4 \<Longrightarrow> u32 c (get_u32 d 0) = crc32c_software_update c d" for c d
    by (simp add: u32 software_update_chunk le_defs)
  have i64: "length d = 8 \<Longrightarrow> u64 c (get_u64 d 0) = crc32c_software_update c d" for c d
    by (simp add: u64 software_update_8 get_u64_halves)
  have up: "ucast (ucast (c :: 32 word) :: 64 word) = c" for c
    by (rule bit_word_eqI) (auto simp: bit_ucast_iff)
  obtain c1 r1 where l1: "hw_loop 8 (\<lambda>crc d. u64 crc (get_u64 d 0)) crc data = (c1, r1)"
    by (cases "hw_loop 8 (\<lambda>crc d. u64 crc (get_u64 d 0)) crc data")
  obtain c2 r2 where l2: "hw_loop 4 (\<lambda>crc d. u32 crc (get_u32 d 0)) c1 r1 = (c2, r2)"
    by (cases "hw_loop 4 (\<lambda>crc d. u32 crc (get_u32 d 0)) c1 r1")
  obtain c3 r3 where l3: "hw_loop 1 (\<lambda>crc d. u8 crc (d ! 0)) c2 r2 = (c3, r3)"
    by (cases "hw_loop 1 (\<lambda>crc d. u8 crc (d ! 0)) c2 r2")
  obtain c4 r4 where l4: "hw_loop 2 (\<lambda>crc d. u16 crc (get_u16 d 0)) c2 r2 = (c4, r4)"
    by (cases "hw_loop 2 (\<lambda>crc d. u16 crc (get_u16 d 0)) c2 r2")
  have s1: "crc32c_software_update crc data = crc32c_software_update c1 r1"
    using hw_loop_update [OF _ i64 l1] by simp
  have s2: "crc32c_software_update c1 r1 = crc32c_software_update c2 r2"
    using hw_loop_update [OF _ i32 l2] by simp
  have s3: "crc32c_software_update c2 r2 = c3"
    using hw_loop_update [OF _ i8 l3] by simp
  have s4: "crc32c_software_update c2 r2 = crc32c_software_update c4 r4 \<and> length r4 < 2"
    using hw_loop_update [OF _ i16 l4] by simp
  have tail: "(if length r4 > 0 then u8 c4 (r4 ! 0) else c4) = crc32c_software_update c4 r4"
    using s4 i8 [of r4 c4] by (cases r4) auto
  show ?thesis
    using s1 s2 s3 s4 tail
    by (simp add: crc32c_hardware_update_sse_def crc32c_hardware_update_arm_def up l1 l2
        l3 [unfolded One_nat_def] l4)
qed

theorem crc32c_hardware_equals_software_witness:
  "crc32c_hardware_update_arm
     (\<lambda>crc w. crc_bits 32 (crc_bits 32 (crc XOR ucast w) XOR ucast (drop_bit 32 w)))
     (\<lambda>crc w. crc_bits 32 (crc XOR w)) (\<lambda>crc w. crc_bits 16 (crc XOR ucast w))
     (\<lambda>crc b. crc_bits 8 (crc XOR ucast b)) kCrc32cInit [1, 2, 3]
   = crc32c_software_update kCrc32cInit [1, 2, 3]"
  using crc32c_hardware_equals_software
    [of "\<lambda>crc b. crc_bits 8 (crc XOR ucast b)" "\<lambda>crc w. crc_bits 16 (crc XOR ucast w)"
        "\<lambda>crc w. crc_bits 32 (crc XOR w)"
        "\<lambda>crc w. crc_bits 32 (crc_bits 32 (crc XOR ucast w) XOR ucast (drop_bit 32 w))"
        kCrc32cInit "[1, 2, 3]"]
  by blast

section \<open>The zeroed checksum field\<close>

text \<open>The checksum over a record of at least 24 bytes is the CRC of the record with field 20..23 zeroed.\<close>

lemma crc32c_zeroed_field:
  assumes "24 \<le> length data"
  shows "crc32c_with_zeroed_checksum_field data = crc32c (blit data 20 (replicate 4 0))"
proof -
  let ?u = "crc32c_software_update"
  have sizes: "min 4 (length data - 20) = 4" "20 \<le> length data" "20 < length data"
    using assms by simp_all
  have "crc32c_with_zeroed_checksum_field data
      = NOT (?u (?u (?u kCrc32cInit (take 20 data)) (replicate 4 0)) (drop 24 data))"
    unfolding crc32c_with_zeroed_checksum_field_def Let_def crc32c_update_def sizes(1)
    using sizes(2,3) by simp
  then show ?thesis
    by (simp add: crc32c_def crc32c_update_def blit_def software_update_append)
qed

end
