(* ===== verification/Codec.thy ===== *)
theory Codec
  imports Glifi_Prelude
begin

text \<open>
  The contracts of the program's binary formats.  A \<open>codec\<close> reads back what it wrote.  A
  \<open>framed_codec\<close> also does so with more bytes behind the encoding, accepts nothing but
  encodings, and knows the extent of what it read: that is what lets records be appended one
  behind another and found again by a scan.
\<close>

locale codec =
  fixes encode :: "'a \<Rightarrow> bytes result" and decode :: "bytes \<Rightarrow> 'v result" and view :: "'a \<Rightarrow> 'v"
  assumes decode_encode: "encode x = Inr bs \<Longrightarrow> decode bs = Inr (view x)"
begin

lemma encode_view_unique: "encode x = Inr bs \<Longrightarrow> encode y = Inr bs \<Longrightarrow> view x = view y"
  using decode_encode [of x bs] decode_encode [of y bs] by simp

end

locale canonical_codec = codec encode decode view
  for encode :: "'a \<Rightarrow> bytes result" and decode :: "bytes \<Rightarrow> 'v result" and view :: "'a \<Rightarrow> 'v" +
  assumes canonical: "decode bs = Inr v \<Longrightarrow> \<exists>x. v = view x \<and> encode x = Inr bs"
    and view_inj: "view x = view y \<Longrightarrow> x = y"
begin

lemma decode_iff_encode: "decode bs = Inr (view x) \<longleftrightarrow> encode x = Inr bs"
  using canonical decode_encode view_inj by blast

lemma decode_unique: "decode a = Inr v \<Longrightarrow> decode b = Inr v \<Longrightarrow> a = b"
  using canonical decode_iff_encode by (metis sum.inject(2))

end

locale framed_codec =
  fixes encode :: "'a \<Rightarrow> bytes result" and decode :: "bytes \<Rightarrow> 'v result" and view :: "'a \<Rightarrow> 'v"
    and extent :: "'v \<Rightarrow> nat"
  assumes frame: "encode x = Inr bs \<Longrightarrow> decode (bs @ rest) = Inr (view x)"
    and extent_encode: "encode x = Inr bs \<Longrightarrow> extent (view x) = length bs"
    and extent_pos: "encode x = Inr bs \<Longrightarrow> bs \<noteq> []"
    and framed_canonical: "decode bs = Inr v \<Longrightarrow>
          extent v \<le> length bs \<and> (\<exists>x. v = view x \<and> encode x = Inr (take (extent v) bs))"
    and framed_view_inj: "view x = view y \<Longrightarrow> x = y"
begin

lemma prefix_free:
  assumes "encode x = Inr a" "encode y = Inr b" "a @ r = b @ s"
  shows "x = y \<and> a = b \<and> r = s"
proof -
  have "view x = view y"
    using frame [OF assms(1), of r] frame [OF assms(2), of s] assms(3) by simp
  then have "x = y" by (rule framed_view_inj)
  with assms show ?thesis by simp
qed

text \<open>A concatenation of encodings has one reading.\<close>

lemma stream_unique:
  assumes "list_all2 (\<lambda>x b. encode x = Inr b) xs as" "list_all2 (\<lambda>y b. encode y = Inr b) ys bs"
    and "concat as = concat bs"
  shows "xs = ys"
  using assms
proof (induction xs as arbitrary: ys bs rule: list_all2_induct)
  case Nil
  then show ?case using extent_pos by (cases ys) (auto simp: list_all2_Cons1)
next
  case (Cons x xs a as)
  from Cons.prems Cons.hyps(1) extent_pos obtain y ys' b bs'
    where ys: "ys = y # ys'" "bs = b # bs'" "encode y = Inr b"
      "list_all2 (\<lambda>y b. encode y = Inr b) ys' bs'"
    by (cases ys) (auto simp: list_all2_Cons1)
  have "x = y \<and> a = b \<and> concat as = concat bs'"
    by (rule prefix_free [OF Cons.hyps(1) ys(3)]) (use Cons.prems ys in simp)
  with Cons.IH ys show ?case by simp
qed

end

sublocale framed_codec \<subseteq> framed: codec encode decode view
  by unfold_locales (use frame [where rest = "[]"] in simp)

end
