(* ===== verification/Record_Codec.thy ===== *)
theory Record_Codec
  imports Checked_Math Little_Endian Crc32c Codec
begin

text \<open>
  The record format: \<open>src/include/glifistore/segment/record.hpp\<close> and
  \<open>src/src/segment/record.cpp\<close>.  A record is a 56-byte header, the key, the value and zero
  padding up to a multiple of eight bytes.  An enumerator the code builds by casting a raw
  16-bit value is that value.  Spans are the bytes they show.  The buffer an encoder writes
  is passed in and returned; bytes behind the encoded extent stay as they were.

  The lemmas relate both directions through \<open>record_layout\<close>, the declarative description of
  the format: the encoder establishes it, the decoder checks it, and it fixes every byte.
\<close>

section \<open>Types and constants\<close>

definition kMaxNormalRecordSize :: nat where
  "kMaxNormalRecordSize = 1 * 1024 * 1024"

definition kRecordAlignment :: nat where
  "kRecordAlignment = 8"

definition opcode_put :: u16 where "opcode_put = 1"
definition opcode_erase :: u16 where "opcode_erase = 2"

definition type_bytes :: u16 where "type_bytes = 1"
definition type_lease :: u16 where "type_lease = 4"

record record_input =
  ri_sequence :: u64
  ri_opcode :: u16
  ri_type :: u16
  ri_flags :: u32
  ri_key_hash :: u64
  ri_expire_at_ns :: u64
  ri_key :: bytes
  ri_value :: bytes

record record_view =
  rv_sequence :: u64
  rv_opcode :: u16
  rv_type :: u16
  rv_flags :: u32
  rv_key_hash :: u64
  rv_expire_at_ns :: u64
  rv_key :: bytes
  rv_value :: bytes
  rv_encoded_size :: u32

definition kRecordMagic :: u32 where "kRecordMagic = 0x52594C47"
definition kRecordFormatVersion :: u16 where "kRecordFormatVersion = 1"
definition kEncodedRecordHeaderSize :: nat where "kEncodedRecordHeaderSize = 56"

lemmas record_consts = kMaxNormalRecordSize_def kRecordAlignment_def kEncodedRecordHeaderSize_def
lemmas record_enums = opcode_put_def opcode_erase_def type_bytes_def type_lease_def

section \<open>Operations\<close>

definition validate_record_input :: "record_input \<Rightarrow> status" where
  "validate_record_input inp =
     (if ri_opcode inp \<noteq> opcode_put \<and> ri_opcode inp \<noteq> opcode_erase then fail Invalid_argument
      else if ri_type inp < type_bytes \<or> ri_type inp > type_lease then fail Invalid_argument
      else if length (ri_key inp) > 0xFFFFFFFF \<or> length (ri_value inp) > 0xFFFFFFFF
      then fail Record_too_large
      else ok)"

definition compute_encoded_size :: "record_input \<Rightarrow> nat result" where
  "compute_encoded_size inp =
     bind_result (validate_record_input inp) (\<lambda>_.
     bind_result (checked_add (of_nat kEncodedRecordHeaderSize :: u64) (of_nat (length (ri_key inp)))) (\<lambda>raw.
     bind_result (checked_add raw (of_nat (length (ri_value inp)))) (\<lambda>raw.
     (case align_up_checked raw (of_nat kRecordAlignment) of
        Inl _ \<Rightarrow> fail Record_too_large
      | Inr aligned \<Rightarrow>
          if unat aligned > kMaxNormalRecordSize \<or> unat aligned > 0xFFFFFFFF
          then fail Record_too_large else Inr (unat aligned)))))"

definition expired :: "record_view \<Rightarrow> u64 \<Rightarrow> bool" where
  "expired v now_ns \<longleftrightarrow> rv_expire_at_ns v \<noteq> 0 \<and> now_ns \<noteq> 0 \<and> rv_expire_at_ns v \<le> now_ns"

definition encoded_record_size :: "record_input \<Rightarrow> nat result" where
  "encoded_record_size inp = compute_encoded_size inp"

text \<open>The stores of \<open>encode_record\<close> into \<open>out.first(encoded_size)\<close>, in program order.\<close>

definition write_record :: "bytes \<Rightarrow> record_input \<Rightarrow> nat \<Rightarrow> bytes" where
  "write_record encoded inp encoded_size =
     (let key = ri_key inp; val = ri_value inp;
          encoded = put_u32 encoded 0 kRecordMagic;
          encoded = put_u16 encoded 4 kRecordFormatVersion;
          encoded = put_u16 encoded 6 (of_nat kEncodedRecordHeaderSize);
          encoded = put_u32 encoded 8 (of_nat encoded_size);
          encoded = put_u32 encoded 12 (of_nat (length key));
          encoded = put_u32 encoded 16 (of_nat (length val));
          encoded = put_u32 encoded 20 0;
          encoded = put_u64 encoded 24 (ri_sequence inp);
          encoded = put_u64 encoded 32 (ri_key_hash inp);
          encoded = put_u64 encoded 40 (ri_expire_at_ns inp);
          encoded = put_u16 encoded 48 (ri_opcode inp);
          encoded = put_u16 encoded 50 (ri_type inp);
          encoded = put_u32 encoded 52 (ri_flags inp);
          encoded = (if key \<noteq> [] then blit encoded kEncodedRecordHeaderSize key else encoded);
          encoded = (if val \<noteq> [] then blit encoded (kEncodedRecordHeaderSize + length key) val
                     else encoded);
          payload_end = kEncodedRecordHeaderSize + length key + length val;
          encoded = (if payload_end < encoded_size
                     then blit encoded payload_end (replicate (encoded_size - payload_end) 0)
                     else encoded)
      in put_u32 encoded 20 (crc32c_with_zeroed_checksum_field encoded))"

text \<open>\<open>debug\<close> is the build without \<open>NDEBUG\<close>, which repeats the size computation.\<close>

definition encode_record_sized :: "bool \<Rightarrow> bytes \<Rightarrow> record_input \<Rightarrow> nat \<Rightarrow> bytes \<times> status" where
  "encode_record_sized debug out inp encoded_size =
     (case validate_record_input inp of
        Inl e \<Rightarrow> (out, Inl e)
      | Inr _ \<Rightarrow>
          let minimum = kEncodedRecordHeaderSize + length (ri_key inp) + length (ri_value inp) in
          if encoded_size < minimum \<or> encoded_size mod kRecordAlignment \<noteq> 0
             \<or> length out < encoded_size \<or> encoded_size > kMaxNormalRecordSize
          then (out, fail Invalid_argument)
          else
            (case (if debug then compute_encoded_size inp else Inr encoded_size) of
               Inl e \<Rightarrow> (out, Inl e)
             | Inr checked \<Rightarrow>
                 if checked \<noteq> encoded_size then (out, fail Invalid_argument)
                 else (write_record (take encoded_size out) inp encoded_size @ drop encoded_size out,
                       ok)))"

definition encode_record_into :: "bool \<Rightarrow> bytes \<Rightarrow> record_input \<Rightarrow> bytes \<times> status" where
  "encode_record_into debug out inp =
     (case compute_encoded_size inp of
        Inl e \<Rightarrow> (out, Inl e)
      | Inr sz \<Rightarrow> encode_record_sized debug out inp sz)"

definition encode_record :: "bool \<Rightarrow> record_input \<Rightarrow> bytes result" where
  "encode_record debug inp =
     bind_result (compute_encoded_size inp) (\<lambda>sz.
       (case encode_record_sized debug (replicate sz 0) inp sz of
          (_, Inl e) \<Rightarrow> Inl e
        | (bytes, Inr _) \<Rightarrow> Inr bytes))"

definition decode_record :: "bytes \<Rightarrow> bool \<Rightarrow> record_view result" where
  "decode_record bytes verify_checksum =
     (if length bytes < kEncodedRecordHeaderSize then fail Invalid_record
      else if get_u32 bytes 0 \<noteq> kRecordMagic \<or> get_u16 bytes 4 \<noteq> kRecordFormatVersion
              \<or> get_u16 bytes 6 \<noteq> of_nat kEncodedRecordHeaderSize
      then fail Invalid_record
      else
        let total_size = get_u32 bytes 8; key_size = get_u32 bytes 12; value_size = get_u32 bytes 16 in
        if unat total_size < kEncodedRecordHeaderSize \<or> unat total_size > length bytes
           \<or> unat total_size > kMaxNormalRecordSize \<or> unat total_size mod kRecordAlignment \<noteq> 0
        then fail Invalid_record
        else
          (case checked_add (ucast key_size :: u64) (ucast value_size) of
             Inl _ \<Rightarrow> fail Invalid_record
           | Inr payload_size \<Rightarrow>
          (case checked_add (of_nat kEncodedRecordHeaderSize) payload_size of
             Inl _ \<Rightarrow> fail Invalid_record
           | Inr raw_size \<Rightarrow>
          (case align_up_checked raw_size (of_nat kRecordAlignment) of
             Inl _ \<Rightarrow> fail Invalid_record
           | Inr expected_size \<Rightarrow>
               if expected_size \<noteq> ucast total_size then fail Invalid_record
               else
                 let encoded = take (unat total_size) bytes in
                 if verify_checksum \<and> get_u32 bytes 20 \<noteq> crc32c_with_zeroed_checksum_field encoded
                 then fail Checksum_mismatch
                 else
                   let opcode_raw = get_u16 bytes 48 in
                   if opcode_raw \<noteq> opcode_put \<and> opcode_raw \<noteq> opcode_erase then fail Invalid_record
                   else
                     let type_raw = get_u16 bytes 50 in
                     if type_raw < type_bytes \<or> type_raw > type_lease then fail Invalid_record
                     else
                       let key_begin = kEncodedRecordHeaderSize;
                           payload_end = key_begin + unat payload_size in
                       if \<not> list_all (\<lambda>b. b = 0) (drop payload_end encoded) then fail Invalid_record
                       else Inr \<lparr> rv_sequence = get_u64 bytes 24,
                                  rv_opcode = opcode_raw,
                                  rv_type = type_raw,
                                  rv_flags = get_u32 bytes 52,
                                  rv_key_hash = get_u64 bytes 32,
                                  rv_expire_at_ns = get_u64 bytes 40,
                                  rv_key = sub encoded key_begin (unat key_size),
                                  rv_value = sub encoded (key_begin + unat key_size) (unat value_size),
                                  rv_encoded_size = total_size \<rparr>))))"

section \<open>The size of a record\<close>

definition record_extent :: "nat \<Rightarrow> nat \<Rightarrow> nat" where
  "record_extent k v = (56 + k + v + 7) div 8 * 8"

lemma record_extent_bounds:
  "56 + k + v \<le> record_extent k v" "record_extent k v < 64 + k + v" "record_extent k v mod 8 = 0"
  unfolding record_extent_def by (linarith, linarith, simp)

lemma sizes_fit:
  assumes "k \<le> 0xFFFFFFFF" "v \<le> 0xFFFFFFFF"
  shows "checked_add (56 :: u64) (of_nat k) = Inr (of_nat (56 + k))"
    and "checked_add (of_nat (56 + k) :: u64) (of_nat v) = Inr (of_nat (56 + k + v))"
    and "align_up_checked (of_nat (56 + k + v) :: u64) 8 = Inr (of_nat (record_extent k v))"
    and "unat (of_nat (record_extent k v) :: u64) = record_extent k v"
proof -
  have small: "unat (of_nat n :: u64) = n" if "n \<le> 0x3FFFFFFFF" for n
    by (rule unat_of_nat_64) (use that in linarith)
  have s: "unat (of_nat k :: u64) = k" "unat (of_nat v :: u64) = v"
    "unat (of_nat (56 + k) :: u64) = 56 + k" "unat (of_nat (56 + k + v) :: u64) = 56 + k + v"
    using assms by (intro small; linarith)+
  show "checked_add (56 :: u64) (of_nat k) = Inr (of_nat (56 + k))"
    unfolding checked_add_Inr_iff s by simp
  show "checked_add (of_nat (56 + k) :: u64) (of_nat v) = Inr (of_nat (56 + k + v))"
    unfolding checked_add_Inr_iff s by simp
  show "align_up_checked (of_nat (56 + k + v) :: u64) 8 = Inr (of_nat (record_extent k v))"
  proof -
    have "unat (of_nat (56 + k + v) :: u64) + 7 < 2 ^ 64" unfolding s using assms by simp
    from align_up_8 [OF this] show ?thesis unfolding s record_extent_def .
  qed
  show "unat (of_nat (record_extent k v) :: u64) = record_extent k v"
    by (rule small) (use assms record_extent_bounds(2) [of k v] in linarith)
qed

lemma validate_record_input_ok [result_simps]:
  "validate_record_input i = Inr u \<longleftrightarrow>
     (ri_opcode i = opcode_put \<or> ri_opcode i = opcode_erase) \<and> type_bytes \<le> ri_type i
     \<and> ri_type i \<le> type_lease \<and> length (ri_key i) \<le> 0xFFFFFFFF \<and> length (ri_value i) \<le> 0xFFFFFFFF"
  by (auto simp: validate_record_input_def not_less)

lemma compute_encoded_size_Inr [result_simps]:
  "compute_encoded_size i = Inr n \<longleftrightarrow>
     validate_record_input i = ok \<and> n = record_extent (length (ri_key i)) (length (ri_value i))
     \<and> n \<le> kMaxNormalRecordSize"
proof (cases "validate_record_input i")
  case (Inr u)
  then have "length (ri_key i) \<le> 0xFFFFFFFF" "length (ri_value i) \<le> 0xFFFFFFFF"
    by (simp_all add: result_simps)
  note fit = sizes_fit [OF this]
  show ?thesis
    using Inr by (auto simp: compute_encoded_size_def record_consts fit simp del: of_nat_add)
qed (simp add: compute_encoded_size_def)

section \<open>The layout of an encoded record\<close>

definition record_layout :: "bytes \<Rightarrow> record_input \<Rightarrow> bool" where
  "record_layout e i \<longleftrightarrow>
     (let k = length (ri_key i); v = length (ri_value i) in
        length e = record_extent k v
      \<and> get_u32 e 0 = kRecordMagic \<and> get_u16 e 4 = kRecordFormatVersion \<and> get_u16 e 6 = 56
      \<and> get_u32 e 8 = of_nat (record_extent k v) \<and> get_u32 e 12 = of_nat k \<and> get_u32 e 16 = of_nat v
      \<and> get_u32 e 20 = crc32c_with_zeroed_checksum_field e
      \<and> get_u64 e 24 = ri_sequence i \<and> get_u64 e 32 = ri_key_hash i \<and> get_u64 e 40 = ri_expire_at_ns i
      \<and> get_u16 e 48 = ri_opcode i \<and> get_u16 e 50 = ri_type i \<and> get_u32 e 52 = ri_flags i
      \<and> sub e 56 k = ri_key i \<and> sub e (56 + k) v = ri_value i
      \<and> (\<forall>j. 56 + k + v \<le> j \<and> j < length e \<longrightarrow> e ! j = 0))"

lemma zeroed_put_checksum:
  "24 \<le> length e \<Longrightarrow>
   crc32c_with_zeroed_checksum_field (put_u32 e 20 w) = crc32c_with_zeroed_checksum_field e"
  by (simp add: crc32c_zeroed_field le_defs blit_put_le)

text \<open>The three \<open>memcpy\<close>/\<open>memset\<close> calls write the payload area and nothing before it.\<close>

lemma payload_writes:
  fixes key val :: bytes
  assumes "56 + length key + length val \<le> n" "length e = n"
  defines "p \<equiv> 56 + length key + length val"
  defines "e' \<equiv> blit (blit (blit e 56 key) (56 + length key) val) p (replicate (n - p) 0)"
  shows "length e' = n" "j < 56 \<Longrightarrow> e' ! j = e ! j"
    "sub e' 56 (length key) = key" "sub e' (56 + length key) (length val) = val"
    "p \<le> j \<Longrightarrow> j < n \<Longrightarrow> e' ! j = 0"
  using assms
  by (simp_all add: sub_blit sub_blit_frame nth_blit)

definition write_header :: "bytes \<Rightarrow> record_input \<Rightarrow> nat \<Rightarrow> bytes" where
  "write_header e i n =
     put_le 4 (put_le 2 (put_le 2 (put_le 8 (put_le 8 (put_le 8 (put_le 4 (put_le 4 (put_le 4
       (put_le 4 (put_le 2 (put_le 2 (put_le 4 e 0 kRecordMagic) 4 kRecordFormatVersion) 6 (56 :: u16))
         8 (of_nat n :: u32)) 12 (of_nat (length (ri_key i)) :: u32))
         16 (of_nat (length (ri_value i)) :: u32)) 20 (0 :: u32)) 24 (ri_sequence i))
         32 (ri_key_hash i)) 40 (ri_expire_at_ns i)) 48 (ri_opcode i)) 50 (ri_type i)) 52 (ri_flags i)"

lemma length_write_header [simp]: "length (write_header e i n) = length e"
  by (simp add: write_header_def)

lemma get_write_header:
  assumes "56 \<le> length e"
  shows "get_le 4 (write_header e i n) 0 = kRecordMagic"
    "get_le 2 (write_header e i n) 4 = kRecordFormatVersion"
    "get_le 2 (write_header e i n) 6 = (56 :: u16)"
    "get_le 4 (write_header e i n) 8 = (of_nat n :: u32)"
    "get_le 4 (write_header e i n) 12 = (of_nat (length (ri_key i)) :: u32)"
    "get_le 4 (write_header e i n) 16 = (of_nat (length (ri_value i)) :: u32)"
    "get_le 8 (write_header e i n) 24 = ri_sequence i"
    "get_le 8 (write_header e i n) 32 = ri_key_hash i"
    "get_le 8 (write_header e i n) 40 = ri_expire_at_ns i"
    "get_le 2 (write_header e i n) 48 = ri_opcode i"
    "get_le 2 (write_header e i n) 50 = ri_type i"
    "get_le 4 (write_header e i n) 52 = ri_flags i"
  using assms by (simp_all add: write_header_def get_put_le_frame get_put_le)

definition write_payload :: "bytes \<Rightarrow> record_input \<Rightarrow> nat \<Rightarrow> bytes" where
  "write_payload e i n =
     (let key = ri_key i; val = ri_value i; p = 56 + length key + length val in
      blit (blit (blit e 56 key) (56 + length key) val) p (replicate (n - p) 0))"

lemma write_record_phases:
  assumes "56 + length (ri_key i) + length (ri_value i) \<le> n"
  shows "write_record e i n =
    (let e' = write_payload (write_header e i n) i n
     in put_u32 e' 20 (crc32c_with_zeroed_checksum_field e'))"
proof -
  have "n - p = 0" if "\<not> p < n" for p :: nat using that by simp
  then show ?thesis
    using assms
    by (simp add: write_record_def write_payload_def write_header_def Let_def record_consts le_defs
        del: append_eq_conv_conj)
qed

lemma write_record_layout:
  assumes n: "n = record_extent (length (ri_key i)) (length (ri_value i))" and e: "length e = n"
  shows "record_layout (write_record e i n) i"
proof -
  have min: "56 + length (ri_key i) + length (ri_value i) \<le> n"
    unfolding n by (rule record_extent_bounds)
  define h where "h = write_header e i n"
  define e' where "e' = write_payload h i n"
  have lh: "length h = n" by (simp add: h_def e)
  note pay = payload_writes [OF min lh, folded write_payload_def [unfolded Let_def], folded e'_def]
  let ?w = "put_le 4 e' 20 (crc32c_with_zeroed_checksum_field e')"
  have w: "write_record e i n = ?w"
    by (simp add: write_record_phases [OF min] Let_def e'_def h_def le_defs)
  have fld: "get_le m ?w q = get_le m h q" if "q + m \<le> 20 \<or> 24 \<le> q \<and> q + m \<le> 56" for m q
  proof -
    have "get_le m ?w q = get_le m e' q" using that by (intro get_put_le_frame) auto
    also have "\<dots> = get_le m h q" using that by (intro get_le_cong pay(2)) auto
    finally show ?thesis .
  qed
  have pos: "24 \<le> length e'" "56 \<le> length e" using pay(1) min e by simp_all
  show ?thesis
    unfolding record_layout_def Let_def w le_defs
  proof (intro conjI allI impI)
    show "get_le 4 ?w 20 = crc32c_with_zeroed_checksum_field ?w"
      using pos zeroed_put_checksum [of e'] by (simp add: get_put_le le_defs)
  next
    fix j assume j: "56 + length (ri_key i) + length (ri_value i) \<le> j \<and> j < length ?w"
    have "?w ! j = e' ! j" by (rule nth_put_le_frame) (use j in simp)
    also have "\<dots> = 0" using j pay(1) by (intro pay(5)) simp_all
    finally show "?w ! j = 0" .
  qed (use min pos in \<open>simp_all add: fld h_def get_write_header pay(1,3,4) sub_put_le_frame n\<close>)
qed

section \<open>The decoder\<close>

lemma sizes_fit_decode:
  fixes k v t :: u32
  shows "checked_add (ucast k :: u64) (ucast v) = Inr (of_nat (unat k + unat v))"
    and "checked_add (56 :: u64) (of_nat (unat k + unat v)) = Inr (of_nat (56 + unat k + unat v))"
    and "align_up_checked (of_nat (56 + unat k + unat v) :: u64) 8
           = Inr (of_nat (record_extent (unat k) (unat v)))"
    and "unat (of_nat (unat k + unat v) :: u64) = unat k + unat v"
    and "of_nat (record_extent (unat k) (unat v)) = (ucast t :: u64)
           \<longleftrightarrow> unat t = record_extent (unat k) (unat v)"
proof -
  have b: "unat k \<le> 0xFFFFFFFF" "unat v \<le> 0xFFFFFFFF"
    using unat_u32_bound [of k] unat_u32_bound [of v] by linarith+
  have s: "unat (of_nat (unat k + unat v) :: u64) = unat k + unat v"
    by (rule unat_of_nat_64) (use b in linarith)
  have s56: "unat (of_nat (56 + unat k + unat v) :: u64) = 56 + unat k + unat v"
    by (rule unat_of_nat_64) (use b in linarith)
  have uc: "unat (ucast w :: u64) = unat w" for w :: u32 by (rule unat_ucast_u64)
  show "unat (of_nat (unat k + unat v) :: u64) = unat k + unat v" by (rule s)
  show "checked_add (ucast k :: u64) (ucast v) = Inr (of_nat (unat k + unat v))"
    unfolding checked_add_Inr_iff s uc ..
  show "checked_add (56 :: u64) (of_nat (unat k + unat v)) = Inr (of_nat (56 + unat k + unat v))"
    unfolding checked_add_Inr_iff s s56 by simp
  show "align_up_checked (of_nat (56 + unat k + unat v) :: u64) 8
      = Inr (of_nat (record_extent (unat k) (unat v)))"
    by (rule sizes_fit [OF b])
  show "of_nat (record_extent (unat k) (unat v)) = (ucast t :: u64)
      \<longleftrightarrow> unat t = record_extent (unat k) (unat v)"
    unfolding word_unat_eq_iff sizes_fit(4) [OF b] uc by auto
qed

lemma decode_record_Inr:
  fixes bs :: bytes
  defines "k \<equiv> unat (get_u32 bs 12)" and "l \<equiv> unat (get_u32 bs 16)"
  shows "decode_record bs c = Inr v \<longleftrightarrow>
     record_extent k l \<le> length bs \<and> record_extent k l \<le> kMaxNormalRecordSize
   \<and> get_u32 bs 0 = kRecordMagic \<and> get_u16 bs 4 = kRecordFormatVersion \<and> get_u16 bs 6 = 56
   \<and> unat (get_u32 bs 8) = record_extent k l
   \<and> (c \<longrightarrow> get_u32 bs 20 = crc32c_with_zeroed_checksum_field (take (record_extent k l) bs))
   \<and> (get_u16 bs 48 = opcode_put \<or> get_u16 bs 48 = opcode_erase)
   \<and> type_bytes \<le> get_u16 bs 50 \<and> get_u16 bs 50 \<le> type_lease
   \<and> (\<forall>j. 56 + k + l \<le> j \<and> j < record_extent k l \<longrightarrow> bs ! j = 0)
   \<and> v = \<lparr> rv_sequence = get_u64 bs 24, rv_opcode = get_u16 bs 48, rv_type = get_u16 bs 50,
           rv_flags = get_u32 bs 52, rv_key_hash = get_u64 bs 32, rv_expire_at_ns = get_u64 bs 40,
           rv_key = sub bs 56 k, rv_value = sub bs (56 + k) l, rv_encoded_size = get_u32 bs 8 \<rparr>"
    (is "?L \<longleftrightarrow> ?R")
proof -
  let ?n = "record_extent k l"
  note ext = record_extent_bounds [of k l]
  note fit = sizes_fit_decode [of "get_u32 bs 12" "get_u32 bs 16", folded k_def l_def]
  have pad: "list_all (\<lambda>b. b = 0) (drop (56 + k + l) (take ?n bs)) \<longleftrightarrow>
      (\<forall>j. 56 + k + l \<le> j \<and> j < ?n \<longrightarrow> bs ! j = 0)" if len: "?n \<le> length bs"
  proof -
    have "list_all (\<lambda>b. b = 0) (drop (56 + k + l) (take ?n bs)) \<longleftrightarrow>
        (\<forall>j < ?n - (56 + k + l). bs ! (56 + k + l + j) = 0)"
      using len ext(1) by (auto simp: list_all_length)
    also have "\<dots> \<longleftrightarrow> (\<forall>j. 56 + k + l \<le> j \<and> j < ?n \<longrightarrow> bs ! j = 0)"
      by (rule all_shift)
    finally show ?thesis .
  qed
  have subs: "sub (take ?n bs) 56 k = sub bs 56 k" "sub (take ?n bs) (56 + k) l = sub bs (56 + k) l"
    if "?n \<le> length bs"
    using that ext(1) by (auto intro!: nth_equalityI simp: nth_sub)
  have large: "56 \<le> ?n" using ext(1) by simp
  have "decode_record bs c = Inr v \<longleftrightarrow>
     ?n \<le> length bs \<and> ?n \<le> kMaxNormalRecordSize
   \<and> get_u32 bs 0 = kRecordMagic \<and> get_u16 bs 4 = kRecordFormatVersion \<and> get_u16 bs 6 = 56
   \<and> unat (get_u32 bs 8) = ?n
   \<and> (c \<longrightarrow> get_u32 bs 20 = crc32c_with_zeroed_checksum_field (take ?n bs))
   \<and> (get_u16 bs 48 = opcode_put \<or> get_u16 bs 48 = opcode_erase)
   \<and> type_bytes \<le> get_u16 bs 50 \<and> get_u16 bs 50 \<le> type_lease
   \<and> list_all (\<lambda>b. b = 0) (drop (56 + (k + l)) (take ?n bs))
   \<and> v = \<lparr> rv_sequence = get_u64 bs 24, rv_opcode = get_u16 bs 48, rv_type = get_u16 bs 50,
           rv_flags = get_u32 bs 52, rv_key_hash = get_u64 bs 32, rv_expire_at_ns = get_u64 bs 40,
           rv_key = sub (take ?n bs) 56 k, rv_value = sub (take ?n bs) (56 + k) l,
           rv_encoded_size = get_u32 bs 8 \<rparr>"
    unfolding decode_record_def Let_def record_consts k_def [symmetric] l_def [symmetric]
    by (simp only: of_nat_numeral fit sum.case if_Inl_eq_Inr not_less de_Morgan_disj de_Morgan_conj
        not_not sum.inject) (use large in \<open>auto simp: ext(3) simp del: record_view.simps\<close>)
  then show ?thesis using pad subs by (simp only: add.assoc) auto
qed

section \<open>Round trips\<close>

definition view_of :: "record_input \<Rightarrow> record_view" where
  "view_of i = \<lparr> rv_sequence = ri_sequence i, rv_opcode = ri_opcode i, rv_type = ri_type i,
     rv_flags = ri_flags i, rv_key_hash = ri_key_hash i, rv_expire_at_ns = ri_expire_at_ns i,
     rv_key = ri_key i, rv_value = ri_value i,
     rv_encoded_size = of_nat (record_extent (length (ri_key i)) (length (ri_value i))) \<rparr>"

definition input_of :: "record_view \<Rightarrow> record_input" where
  "input_of v = \<lparr> ri_sequence = rv_sequence v, ri_opcode = rv_opcode v, ri_type = rv_type v,
     ri_flags = rv_flags v, ri_key_hash = rv_key_hash v, ri_expire_at_ns = rv_expire_at_ns v,
     ri_key = rv_key v, ri_value = rv_value v \<rparr>"

lemma input_of_view_of [simp]: "input_of (view_of i) = i"
  by (simp add: input_of_def view_of_def)

lemma decode_record_layout:
  assumes lay: "record_layout e i" and val: "validate_record_input i = ok"
    and max: "record_extent (length (ri_key i)) (length (ri_value i)) \<le> kMaxNormalRecordSize"
  shows "decode_record (e @ rest) c = Inr (view_of i)"
proof -
  let ?k = "length (ri_key i)" and ?l = "length (ri_value i)"
  note ext = record_extent_bounds [of ?k ?l]
  from lay have len: "length e = record_extent ?k ?l" by (simp add: record_layout_def Let_def)
  then have e: "56 \<le> length e" "56 + ?k + ?l \<le> length e" using ext(1) by simp_all
  have small: "?k < 4294967296" "?l < 4294967296" "record_extent ?k ?l < 4294967296"
    using max ext(1) by (simp_all add: record_consts)
  have get: "get_le m (e @ rest) q = get_le m e q" if "q + m \<le> 56" for m q
    using that e by (simp add: get_le_append)
  have subs: "sub (e @ rest) 56 ?k = sub e 56 ?k" "sub (e @ rest) (56 + ?k) ?l = sub e (56 + ?k) ?l"
    using e by (simp_all add: sub_def)
  have sz: "unat (get_u32 (e @ rest) 12) = ?k" "unat (get_u32 (e @ rest) 16) = ?l"
    using lay small by (simp_all add: record_layout_def Let_def le_defs get unat_of_nat_32)
  have v: "ri_opcode i = opcode_put \<or> ri_opcode i = opcode_erase" "type_bytes \<le> ri_type i"
    "ri_type i \<le> type_lease" using val by (simp_all add: result_simps)
  show ?thesis
    using lay max small(3) v
    by (simp add: decode_record_Inr sz len subs, simp add: record_layout_def Let_def le_defs get len
        view_of_def unat_of_nat_32 nth_append)
qed

lemma decode_record_canonical:
  assumes "decode_record bs True = Inr v"
  defines "i \<equiv> input_of v"
  shows "record_layout (take (unat (rv_encoded_size v)) bs) i" "validate_record_input i = ok"
    "record_extent (length (ri_key i)) (length (ri_value i)) \<le> kMaxNormalRecordSize"
    "v = view_of i" "unat (rv_encoded_size v) = record_extent (length (ri_key i)) (length (ri_value i))"
    "unat (rv_encoded_size v) \<le> length bs"
proof -
  define k where "k = unat (get_u32 bs 12)"
  define l where "l = unat (get_u32 bs 16)"
  let ?n = "record_extent k l"
  note ext = record_extent_bounds [of k l]
  note dec = assms(1) [unfolded decode_record_Inr, folded k_def l_def]
  have n: "?n \<le> length bs" "unat (get_u32 bs 8) = ?n" using dec by simp_all
  have fit: "56 \<le> ?n" "56 + k \<le> ?n" "56 + k + l \<le> ?n" using ext(1) by simp_all
  have sz: "length (ri_key i) = k" "length (ri_value i) = l"
    using dec n fit by (simp_all add: i_def input_of_def)
  have rv: "rv_encoded_size v = get_u32 bs 8" using dec by simp
  have kl: "get_u32 bs 12 = of_nat k" "get_u32 bs 16 = of_nat l" "get_u32 bs 8 = of_nat ?n"
    unfolding n(2) [symmetric] by (simp_all add: k_def l_def)
  have "rv_encoded_size v = of_nat (record_extent (length (rv_key v)) (length (rv_value v)))"
    using sz by (simp add: rv kl i_def input_of_def)
  then show v: "v = view_of i" by (simp add: i_def input_of_def view_of_def)
  show "unat (rv_encoded_size v) = record_extent (length (ri_key i)) (length (ri_value i))"
    by (simp add: rv n sz)
  show "unat (rv_encoded_size v) \<le> length bs" by (simp add: rv n)
  show "validate_record_input i = ok"
    using dec sz fit by (simp add: result_simps i_def input_of_def record_consts)
  show "record_extent (length (ri_key i)) (length (ri_value i)) \<le> kMaxNormalRecordSize"
    using dec sz by simp
  have get: "get_le m (take ?n bs) q = get_le m bs q" if "q + m \<le> 56" for m q
    using that n fit by (simp add: get_le_take)
  have subs: "sub (take ?n bs) 56 k = sub bs 56 k" "sub (take ?n bs) (56 + k) l = sub bs (56 + k) l"
    using n fit by (auto intro!: nth_equalityI simp: nth_sub)
  show "record_layout (take (unat (rv_encoded_size v)) bs) i"
    unfolding record_layout_def Let_def sz rv n(2)
    using dec n kl by (simp add: le_defs get subs i_def input_of_def)
qed

lemma record_layout_unique:
  assumes "record_layout e i" "record_layout e' i"
  shows "e = e'"
proof (rule nth_equalityI)
  let ?k = "length (ri_key i)" and ?l = "length (ri_value i)"
  note lay = assms [unfolded record_layout_def Let_def le_defs]
  show len: "length e = length e'" using lay by simp
  have big: "56 + ?k + ?l \<le> length e" using lay record_extent_bounds(1) [of ?k ?l] by simp
  have "agree e e' 0 0" by simp
  then have "agree e e' 0 4" by (rule agree_u32) (use lay in simp_all)
  then have "agree e e' 0 6" by (rule agree_u16) (use lay in simp_all)
  then have "agree e e' 0 8" by (rule agree_u16) (use lay in simp_all)
  then have "agree e e' 0 12" by (rule agree_u32) (use lay in simp_all)
  then have "agree e e' 0 16" by (rule agree_u32) (use lay in simp_all)
  then have front: "agree e e' 0 20" by (rule agree_u32) (use lay in simp_all)
  have "agree e e' 24 24" by simp
  then have "agree e e' 24 32" by (rule agree_u64) (use lay in simp_all)
  then have "agree e e' 24 40" by (rule agree_u64) (use lay in simp_all)
  then have "agree e e' 24 48" by (rule agree_u64) (use lay in simp_all)
  then have "agree e e' 24 50" by (rule agree_u16) (use lay in simp_all)
  then have "agree e e' 24 52" by (rule agree_u16) (use lay in simp_all)
  then have rear: "agree e e' 24 56" by (rule agree_u32) (use lay in simp_all)
  have fld: "e ! j = e' ! j" if "j < 56" "j < 20 \<or> 24 \<le> j" for j
    using that front rear by (auto simp: agree_def)
  have payload: "e ! j = e' ! j" if j: "56 \<le> j" "j < length e" for j
  proof -
    consider "j < 56 + ?k" | "56 + ?k \<le> j" "j < 56 + ?k + ?l" | "56 + ?k + ?l \<le> j"
      by linarith
    then show ?thesis
    proof cases
      case 1 then show ?thesis using j lay big len by (intro sub_bytes_eq [of e 56 ?k e']) simp_all
    next
      case 2 then show ?thesis using lay big len by (intro sub_bytes_eq [of e "56 + ?k" ?l e']) simp_all
    next
      case 3 then show ?thesis using j lay len by simp
    qed
  qed
  have outside: "e ! j = e' ! j" if "j < length e" "j < 20 \<or> 24 \<le> j" for j
    using fld payload that by (cases "j < 56") simp_all
  have "blit e 20 (replicate 4 0) = blit e' 20 (replicate 4 0)"
    using len big outside by (intro nth_equalityI) (auto simp: nth_blit not_less)
  then have crc: "get_le 4 e 20 = (get_le 4 e' 20 :: u32)"
    using lay len big by (simp add: crc32c_zeroed_field)
  fix j assume "j < length e"
  then show "e ! j = e' ! j"
    using outside u32_bytes_eq [OF crc, of j] by (cases "j < 20 \<or> 24 \<le> j") simp_all
qed

section \<open>The encoder\<close>

lemma encode_record_sized_ok:
  assumes "compute_encoded_size i = Inr n" "n \<le> length out"
  shows "encode_record_sized debug out i n = (write_record (take n out) i n @ drop n out, ok)"
proof -
  from assms(1) have v: "validate_record_input i = ok"
    and n: "n = record_extent (length (ri_key i)) (length (ri_value i))" "n \<le> kMaxNormalRecordSize"
    by (simp_all add: result_simps)
  then show ?thesis
    using assms record_extent_bounds [of "length (ri_key i)" "length (ri_value i)"]
    by (simp add: encode_record_sized_def Let_def record_consts)
qed

lemma encode_record_eq:
  "encode_record debug i = bind_result (compute_encoded_size i) (\<lambda>n. Inr (write_record (replicate n 0) i n))"
  by (cases "compute_encoded_size i") (simp_all add: encode_record_def encode_record_sized_ok)

lemma encode_record_Inr:
  "encode_record debug i = Inr bs \<longleftrightarrow>
     record_layout bs i \<and> validate_record_input i = ok
     \<and> record_extent (length (ri_key i)) (length (ri_value i)) \<le> kMaxNormalRecordSize"
    (is "?L \<longleftrightarrow> ?R")
proof -
  let ?n = "record_extent (length (ri_key i)) (length (ri_value i))"
  have "record_layout (write_record (replicate ?n 0) i ?n) i" by (rule write_record_layout) simp_all
  then show ?thesis
    using record_layout_unique [of bs i] by (auto simp: encode_record_eq result_simps)
qed

interpretation rc: framed_codec "encode_record debug" "\<lambda>bs. decode_record bs True" view_of
  "\<lambda>v. unat (rv_encoded_size v)"
proof unfold_locales
  fix x bs rest assume "encode_record debug x = Inr bs"
  then have e: "record_layout bs x" "validate_record_input x = ok"
    "record_extent (length (ri_key x)) (length (ri_value x)) \<le> kMaxNormalRecordSize"
    by (simp_all add: encode_record_Inr)
  have len: "length bs = record_extent (length (ri_key x)) (length (ri_value x))"
    using e(1) by (simp add: record_layout_def Let_def)
  show "decode_record (bs @ rest) True = Inr (view_of x)"
    using e by (rule decode_record_layout)
  show "unat (rv_encoded_size (view_of x)) = length bs"
    using e(3) by (simp add: view_of_def len unat_of_nat_32 record_consts)
  show "bs \<noteq> []"
    using len record_extent_bounds(1) [of "length (ri_key x)" "length (ri_value x)"] by auto
next
  fix bs v assume d: "decode_record bs True = Inr v"
  show "unat (rv_encoded_size v) \<le> length bs
      \<and> (\<exists>x. v = view_of x \<and> encode_record debug x = Inr (take (unat (rv_encoded_size v)) bs))"
    using decode_record_canonical [OF d] by (auto simp: encode_record_Inr)
next
  fix x y assume "view_of x = view_of y"
  then show "x = y" by (metis input_of_view_of)
qed

text \<open>
  C8.  Whatever \<open>encode_record\<close> accepts, \<open>decode_record\<close> reads back field by field, with
  arbitrary bytes behind it, with and without checksum verification.
\<close>

theorem record_roundtrip:
  assumes "encode_record debug i = Inr bs"
  shows "decode_record (bs @ rest) verify = Inr (view_of i)
       \<and> length bs = unat (rv_encoded_size (view_of i))
       \<and> length bs mod 8 = 0 \<and> length bs \<le> kMaxNormalRecordSize"
proof (intro conjI)
  from assms have e: "record_layout bs i" "validate_record_input i = ok"
    "record_extent (length (ri_key i)) (length (ri_value i)) \<le> kMaxNormalRecordSize"
    by (simp_all add: encode_record_Inr)
  show "decode_record (bs @ rest) verify = Inr (view_of i)" using e by (rule decode_record_layout)
  show "length bs = unat (rv_encoded_size (view_of i))" using rc.extent_encode [OF assms] ..
  have "length bs = record_extent (length (ri_key i)) (length (ri_value i))"
    using e(1) by (simp add: record_layout_def Let_def)
  then show "length bs mod 8 = 0" "length bs \<le> kMaxNormalRecordSize"
    using e(3) record_extent_bounds(3) by simp_all
qed

definition example_input :: record_input where
  "example_input = \<lparr> ri_sequence = 7, ri_opcode = opcode_put, ri_type = type_bytes, ri_flags = 0,
     ri_key_hash = 0x1234, ri_expire_at_ns = 0, ri_key = [1, 2, 3], ri_value = [9] \<rparr>"

lemma example_encodes: "encode_record debug example_input = Inr (write_record (replicate 64 0) example_input 64)"
proof -
  have "compute_encoded_size example_input = Inr 64"
    by (simp add: result_simps example_input_def record_enums record_consts record_extent_def)
  then show ?thesis by (simp add: encode_record_eq)
qed

theorem record_roundtrip_witness:
  "\<exists>bs. encode_record False example_input = Inr bs
      \<and> decode_record (bs @ [0xFF]) True = Inr (view_of example_input)"
  using record_roundtrip [OF example_encodes [of False], of "[0xFF]" True] example_encodes by blast

text \<open>
  C9.  The decoder accepts only encodings: what it accepts is byte for byte what
  \<open>encode_record\<close> produces for the decoded fields.
\<close>

theorem record_canonical:
  assumes "decode_record bs True = Inr v"
  shows "encode_record debug (input_of v) = Inr (take (unat (rv_encoded_size v)) bs)
       \<and> unat (rv_encoded_size v) \<le> length bs \<and> v = view_of (input_of v)"
  using decode_record_canonical [OF assms] by (simp add: encode_record_Inr)

lemma example_decodes:
  "decode_record (write_record (replicate 64 0) example_input 64) True = Inr (view_of example_input)"
  using rc.frame [OF example_encodes, of "[]"] by simp

theorem record_canonical_witness:
  "\<exists>bs. decode_record bs True = Inr (view_of example_input)
      \<and> encode_record True (input_of (view_of example_input))
        = Inr (take (unat (rv_encoded_size (view_of example_input))) bs)"
  using record_canonical [OF example_decodes, of True] example_decodes by blast

text \<open>
  C11.  A log of records has one reading: two sequences of records with the same
  concatenated encoding are the same sequence.
\<close>

theorem record_log_unambiguous:
  assumes "list_all2 (\<lambda>i b. encode_record debug i = Inr b) xs as"
    and "list_all2 (\<lambda>i b. encode_record debug i = Inr b) ys bs"
    and "concat as = concat bs"
  shows "xs = ys"
  using assms by (rule rc.stream_unique)

theorem record_log_unambiguous_witness:
  "\<exists>b. list_all2 (\<lambda>i b. encode_record True i = Inr b) [example_input, example_input] [b, b]
     \<and> [example_input, example_input] = [example_input, input_of (view_of example_input)]"
proof -
  let ?b = "write_record (replicate 64 0) example_input 64"
  have "list_all2 (\<lambda>i b. encode_record True i = Inr b) [example_input, example_input] [?b, ?b]"
    "list_all2 (\<lambda>i b. encode_record True i = Inr b) [example_input, input_of (view_of example_input)]
       [?b, ?b]"
    by (simp_all add: example_encodes)
  from record_log_unambiguous [OF this refl] this(1) show ?thesis by (intro exI [of _ ?b] conjI)
qed

text \<open>
  C10.  Every change of a single byte of an accepted record makes \<open>decode_record\<close> reject it.
\<close>

theorem record_corruption_detected:
  assumes dec: "decode_record bs True = Inr v"
    and j: "j < unat (rv_encoded_size v)" "b \<noteq> bs ! j"
  shows "\<exists>e. decode_record (bs[j := b]) True = Inl e"
proof (cases "decode_record (bs[j := b]) True")
  case (Inr v')
  let ?bs = "bs[j := b]" and ?n = "\<lambda>bs. record_extent (unat (get_u32 bs 12)) (unat (get_u32 bs 16))"
  note A = dec [unfolded decode_record_Inr] and B = Inr [unfolded decode_record_Inr]
  have n: "unat (rv_encoded_size v) = unat (get_u32 bs 8)" "unat (get_u32 bs 8) = ?n bs"
    "?n bs \<le> length bs" "unat (get_u32 ?bs 8) = ?n ?bs"
    using A B by simp_all
  have len: "j < length bs" "24 \<le> ?n bs" 
    using j n record_extent_bounds(1) [of "unat (get_u32 bs 12)" "unat (get_u32 bs 16)"] by simp_all
  show ?thesis
  proof (cases "8 \<le> j \<and> j < 12")
    case True
    then have "get_u32 ?bs 8 \<noteq> get_u32 bs 8" "?n ?bs = ?n bs"
      using len j(2) by (simp_all add: le_defs get_le_update_neq get_le_update_frame)
    then show ?thesis using n by (simp add: word_unat_eq_iff)
  next
    case False
    then have "j < 8 \<or> 12 \<le> j" by linarith
    then have "get_u32 ?bs 8 = get_u32 bs 8" unfolding le_defs by (intro get_le_update_frame) simp
    then have same: "?n ?bs = ?n bs" using n(2,4) by simp
    let ?e = "take (?n bs) bs"
    have e: "take (?n ?bs) ?bs = ?e[j := b]" "length ?e = ?n bs"
      using n by (simp_all add: same take_update_swap)
    have crc: "get_u32 ?bs 20 = crc32c_with_zeroed_checksum_field (?e[j := b])"
      "get_u32 bs 20 = crc32c_with_zeroed_checksum_field ?e"
      using A B e by simp_all
    show ?thesis
    proof (cases "20 \<le> j \<and> j < 24")
      case True
      then have "blit (?e[j := b]) 20 (replicate 4 0) = blit ?e 20 (replicate 4 0)"
        using len e(2) by (intro blit_update_inside) simp_all
      then have "get_u32 ?bs 20 = get_u32 bs 20" using crc len e by (simp add: crc32c_zeroed_field)
      then show ?thesis using True len j(2) by (simp add: le_defs get_le_update_neq)
    next
      case False
      then have "blit (?e[j := b]) 20 (replicate 4 0) = (blit ?e 20 (replicate 4 0))[j := b]"
        using len e(2) by (intro blit_update_outside) auto
      moreover have "blit ?e 20 (replicate 4 0) ! j = bs ! j"
        using False j n len by (auto simp: nth_blit)
      ultimately have "crc32c_with_zeroed_checksum_field (?e[j := b])
          \<noteq> crc32c_with_zeroed_checksum_field ?e"
        using crc32c_update_neq [of j "blit ?e 20 (replicate 4 0)" b] j n len e
        by (simp add: crc32c_zeroed_field)
      moreover have "j < 20 \<or> 24 \<le> j" using False by linarith
      then have "get_u32 ?bs 20 = get_u32 bs 20" unfolding le_defs by (intro get_le_update_frame) simp
      ultimately show ?thesis using crc by simp
    qed
  qed
qed simp

theorem record_corruption_detected_witness:
  "\<exists>bs e. decode_record bs True = Inr (view_of example_input)
      \<and> decode_record (bs[56 := bs ! 56 + 1]) True = Inl e"
proof -
  let ?bs = "write_record (replicate 64 0) example_input 64"
  have "56 < unat (rv_encoded_size (view_of example_input))"
    by (simp add: view_of_def example_input_def record_extent_def)
  moreover have "?bs ! 56 + 1 \<noteq> ?bs ! 56" by simp
  ultimately show ?thesis
    using record_corruption_detected [OF example_decodes] example_decodes by blast
qed

end
