(* ===== verification/Segment_Header.thy ===== *)
theory Segment_Header
  imports Record_Codec
begin

text \<open>
  The 4096-byte header of a persisted segment: \<open>src/include/glifistore/segment/segment_header.hpp\<close>
  and \<open>src/src/segment/segment_header.cpp\<close>.  The header holds an immutable identity block of
  128 bytes and two commit slots of 128 bytes that a writer overwrites in turn, each with its
  own checksum; recovery takes the valid slot with the newest generation.  Output buffers are
  passed in and returned.  The lemmas show that both blocks read back, that a slot admits one
  encoding, and that damage to one slot leaves the other one to be selected.
\<close>

section \<open>Types and constants\<close>

definition kSegmentSizeBytes :: nat where "kSegmentSizeBytes = 64 * 1024 * 1024"
definition kSegmentHeaderReservedBytes :: nat where "kSegmentHeaderReservedBytes = 4096"

definition kSegmentHeaderMagic :: u32 where "kSegmentHeaderMagic = 0x48594C47"
definition kSegmentCommitMagic :: u32 where "kSegmentCommitMagic = 0x43594C47"
definition kSegmentHeaderFormatVersion :: u16 where "kSegmentHeaderFormatVersion = 1"
definition kSegmentFormatVersion :: u16 where "kSegmentFormatVersion = 1"
definition kSegmentCommitFormatVersion :: u16 where "kSegmentCommitFormatVersion = 1"
definition kSegmentImmutableHeaderBytes :: nat where "kSegmentImmutableHeaderBytes = 128"
definition kSegmentCommitSlotBytes :: nat where "kSegmentCommitSlotBytes = 128"
definition kSegmentCommitSlotCount :: nat where "kSegmentCommitSlotCount = 2"
definition kSegmentCommitSlotsOffset :: nat where
  "kSegmentCommitSlotsOffset = kSegmentImmutableHeaderBytes"
definition kImmutableChecksumOffset :: nat where "kImmutableChecksumOffset = 52"
definition kCommitChecksumOffset :: nat where "kCommitChecksumOffset = 48"

lemmas header_sizes = kSegmentSizeBytes_def kSegmentHeaderReservedBytes_def
  kSegmentImmutableHeaderBytes_def kSegmentCommitSlotBytes_def kSegmentCommitSlotCount_def
  kSegmentCommitSlotsOffset_def kImmutableChecksumOffset_def kCommitChecksumOffset_def

definition persisted_active :: u16 where "persisted_active = 1"
definition persisted_sealed :: u16 where "persisted_sealed = 2"

record segment_header_identity =
  shi_store_id :: bytes
  shi_segment_id :: u64
  shi_generation :: u32
  shi_owner_worker :: u32

record segment_commit =
  sc_commit_generation :: u64
  sc_committed_end :: u32
  sc_state :: u16
  sc_record_count :: u64
  sc_first_sequence :: u64
  sc_last_sequence :: u64

datatype commit_slot_validity = Slot_empty | Slot_valid | Slot_invalid

record decoded_commit_slot =
  dcs_validity :: commit_slot_validity
  dcs_commit :: "segment_commit option"

record segment_header =
  sh_identity :: segment_header_identity
  sh_commits :: "segment_commit option list"

record decoded_segment_header =
  dsh_identity :: segment_header_identity
  dsh_slots :: "decoded_commit_slot list"

record selected_segment_commit =
  ssc_slot_index :: nat
  ssc_commit :: segment_commit

section \<open>Operations\<close>

definition all_zero :: "bytes \<Rightarrow> bool" where
  "all_zero bytes \<longleftrightarrow> list_all (\<lambda>b. b = 0) bytes"

definition checksum_with_zeroed_field :: "nat \<Rightarrow> bytes \<Rightarrow> nat \<Rightarrow> u32" where
  "checksum_with_zeroed_field sz bytes checksum_offset =
     crc32c (blit (take sz bytes) checksum_offset (replicate 4 0))"

definition validate_identity :: "segment_header_identity \<Rightarrow> status" where
  "validate_identity identity =
     (if all_zero (shi_store_id identity) then fail Invalid_argument
      else if shi_segment_id identity = 0 \<or> shi_generation identity = 0 then fail Invalid_argument
      else ok)"

definition validate_commit :: "segment_commit \<Rightarrow> status" where
  "validate_commit commit =
     (if sc_commit_generation commit = 0 then fail Invalid_argument
      else if unat (sc_committed_end commit) < kSegmentHeaderReservedBytes
              \<or> unat (sc_committed_end commit) > kSegmentSizeBytes
              \<or> unat (sc_committed_end commit) mod kRecordAlignment \<noteq> 0
      then fail Invalid_argument
      else if sc_state commit \<noteq> persisted_active \<and> sc_state commit \<noteq> persisted_sealed
      then fail Invalid_argument
      else if sc_record_count commit = 0 then
        (if unat (sc_committed_end commit) \<noteq> kSegmentHeaderReservedBytes
            \<or> sc_first_sequence commit \<noteq> 0 \<or> sc_last_sequence commit \<noteq> 0
         then fail Invalid_argument else ok)
      else if unat (sc_committed_end commit) = kSegmentHeaderReservedBytes
              \<or> sc_first_sequence commit = 0
              \<or> sc_last_sequence commit < sc_first_sequence commit
      then fail Invalid_argument
      else ok)"

definition invalid_slot :: decoded_commit_slot where
  "invalid_slot = \<lparr> dcs_validity = Slot_invalid, dcs_commit = None \<rparr>"

definition empty_slot :: decoded_commit_slot where
  "empty_slot = \<lparr> dcs_validity = Slot_empty, dcs_commit = None \<rparr>"

definition write_commit_slot :: "segment_commit \<Rightarrow> bytes" where
  "write_commit_slot commit =
     (let encoded = replicate kSegmentCommitSlotBytes 0;
          encoded = put_u32 encoded 0 kSegmentCommitMagic;
          encoded = put_u16 encoded 4 kSegmentCommitFormatVersion;
          encoded = put_u16 encoded 6 (of_nat kSegmentCommitSlotBytes);
          encoded = put_u64 encoded 8 (sc_commit_generation commit);
          encoded = put_u32 encoded 16 (sc_committed_end commit);
          encoded = put_u16 encoded 20 (sc_state commit);
          encoded = put_u16 encoded 22 0;
          encoded = put_u64 encoded 24 (sc_record_count commit);
          encoded = put_u64 encoded 32 (sc_first_sequence commit);
          encoded = put_u64 encoded 40 (sc_last_sequence commit)
      in put_u32 encoded kCommitChecksumOffset
           (checksum_with_zeroed_field kSegmentCommitSlotBytes encoded kCommitChecksumOffset))"

definition encode_segment_commit_slot :: "bytes \<Rightarrow> segment_commit \<Rightarrow> bytes \<times> status" where
  "encode_segment_commit_slot out commit =
     (if length out < kSegmentCommitSlotBytes then (out, fail Invalid_argument)
      else
        (case validate_commit commit of
           Inl e \<Rightarrow> (out, Inl e)
         | Inr _ \<Rightarrow> (blit out 0 (write_commit_slot commit), ok)))"

definition decode_segment_commit_slot :: "bytes \<Rightarrow> decoded_commit_slot result" where
  "decode_segment_commit_slot bytes =
     (if length bytes < kSegmentCommitSlotBytes then fail Invalid_record
      else
        let encoded = take kSegmentCommitSlotBytes bytes in
        if all_zero encoded then Inr empty_slot
        else if get_u32 encoded 0 \<noteq> kSegmentCommitMagic
                \<or> get_u16 encoded 6 \<noteq> of_nat kSegmentCommitSlotBytes
        then Inr invalid_slot
        else if get_u32 encoded kCommitChecksumOffset
                \<noteq> checksum_with_zeroed_field kSegmentCommitSlotBytes encoded kCommitChecksumOffset
        then Inr invalid_slot
        else if get_u16 encoded 4 \<noteq> kSegmentCommitFormatVersion then fail Invalid_record
        else if get_u16 encoded 22 \<noteq> 0 \<or> \<not> all_zero (drop 52 encoded) then Inr invalid_slot
        else
          let commit = \<lparr> sc_commit_generation = get_u64 encoded 8,
                         sc_committed_end = get_u32 encoded 16,
                         sc_state = get_u16 encoded 20,
                         sc_record_count = get_u64 encoded 24,
                         sc_first_sequence = get_u64 encoded 32,
                         sc_last_sequence = get_u64 encoded 40 \<rparr>
          in case validate_commit commit of
               Inl _ \<Rightarrow> Inr invalid_slot
             | Inr _ \<Rightarrow> Inr \<lparr> dcs_validity = Slot_valid, dcs_commit = Some commit \<rparr>)"

text \<open>The loop of \<open>encode_segment_header\<close> over the commit slots.\<close>

fun encode_commits :: "(nat \<times> segment_commit option) list \<Rightarrow> bytes \<Rightarrow> bytes result" where
  "encode_commits [] encoded = Inr encoded"
| "encode_commits ((index, None) # rest) encoded = encode_commits rest encoded"
| "encode_commits ((index, Some commit) # rest) encoded =
     (let offset = kSegmentCommitSlotsOffset + index * kSegmentCommitSlotBytes in
      case encode_segment_commit_slot (sub encoded offset kSegmentCommitSlotBytes) commit of
        (_, Inl e) \<Rightarrow> Inl e
      | (slot, Inr _) \<Rightarrow> encode_commits rest (blit encoded offset slot))"

definition write_identity :: "segment_header_identity \<Rightarrow> bytes" where
  "write_identity identity =
     (let encoded = replicate kSegmentHeaderReservedBytes 0;
          encoded = put_u32 encoded 0 kSegmentHeaderMagic;
          encoded = put_u16 encoded 4 kSegmentHeaderFormatVersion;
          encoded = put_u16 encoded 6 (of_nat kSegmentImmutableHeaderBytes);
          encoded = put_u16 encoded 8 kSegmentFormatVersion;
          encoded = put_u16 encoded 10 kRecordFormatVersion;
          encoded = put_u32 encoded 12 (of_nat kSegmentHeaderReservedBytes);
          encoded = blit encoded 16 (shi_store_id identity);
          encoded = put_u64 encoded 32 (shi_segment_id identity);
          encoded = put_u32 encoded 40 (shi_generation identity);
          encoded = put_u32 encoded 44 (shi_owner_worker identity);
          encoded = put_u32 encoded 48 0
      in put_u32 encoded kImmutableChecksumOffset
           (checksum_with_zeroed_field kSegmentImmutableHeaderBytes encoded kImmutableChecksumOffset))"

definition commits_conflict :: "segment_commit option list \<Rightarrow> bool" where
  "commits_conflict commits \<longleftrightarrow>
     (case (commits ! 0, commits ! 1) of
        (Some first, Some second) \<Rightarrow>
          sc_commit_generation first = sc_commit_generation second \<and> first \<noteq> second
      | _ \<Rightarrow> False)"

definition encode_segment_header :: "bytes \<Rightarrow> segment_header \<Rightarrow> bytes \<times> status" where
  "encode_segment_header out header =
     (if length out < kSegmentHeaderReservedBytes then (out, fail Invalid_argument)
      else
        (case validate_identity (sh_identity header) of
           Inl e \<Rightarrow> (out, Inl e)
         | Inr _ \<Rightarrow>
             if commits_conflict (sh_commits header) then (out, fail Invalid_argument)
             else
               (case encode_commits (enumerate 0 (sh_commits header))
                       (write_identity (sh_identity header)) of
                  Inl e \<Rightarrow> (out, Inl e)
                | Inr encoded \<Rightarrow> (blit out 0 encoded, ok))))"

fun decode_slots :: "nat list \<Rightarrow> bytes \<Rightarrow> decoded_commit_slot list result" where
  "decode_slots [] encoded = Inr []"
| "decode_slots (index # rest) encoded =
     (let offset = kSegmentCommitSlotsOffset + index * kSegmentCommitSlotBytes in
      bind_result (decode_segment_commit_slot (sub encoded offset kSegmentCommitSlotBytes)) (\<lambda>slot.
      bind_result (decode_slots rest encoded) (\<lambda>slots. Inr (slot # slots))))"

definition decode_segment_header :: "bytes \<Rightarrow> decoded_segment_header result" where
  "decode_segment_header bytes =
     (if length bytes < kSegmentHeaderReservedBytes then fail Invalid_record
      else
        let encoded = take kSegmentHeaderReservedBytes bytes in
        if get_u32 encoded 0 \<noteq> kSegmentHeaderMagic \<or> get_u16 encoded 4 \<noteq> kSegmentHeaderFormatVersion
           \<or> get_u16 encoded 6 \<noteq> of_nat kSegmentImmutableHeaderBytes
           \<or> get_u16 encoded 8 \<noteq> kSegmentFormatVersion \<or> get_u16 encoded 10 \<noteq> kRecordFormatVersion
           \<or> get_u32 encoded 12 \<noteq> of_nat kSegmentHeaderReservedBytes \<or> get_u32 encoded 48 \<noteq> 0
           \<or> \<not> all_zero (sub encoded 56 (kSegmentImmutableHeaderBytes - 56))
           \<or> \<not> all_zero (drop (kSegmentCommitSlotsOffset
                                + kSegmentCommitSlotCount * kSegmentCommitSlotBytes) encoded)
        then fail Invalid_record
        else if get_u32 encoded kImmutableChecksumOffset
                \<noteq> checksum_with_zeroed_field kSegmentImmutableHeaderBytes encoded kImmutableChecksumOffset
        then fail Checksum_mismatch
        else
          let identity = \<lparr> shi_store_id = sub encoded 16 16,
                           shi_segment_id = get_u64 encoded 32,
                           shi_generation = get_u32 encoded 40,
                           shi_owner_worker = get_u32 encoded 44 \<rparr>
          in case validate_identity identity of
               Inl _ \<Rightarrow> fail Invalid_record
             | Inr _ \<Rightarrow>
                 bind_result (decode_slots [0..<kSegmentCommitSlotCount] encoded) (\<lambda>slots.
                 Inr \<lparr> dsh_identity = identity, dsh_slots = slots \<rparr>))"

fun select_loop :: "(nat \<times> decoded_commit_slot) list \<Rightarrow> selected_segment_commit option
    \<Rightarrow> selected_segment_commit option result" where
  "select_loop [] selected = Inr selected"
| "select_loop ((index, slot) # rest) selected =
     (if dcs_validity slot \<noteq> Slot_valid then select_loop rest selected
      else
        (case dcs_commit slot of
           None \<Rightarrow> select_loop rest selected
         | Some commit \<Rightarrow>
             (case selected of
                None \<Rightarrow> select_loop rest (Some \<lparr> ssc_slot_index = index, ssc_commit = commit \<rparr>)
              | Some sel \<Rightarrow>
                  if sc_commit_generation commit > sc_commit_generation (ssc_commit sel)
                  then select_loop rest (Some \<lparr> ssc_slot_index = index, ssc_commit = commit \<rparr>)
                  else if sc_commit_generation commit = sc_commit_generation (ssc_commit sel)
                          \<and> commit \<noteq> ssc_commit sel
                  then fail Corrupted_data
                  else select_loop rest selected)))"

definition select_newest_segment_commit :: "decoded_segment_header \<Rightarrow> selected_segment_commit result" where
  "select_newest_segment_commit header =
     bind_result (select_loop (enumerate 0 (dsh_slots header)) None) (\<lambda>selected.
       case selected of None \<Rightarrow> fail Corrupted_data | Some s \<Rightarrow> Inr s)"

section \<open>Checksums over a zeroed field\<close>

lemma checksum_cong:
  assumes "sz \<le> length e" "sz \<le> length e'" "off + 4 \<le> sz"
    and "\<And>j. j < sz \<Longrightarrow> j < off \<or> off + 4 \<le> j \<Longrightarrow> e ! j = e' ! j"
  shows "checksum_with_zeroed_field sz e off = checksum_with_zeroed_field sz e' off"
proof -
  have "blit (take sz e) off (replicate 4 0) = blit (take sz e') off (replicate 4 0)"
    using assms by (intro nth_equalityI) (auto simp: nth_blit)
  then show ?thesis by (simp add: checksum_with_zeroed_field_def)
qed

lemma checksum_put:
  assumes "sz \<le> length e" "off + 4 \<le> sz"
  shows "checksum_with_zeroed_field sz (put_le 4 e off w) off = checksum_with_zeroed_field sz e off"
  using assms by (intro checksum_cong) (simp_all add: nth_put_le_frame)

lemma checksum_field_update:
  assumes "sz \<le> length e" "off + 4 \<le> sz" "j < sz" "b \<noteq> e ! j"
    and "get_le 4 e off = checksum_with_zeroed_field sz e off"
  shows "get_le 4 (e[j := b]) off \<noteq> checksum_with_zeroed_field sz (e[j := b]) off"
proof (cases "off \<le> j \<and> j < off + 4")
  case True
  then have "checksum_with_zeroed_field sz (e[j := b]) off = checksum_with_zeroed_field sz e off"
    using assms by (intro checksum_cong) (auto simp: nth_update)
  moreover have "get_le 4 (e[j := b]) off \<noteq> (get_le 4 e off :: u32)"
    using True assms by (intro get_le_update_neq) simp_all
  ultimately show ?thesis using assms(5) by simp
next
  case False
  let ?z = "blit (take sz e) off (replicate 4 0)"
  have "blit (take sz (e[j := b])) off (replicate 4 0) = ?z[j := b]"
    using assms False by (simp add: take_update_swap blit_update_outside not_le not_less)
  moreover have "?z ! j = e ! j" using assms False by (auto simp: nth_blit)
  ultimately have "checksum_with_zeroed_field sz (e[j := b]) off \<noteq> checksum_with_zeroed_field sz e off"
    using assms crc32c_update_neq [of j ?z b] by (simp add: checksum_with_zeroed_field_def)
  moreover have "get_le 4 (e[j := b]) off = (get_le 4 e off :: u32)"
    using False by (intro get_le_update_frame) linarith
  ultimately show ?thesis using assms(5) by simp
qed

lemma all_zero_iff: "all_zero bs \<longleftrightarrow> (\<forall>j < length bs. bs ! j = 0)"
  by (simp add: all_zero_def list_all_length)

lemma get_le_all_zero: "all_zero bs \<Longrightarrow> p + n \<le> length bs \<Longrightarrow> get_le n bs p = 0"
  by (induction n) (simp_all add: all_zero_iff get_le_Suc)

section \<open>Commit slots\<close>

definition slot_layout :: "bytes \<Rightarrow> segment_commit \<Rightarrow> bool" where
  "slot_layout e c \<longleftrightarrow>
     length e = 128 \<and> get_u32 e 0 = kSegmentCommitMagic \<and> get_u16 e 4 = kSegmentCommitFormatVersion
   \<and> get_u16 e 6 = 128 \<and> get_u64 e 8 = sc_commit_generation c \<and> get_u32 e 16 = sc_committed_end c
   \<and> get_u16 e 20 = sc_state c \<and> get_u16 e 22 = 0 \<and> get_u64 e 24 = sc_record_count c
   \<and> get_u64 e 32 = sc_first_sequence c \<and> get_u64 e 40 = sc_last_sequence c
   \<and> get_u32 e 48 = checksum_with_zeroed_field 128 e 48
   \<and> (\<forall>j. 52 \<le> j \<and> j < 128 \<longrightarrow> e ! j = 0)"

lemma write_commit_slot_layout: "slot_layout (write_commit_slot c) c"
  unfolding slot_layout_def write_commit_slot_def Let_def le_defs header_sizes
  by (simp add: get_put_le_frame get_put_le checksum_put nth_put_le_frame)

lemma slot_layout_unique:
  assumes "slot_layout e c" "slot_layout e' c"
  shows "e = e'"
proof (rule nth_equalityI)
  note lay = assms [unfolded slot_layout_def le_defs]
  show "length e = length e'" using lay by simp
  have "agree e e' 0 0" by simp
  then have "agree e e' 0 4" by (rule agree_u32) (use lay in simp_all)
  then have "agree e e' 0 6" by (rule agree_u16) (use lay in simp_all)
  then have "agree e e' 0 8" by (rule agree_u16) (use lay in simp_all)
  then have "agree e e' 0 16" by (rule agree_u64) (use lay in simp_all)
  then have "agree e e' 0 20" by (rule agree_u32) (use lay in simp_all)
  then have "agree e e' 0 22" by (rule agree_u16) (use lay in simp_all)
  then have "agree e e' 0 24" by (rule agree_u16) (use lay in simp_all)
  then have "agree e e' 0 32" by (rule agree_u64) (use lay in simp_all)
  then have "agree e e' 0 40" by (rule agree_u64) (use lay in simp_all)
  then have front: "agree e e' 0 48" by (rule agree_u64) (use lay in simp_all)
  have "checksum_with_zeroed_field 128 e 48 = checksum_with_zeroed_field 128 e' 48"
    by (rule checksum_cong) (use lay front in \<open>auto simp: agree_def\<close>)
  with front have "agree e e' 0 52" by (intro agree_u32 [OF front]) (use lay in simp_all)
  then show "e ! j = e' ! j" if "j < length e" for j
    using that lay by (cases "j < 52") (simp_all add: agree_def)
qed

lemma slot_layout_not_zero: "slot_layout e c \<Longrightarrow> \<not> all_zero e"
  using get_le_all_zero [of e 0 4, where 'a = 32]
  by (auto simp: slot_layout_def le_defs kSegmentCommitMagic_def)

lemma all_zero_drop: "all_zero (drop n e) \<longleftrightarrow> (\<forall>j. n \<le> j \<and> j < length e \<longrightarrow> e ! j = 0)"
proof -
  have "all_zero (drop n e) \<longleftrightarrow> (\<forall>j < length e - n. e ! (n + j) = 0)"
    by (auto simp: all_zero_iff)
  also have "\<dots> \<longleftrightarrow> (\<forall>j. n \<le> j \<and> j < length e \<longrightarrow> e ! j = 0)" by (rule all_shift)
  finally show ?thesis .
qed

lemma decode_slot_layout:
  assumes "slot_layout e c"
  shows "decode_segment_commit_slot (e @ rest) =
    (if validate_commit c = ok then Inr \<lparr> dcs_validity = Slot_valid, dcs_commit = Some c \<rparr>
     else Inr invalid_slot)"
proof -
  note lay = assms [unfolded slot_layout_def]
  have t: "take 128 (e @ rest) = e" "\<not> length (e @ rest) < 128" using lay by simp_all
  have z: "all_zero (drop 52 e)" using lay by (simp add: all_zero_drop)
  show ?thesis
    using lay slot_layout_not_zero [OF assms] z
    unfolding decode_segment_commit_slot_def header_sizes t Let_def
    by (cases c) (auto split: sum.splits)
qed

lemma decode_slot_valid:
  assumes "decode_segment_commit_slot bs = Inr s" "dcs_validity s = Slot_valid"
  obtains c where "dcs_commit s = Some c" "slot_layout (take 128 bs) c" "validate_commit c = ok"
    "128 \<le> length bs"
proof -
  have "dcs_commit s = Some (the (dcs_commit s)) \<and> slot_layout (take 128 bs) (the (dcs_commit s))
      \<and> validate_commit (the (dcs_commit s)) = ok \<and> 128 \<le> length bs"
    using assms
    by (auto simp: decode_segment_commit_slot_def Let_def header_sizes empty_slot_def invalid_slot_def
        slot_layout_def all_zero_drop not_less split: if_splits sum.splits)
  then show thesis using that by blast
qed

lemma decode_slot_damaged:
  assumes lay: "slot_layout e c" and j: "j < 128" "b \<noteq> e ! j"
  shows "decode_segment_commit_slot (e[j := b]) = Inr invalid_slot"
proof -
  note l = lay [unfolded slot_layout_def le_defs]
  have "\<not> all_zero (e[j := b])"
  proof (cases "j < 4")
    case True
    then have "get_le 2 (e[j := b]) 6 = (128 :: u16)" using l by (simp add: get_le_update_frame)
    then show ?thesis using get_le_all_zero [of "e[j := b]" 6 2, where 'a = 16] l by auto
  next
    case False
    then have "get_le 4 (e[j := b]) 0 = kSegmentCommitMagic" using l by (simp add: get_le_update_frame)
    then show ?thesis
      using get_le_all_zero [of "e[j := b]" 0 4, where 'a = 32] l by (auto simp: kSegmentCommitMagic_def)
  qed
  moreover have "get_le 4 (e[j := b]) 48 \<noteq> checksum_with_zeroed_field 128 (e[j := b]) 48"
    by (rule checksum_field_update) (use l j in simp_all)
  ultimately show ?thesis
    using l by (simp add: decode_segment_commit_slot_def header_sizes le_defs Let_def)
qed

section \<open>The header\<close>

definition slot_bytes :: "segment_commit option \<Rightarrow> bytes" where
  "slot_bytes co = (case co of None \<Rightarrow> replicate 128 0 | Some c \<Rightarrow> write_commit_slot c)"

definition slot_view :: "segment_commit option \<Rightarrow> decoded_commit_slot" where
  "slot_view co =
     (case co of None \<Rightarrow> empty_slot | Some c \<Rightarrow> \<lparr> dcs_validity = Slot_valid, dcs_commit = Some c \<rparr>)"

lemma length_write_commit_slot [simp]: "length (write_commit_slot c) = 128"
  using write_commit_slot_layout [of c] by (simp add: slot_layout_def)

lemma length_slot_bytes [simp]: "length (slot_bytes co) = 128"
  by (simp add: slot_bytes_def split: option.split)

lemma decode_slot_bytes:
  "(\<And>c. co = Some c \<Longrightarrow> validate_commit c = ok) \<Longrightarrow>
   decode_segment_commit_slot (slot_bytes co) = Inr (slot_view co)"
  using decode_slot_layout [OF write_commit_slot_layout, of _ "[]"]
  by (cases co) (simp_all add: slot_bytes_def slot_view_def decode_segment_commit_slot_def header_sizes
      all_zero_iff)

lemma blit_whole: "length xs = length ys \<Longrightarrow> blit xs 0 ys = ys"
  by (simp add: blit_def)

lemma encode_slot_exact:
  "length out = 128 \<Longrightarrow> validate_commit c = ok \<Longrightarrow>
   encode_segment_commit_slot out c = (write_commit_slot c, ok)"
  by (simp add: encode_segment_commit_slot_def header_sizes blit_whole)

lemma encode_slot_fails:
  "length out = 128 \<Longrightarrow> validate_commit c = Inl err \<Longrightarrow>
   encode_segment_commit_slot out c = (out, Inl err)"
  by (simp add: encode_segment_commit_slot_def header_sizes)

lemma encode_commits_step:
  assumes "length e = 4096" "k < 2" "sub e (128 + k * 128) 128 = replicate 128 0"
    and "encode_commits ((k, co) # rest) e = Inr e'"
  shows "encode_commits rest (blit e (128 + k * 128) (slot_bytes co)) = Inr e'
       \<and> (\<forall>c. co = Some c \<longrightarrow> validate_commit c = ok)"
proof (cases co)
  case None
  have "blit e (128 + k * 128) (replicate 128 0) = e"
    using assms(1,2) nth_sub [of "128 + k * 128" 128 e] assms(3)
    by (intro nth_equalityI) (auto simp: nth_blit dest!: le_Suc_ex)
  then show ?thesis using None assms(4) by (simp add: slot_bytes_def)
next
  case (Some c)
  have "length (sub e (128 + k * 128) 128) = 128" using assms(1,2) by (intro length_sub) simp
  then show ?thesis
    using Some assms(4) encode_slot_exact [of _ c] encode_slot_fails [of _ c]
    by (cases "validate_commit c") (auto simp: header_sizes slot_bytes_def Let_def)
qed

lemma encode_commits_two:
  assumes e: "length e = 4096" "\<And>j. 128 \<le> j \<Longrightarrow> j < 4096 \<Longrightarrow> e ! j = 0"
    and enc: "encode_commits (enumerate 0 [c0, c1]) e = Inr e'"
  shows "e' = blit (blit e 128 (slot_bytes c0)) 256 (slot_bytes c1)"
    "c0 = Some c \<Longrightarrow> validate_commit c = ok" "c1 = Some c \<Longrightarrow> validate_commit c = ok"
proof -
  have z: "sub e p 128 = replicate 128 0" if "128 \<le> p" "p + 128 \<le> 4096" for p
    using that e by (intro nth_equalityI) (simp_all add: nth_sub)
  have s0: "encode_commits [(1, c1)] (blit e 128 (slot_bytes c0)) = Inr e'"
    "\<forall>c. c0 = Some c \<longrightarrow> validate_commit c = ok"
    using encode_commits_step [of e 0 c0 "[(1, c1)]" e'] e(1) z [of 128] enc by simp_all
  have "sub (blit e 128 (slot_bytes c0)) 256 128 = replicate 128 0"
    using e(1) z [of 256] by (simp add: sub_blit_frame)
  then have "encode_commits [] (blit (blit e 128 (slot_bytes c0)) 256 (slot_bytes c1)) = Inr e'
      \<and> (\<forall>c. c1 = Some c \<longrightarrow> validate_commit c = ok)"
    using encode_commits_step [of "blit e 128 (slot_bytes c0)" 1 c1 "[]" e'] e(1) s0(1) by simp
  then show "e' = blit (blit e 128 (slot_bytes c0)) 256 (slot_bytes c1)"
    "c0 = Some c \<Longrightarrow> validate_commit c = ok" "c1 = Some c \<Longrightarrow> validate_commit c = ok"
    using s0(2) by simp_all
qed

text \<open>The identity block, as a predicate of the first 128 bytes.\<close>

definition identity_layout :: "bytes \<Rightarrow> segment_header_identity \<Rightarrow> bool" where
  "identity_layout e i \<longleftrightarrow>
     get_u32 e 0 = kSegmentHeaderMagic \<and> get_u16 e 4 = kSegmentHeaderFormatVersion \<and> get_u16 e 6 = 128
   \<and> get_u16 e 8 = kSegmentFormatVersion \<and> get_u16 e 10 = kRecordFormatVersion \<and> get_u32 e 12 = 4096
   \<and> sub e 16 16 = shi_store_id i \<and> get_u64 e 32 = shi_segment_id i \<and> get_u32 e 40 = shi_generation i
   \<and> get_u32 e 44 = shi_owner_worker i \<and> get_u32 e 48 = 0
   \<and> get_u32 e 52 = checksum_with_zeroed_field 128 e 52
   \<and> (\<forall>j. 56 \<le> j \<and> j < 128 \<longrightarrow> e ! j = 0)"

lemma identity_layout_cong:
  assumes "128 \<le> length e" "128 \<le> length e'" "agree e e' 0 128"
  shows "identity_layout e i \<longleftrightarrow> identity_layout e' i"
proof -
  have g: "get_le n e p = get_le n e' p" if "p + n \<le> 128" for n p
    using that assms(3) by (intro get_le_cong) (simp add: agree_def)
  have "sub e 16 16 = sub e' 16 16"
    using assms by (intro nth_equalityI) (simp_all add: nth_sub agree_def)
  moreover have "checksum_with_zeroed_field 128 e 52 = checksum_with_zeroed_field 128 e' 52"
    using assms by (intro checksum_cong) (simp_all add: agree_def)
  ultimately show ?thesis using assms(3) by (simp add: identity_layout_def le_defs g agree_def)
qed

lemma length_write_identity [simp]:
  "length (shi_store_id i) = 16 \<Longrightarrow> length (write_identity i) = 4096"
  by (simp add: write_identity_def Let_def header_sizes)

lemma write_identity_zero:
  "length (shi_store_id i) = 16 \<Longrightarrow> 56 \<le> j \<Longrightarrow> j < 4096 \<Longrightarrow> write_identity i ! j = 0"
  by (simp add: write_identity_def Let_def header_sizes le_defs nth_put_le_frame nth_blit)

lemma write_identity_layout:
  assumes "length (shi_store_id i) = 16"
  shows "identity_layout (write_identity i) i"
proof -
  have "\<forall>j. 56 \<le> j \<and> j < 128 \<longrightarrow> write_identity i ! j = 0"
    using write_identity_zero [OF assms] by simp
  moreover have "sub (write_identity i) 16 16 = shi_store_id i"
    using assms sub_blit [of 16 "shi_store_id i"]
    by (simp add: write_identity_def Let_def header_sizes le_defs sub_put_le_frame sub_put_le_before)
  ultimately show ?thesis
    using assms unfolding identity_layout_def
    by (simp add: write_identity_def Let_def header_sizes le_defs get_put_le_frame get_put_le
        get_le_blit_frame checksum_put)
qed

text \<open>What the decoder does with a buffer whose identity block and reserved tail are intact.\<close>

lemma decode_header_layout:
  assumes "length e = 4096" "identity_layout e i" "validate_identity i = ok"
    and "\<And>j. 384 \<le> j \<Longrightarrow> j < 4096 \<Longrightarrow> e ! j = 0"
  shows "decode_segment_header (e @ rest) =
    bind_result (decode_segment_commit_slot (sub e 128 128)) (\<lambda>s0.
    bind_result (decode_segment_commit_slot (sub e 256 128)) (\<lambda>s1.
    Inr \<lparr> dsh_identity = i, dsh_slots = [s0, s1] \<rparr>))"
proof -
  have t: "take 4096 (e @ rest) = e" "\<not> length (e @ rest) < 4096" using assms(1) by simp_all
  have z: "all_zero (drop 384 e)" using assms(1,4) by (simp add: all_zero_drop)
  have z': "all_zero (sub e 56 72)"
    using assms(1,2) by (simp add: all_zero_iff nth_sub identity_layout_def)
  have i: "\<lparr> shi_store_id = shi_store_id i, shi_segment_id = shi_segment_id i,
      shi_generation = shi_generation i, shi_owner_worker = shi_owner_worker i \<rparr> = i"
    by simp
  have ix: "[0..<2] = [0, 1 :: nat]" by (simp add: upt_rec)
  show ?thesis
    using assms(1-3) z z' unfolding decode_segment_header_def header_sizes t Let_def identity_layout_def
    by (simp add: i ix Let_def header_sizes bind_result_def split: sum.split)
qed

definition header_image :: "segment_header_identity \<Rightarrow> segment_commit option \<Rightarrow> segment_commit option \<Rightarrow> bytes"
  where "header_image i c0 c1 =
    blit (blit (write_identity i) 128 (slot_bytes c0)) 256 (slot_bytes c1)"

lemma header_image_facts:
  assumes "length (shi_store_id i) = 16"
  shows "length (header_image i c0 c1) = 4096" "identity_layout (header_image i c0 c1) i"
    "384 \<le> j \<Longrightarrow> j < 4096 \<Longrightarrow> header_image i c0 c1 ! j = 0"
    "sub (header_image i c0 c1) 128 128 = slot_bytes c0"
    "sub (header_image i c0 c1) 256 128 = slot_bytes c1"
proof -
  note len = length_write_identity [OF assms]
  have s: "sub (blit e p ys) p 128 = ys" if "length ys = 128" "p + 128 \<le> length e" for e p and ys :: bytes
    using sub_blit [of p ys e] that by simp
  show "length (header_image i c0 c1) = 4096" by (simp add: header_image_def len)
  have "agree (header_image i c0 c1) (write_identity i) 0 128"
    by (simp add: header_image_def agree_def nth_blit len)
  then show "identity_layout (header_image i c0 c1) i"
    using write_identity_layout [OF assms] identity_layout_cong [of "header_image i c0 c1" "write_identity i"]
    by (simp add: header_image_def len)
  show "384 \<le> j \<Longrightarrow> j < 4096 \<Longrightarrow> header_image i c0 c1 ! j = 0"
    using write_identity_zero [OF assms] by (simp add: header_image_def nth_blit len)
  show "sub (header_image i c0 c1) 128 128 = slot_bytes c0"
    by (simp add: header_image_def sub_blit_frame len s)
  show "sub (header_image i c0 c1) 256 128 = slot_bytes c1"
    by (simp add: header_image_def len s)
qed

lemma encode_header_image:
  assumes "encode_segment_header out h = (out', ok)"
    and "length (shi_store_id (sh_identity h)) = 16" "sh_commits h = [c0, c1]"
  shows "out' = blit out 0 (header_image (sh_identity h) c0 c1)" "4096 \<le> length out"
    "validate_identity (sh_identity h) = ok"
    "c0 = Some c \<Longrightarrow> validate_commit c = ok" "c1 = Some c \<Longrightarrow> validate_commit c = ok"
proof -
  let ?i = "sh_identity h"
  from assms(1) have l: "4096 \<le> length out" and v: "validate_identity ?i = ok"
    by (auto simp: encode_segment_header_def header_sizes not_less split: if_splits sum.splits)
  from assms(1,3) obtain e where enc: "encode_commits (enumerate 0 [c0, c1]) (write_identity ?i) = Inr e"
    and out: "out' = blit out 0 e"
    by (auto simp: encode_segment_header_def header_sizes split: if_splits sum.splits)
  note two = encode_commits_two [OF _ _ enc]
  show "out' = blit out 0 (header_image ?i c0 c1)"
    using two(1) assms(2) write_identity_zero by (simp add: out header_image_def)
  show "c0 = Some c \<Longrightarrow> validate_commit c = ok" "c1 = Some c \<Longrightarrow> validate_commit c = ok"
    using two(2,3) assms(2) write_identity_zero by simp_all
  show "4096 \<le> length out" "validate_identity ?i = ok" by (fact l, fact v)
qed

lemma blit_front: "length ys \<le> length xs \<Longrightarrow> blit xs 0 ys = ys @ drop (length ys) xs"
  by (simp add: blit_def)

lemma decode_header_image:
  assumes "length (shi_store_id i) = 16" "validate_identity i = ok"
    and "\<And>c. c0 = Some c \<Longrightarrow> validate_commit c = ok" "\<And>c. c1 = Some c \<Longrightarrow> validate_commit c = ok"
  shows "decode_segment_header (header_image i c0 c1 @ rest) =
           Inr \<lparr> dsh_identity = i, dsh_slots = [slot_view c0, slot_view c1] \<rparr>"
  using decode_header_layout [of "header_image i c0 c1" i rest] header_image_facts [OF assms(1), where ?c0.0 = c0 and ?c1.0 = c1]
    decode_slot_bytes [of c0] decode_slot_bytes [of c1] assms(2-4)
  by simp

text \<open>
  C20.  Whatever header \<open>encode_segment_header\<close> writes, \<open>decode_segment_header\<close> reads back:
  the identity, and each commit slot as empty or as the valid commit that was written.
\<close>

theorem segment_header_roundtrip:
  assumes "encode_segment_header out h = (out', ok)"
    and "length (shi_store_id (sh_identity h)) = 16" "sh_commits h = [c0, c1]"
  shows "decode_segment_header out' =
           Inr \<lparr> dsh_identity = sh_identity h, dsh_slots = [slot_view c0, slot_view c1] \<rparr>"
  using encode_header_image [OF assms] header_image_facts(1) [OF assms(2), where ?c0.0 = c0 and ?c1.0 = c1]
  by (simp add: blit_front decode_header_image assms(2))

definition example_commit :: "u64 \<Rightarrow> segment_commit" where
  "example_commit g = \<lparr> sc_commit_generation = g, sc_committed_end = 4160, sc_state = persisted_active,
     sc_record_count = 1, sc_first_sequence = 1, sc_last_sequence = 1 \<rparr>"

definition example_identity :: segment_header_identity where
  "example_identity = \<lparr> shi_store_id = replicate 16 7, shi_segment_id = 1, shi_generation = 1,
     shi_owner_worker = 0 \<rparr>"

lemma example_commit_valid: "g \<noteq> 0 \<Longrightarrow> validate_commit (example_commit g) = ok"
  by (simp add: validate_commit_def example_commit_def header_sizes record_consts persisted_active_def)

lemma example_identity_valid:
  "validate_identity example_identity = ok" "length (shi_store_id example_identity) = 16"
  by (simp_all add: validate_identity_def example_identity_def all_zero_iff exI [of _ 0])

lemma encode_header_exists:
  assumes "4096 \<le> length out" "length (shi_store_id i) = 16" "validate_identity i = ok"
    and "validate_commit a = ok" "validate_commit b = ok"
    and "sc_commit_generation a \<noteq> sc_commit_generation b"
  shows "\<exists>out'. encode_segment_header out \<lparr> sh_identity = i, sh_commits = [Some a, Some b] \<rparr> = (out', ok)"
  using assms length_write_identity [OF assms(2)]
  by (simp add: encode_segment_header_def commits_conflict_def header_sizes Let_def encode_slot_exact)

theorem segment_header_roundtrip_witness:
  "\<exists>out'. decode_segment_header out' =
     Inr \<lparr> dsh_identity = example_identity,
           dsh_slots = [slot_view (Some (example_commit 1)), slot_view (Some (example_commit 2))] \<rparr>"
proof -
  obtain out' where "encode_segment_header (replicate 4096 0)
      \<lparr> sh_identity = example_identity, sh_commits = [Some (example_commit 1), Some (example_commit 2)] \<rparr>
      = (out', ok)"
    using encode_header_exists [of "replicate 4096 0" example_identity "example_commit 1" "example_commit 2"]
      example_identity_valid example_commit_valid
    by (auto simp: example_commit_def)
  from segment_header_roundtrip [OF this] example_identity_valid show ?thesis by auto
qed

section \<open>Selecting the newest commit\<close>

definition live_commit :: "decoded_commit_slot \<Rightarrow> segment_commit option" where
  "live_commit s = (if dcs_validity s = Slot_valid then dcs_commit s else None)"

lemma select_two:
  "select_newest_segment_commit \<lparr> dsh_identity = i, dsh_slots = [s0, s1] \<rparr> =
     (case (live_commit s0, live_commit s1) of
        (None, None) \<Rightarrow> fail Corrupted_data
      | (Some a, None) \<Rightarrow> Inr \<lparr> ssc_slot_index = 0, ssc_commit = a \<rparr>
      | (None, Some b) \<Rightarrow> Inr \<lparr> ssc_slot_index = 1, ssc_commit = b \<rparr>
      | (Some a, Some b) \<Rightarrow>
          if sc_commit_generation b > sc_commit_generation a
          then Inr \<lparr> ssc_slot_index = 1, ssc_commit = b \<rparr>
          else if sc_commit_generation b = sc_commit_generation a \<and> b \<noteq> a then fail Corrupted_data
          else Inr \<lparr> ssc_slot_index = 0, ssc_commit = a \<rparr>)"
  by (cases "dcs_validity s0 = Slot_valid"; cases "dcs_validity s1 = Slot_valid";
      cases "dcs_commit s0"; cases "dcs_commit s1")
    (simp_all add: select_newest_segment_commit_def live_commit_def)

lemma live_slot_view [simp]: "live_commit (slot_view co) = co" "live_commit invalid_slot = None"
  by (cases co) (simp_all add: live_commit_def slot_view_def empty_slot_def invalid_slot_def)

definition live_slots :: "decoded_commit_slot \<Rightarrow> decoded_commit_slot \<Rightarrow> (nat \<times> segment_commit) set" where
  "live_slots s0 s1 =
     {(k, c). k = 0 \<and> live_commit s0 = Some c} \<union> {(k, c). k = 1 \<and> live_commit s1 = Some c}"

definition slots_conflict :: "decoded_commit_slot \<Rightarrow> decoded_commit_slot \<Rightarrow> bool" where
  "slots_conflict s0 s1 \<longleftrightarrow>
     (\<exists>a b. live_commit s0 = Some a \<and> live_commit s1 = Some b
          \<and> sc_commit_generation a = sc_commit_generation b \<and> a \<noteq> b)"

text \<open>
  C21.  \<open>select_newest_segment_commit\<close> returns a valid commit of one of the two slots whose
  generation is the greatest, and it returns one exactly when there is a valid commit and no
  two valid commits carry the same generation with different contents.
\<close>

theorem select_newest_correct:
  "case select_newest_segment_commit \<lparr> dsh_identity = i, dsh_slots = [s0, s1] \<rparr> of
     Inr t \<Rightarrow> (ssc_slot_index t, ssc_commit t) \<in> live_slots s0 s1 \<and> \<not> slots_conflict s0 s1
             \<and> (sc_commit_generation \<circ> snd) ` live_slots s0 s1 \<subseteq> {..sc_commit_generation (ssc_commit t)}
   | Inl e \<Rightarrow> e = Corrupted_data \<and> (live_slots s0 s1 = {} \<or> slots_conflict s0 s1)"
  unfolding select_two
  by (cases "live_commit s0"; cases "live_commit s1")
    (auto simp: live_slots_def slots_conflict_def not_less)

section \<open>Damage to one slot\<close>

lemma image_update_slot:
  assumes "length e = 4096" "k < 2" "j < 128"
  shows "sub (e[128 + 128 * k + j := b]) (128 + 128 * k) 128 = (sub e (128 + 128 * k) 128)[j := b]"
    and "sub (e[128 + 128 * k + j := b]) (128 + 128 * (1 - k)) 128 = sub e (128 + 128 * (1 - k)) 128"
proof -
  have "k = 0 \<or> k = 1" using assms(2) by linarith
  then show "sub (e[128 + 128 * k + j := b]) (128 + 128 * k) 128 = (sub e (128 + 128 * k) 128)[j := b]"
    "sub (e[128 + 128 * k + j := b]) (128 + 128 * (1 - k)) 128 = sub e (128 + 128 * (1 - k)) 128"
    using assms(1,3) by (elim disjE; auto intro!: nth_equalityI simp: nth_sub nth_update)+
qed

lemma decode_header_damaged:
  assumes id: "length (shi_store_id i) = 16" "validate_identity i = ok"
    and v: "validate_commit a = ok" "validate_commit b = ok"
    and k: "k < 2" "j < 128"
  defines "e \<equiv> header_image i (Some a) (Some b)"
  assumes byte: "x \<noteq> e ! (128 + 128 * k + j)"
  shows "decode_segment_header (e[128 + 128 * k + j := x] @ rest) =
    Inr \<lparr> dsh_identity = i,
          dsh_slots = (if k = 0 then [invalid_slot, slot_view (Some b)]
                       else [slot_view (Some a), invalid_slot]) \<rparr>"
proof -
  let ?p = "128 + 128 * k + j" and ?e = "e[128 + 128 * k + j := x]"
  note img = header_image_facts [OF id(1), where ?c0.0 = "Some a" and ?c1.0 = "Some b", folded e_def]
  have p: "128 \<le> ?p" "?p < 384" using k by simp_all
  have "agree ?e e 0 128" using p by (simp add: agree_def nth_update)
  then have lay: "identity_layout ?e i"
    using identity_layout_cong [of ?e e i] img(1,2) by simp
  have tail: "384 \<le> q \<Longrightarrow> q < 4096 \<Longrightarrow> ?e ! q = 0" for q
    using p img(3) by (simp add: nth_update)
  have dam: "decode_segment_commit_slot ((slot_bytes (Some c))[j := y]) = Inr invalid_slot"
    if "y \<noteq> slot_bytes (Some c) ! j" for c y
    using decode_slot_damaged [OF write_commit_slot_layout] that k by (simp add: slot_bytes_def)
  have at: "e ! ?p = sub e (128 + 128 * k) 128 ! j" using k img(1) by (simp add: nth_sub)
  note upd = image_update_slot [OF img(1) k, of x]
  show ?thesis
  proof (cases "k = 0")
    case True
    then show ?thesis
      using decode_header_layout [of ?e i rest] lay tail img(1) id(2) upd byte at dam [of x a]
        decode_slot_bytes [of "Some b"] v by (simp add: img(4,5))
  next
    case False
    then have "k = 1" using k by simp
    then show ?thesis
      using decode_header_layout [of ?e i rest] lay tail img(1) id(2) upd byte at dam [of x b]
        decode_slot_bytes [of "Some a"] v by (simp add: img(4,5))
  qed
qed

text \<open>
  C22.  Damage to the commit slot being rewritten does not lose the segment: in a header that
  was written with two commits, any wrong byte inside either slot makes that slot invalid and
  \<open>select_newest_segment_commit\<close> returns the commit of the other slot.
\<close>

theorem commit_slot_damage_tolerated:
  assumes "encode_segment_header out \<lparr> sh_identity = i, sh_commits = [Some a, Some b] \<rparr> = (out', ok)"
    and "length (shi_store_id i) = 16" "k < 2" "j < 128" "x \<noteq> out' ! (128 + 128 * k + j)"
  shows "\<exists>h. decode_segment_header (out'[128 + 128 * k + j := x]) = Inr h
       \<and> dsh_identity h = i \<and> dsh_slots h ! k = invalid_slot
       \<and> select_newest_segment_commit h =
           Inr \<lparr> ssc_slot_index = 1 - k, ssc_commit = (if k = 0 then b else a) \<rparr>"
proof -
  let ?e = "header_image i (Some a) (Some b)" and ?p = "128 + 128 * k + j"
  note enc = encode_header_image [OF assms(1), where ?c0.0 = "Some a" and ?c1.0 = "Some b", simplified,
      OF assms(2)]
  have valid: "validate_identity i = ok" "validate_commit a = ok" "validate_commit b = ok"
    using enc(3-5) by simp_all
  note len = header_image_facts(1) [OF assms(2), where ?c0.0 = "Some a" and ?c1.0 = "Some b"]
  have out: "out' = ?e @ drop 4096 out" using enc(1,2) len by (simp add: blit_front)
  have p: "?p < length ?e" using assms(3,4) len by simp
  have "x \<noteq> ?e ! ?p" using assms(5) p by (simp add: out nth_append)
  from decode_header_damaged [OF assms(2) valid assms(3,4) this, of "drop 4096 out"]
  have dec: "decode_segment_header (out'[?p := x]) = Inr \<lparr> dsh_identity = i,
      dsh_slots = (if k = 0 then [invalid_slot, slot_view (Some b)] else [slot_view (Some a), invalid_slot]) \<rparr>"
    using p by (simp add: out list_update_append)
  show ?thesis
  proof (cases "k = 0")
    case True then show ?thesis using dec by (simp add: select_two)
  next
    case False
    then have "k = 1" using assms(3) by simp
    then show ?thesis using dec by (simp add: select_two)
  qed
qed

theorem commit_slot_damage_tolerated_witness:
  "\<exists>bs h. decode_segment_header bs = Inr h \<and> dsh_identity h = example_identity
     \<and> select_newest_segment_commit h = Inr \<lparr> ssc_slot_index = 0, ssc_commit = example_commit 1 \<rparr>"
proof -
  obtain out' where "encode_segment_header (replicate 4096 0)
      \<lparr> sh_identity = example_identity, sh_commits = [Some (example_commit 1), Some (example_commit 2)] \<rparr>
      = (out', ok)"
    using encode_header_exists [of "replicate 4096 0" example_identity "example_commit 1" "example_commit 2"]
      example_identity_valid example_commit_valid
    by (auto simp: example_commit_def)
  from commit_slot_damage_tolerated [OF this example_identity_valid(2), of 1 3 "out' ! 259 + 1"]
  show ?thesis by auto
qed

end
