(* ===== verification/Manifest.thy ===== *)
theory Manifest
  imports Segment_Header Key_Hash Codec
begin

text \<open>
  The manifest, the durable catalog of a store: \<open>src/include/glifistore/persistence/manifest.hpp\<close> and
  \<open>src/src/persistence/manifest.cpp\<close>.  A header of 128 bytes is followed by one entry of 32 bytes per
  segment; a checksum covers the whole image.  The enums \<open>RoutingAlgorithm\<close> and
  \<open>ManifestSegmentRole\<close> are cast from the integers read, so they are words here and the validation
  decides which values are enumerators.  A \<open>StoreId\<close> is an array of sixteen bytes.
\<close>

section \<open>Types and constants\<close>

definition kManifestMagic :: u32 where "kManifestMagic = 0x4D594C47"
definition kManifestFormatVersion :: u16 where "kManifestFormatVersion = 1"
definition kManifestHeaderBytes :: nat where "kManifestHeaderBytes = 128"
definition kManifestSegmentEntryBytes :: nat where "kManifestSegmentEntryBytes = 32"
definition kMaximumManifestSegmentCount :: nat where "kMaximumManifestSegmentCount = 1000000"
definition kManifestWorkerHashSeedOffset :: nat where "kManifestWorkerHashSeedOffset = 84"
definition kManifestChecksumOffset :: nat where "kManifestChecksumOffset = 80"
definition kMaximumWorkerCount :: nat where "kMaximumWorkerCount = 256"

lemmas manifest_sizes = kManifestHeaderBytes_def kManifestSegmentEntryBytes_def
  kMaximumManifestSegmentCount_def kManifestWorkerHashSeedOffset_def kManifestChecksumOffset_def
  kMaximumWorkerCount_def

definition role_active :: u16 where "role_active = 1"
definition role_sealed :: u16 where "role_sealed = 2"

record manifest_segment_entry =
  mse_segment_id :: u64
  mse_generation :: u32
  mse_owner_worker :: u32
  mse_role :: u16

record manifest =
  mf_store_id :: bytes
  mf_manifest_generation :: u64
  mf_routing_algorithm :: routing_algorithm
  mf_worker_count :: u32
  mf_routing_epoch :: u64
  mf_worker_hash_seed :: u64
  mf_next_segment_id :: u64
  mf_next_segment_generation :: u32
  mf_segments :: "manifest_segment_entry list"

definition worker_routing :: "manifest \<Rightarrow> worker_routing_state" where
  "worker_routing m = \<lparr> algorithm = mf_routing_algorithm m, seed = mf_worker_hash_seed m \<rparr>"

record selected_manifest =
  sm_candidate_index :: nat
  sm_manifest_generation :: u64

section \<open>Operations\<close>

definition checksum_manifest :: "bytes \<Rightarrow> u32" where
  "checksum_manifest bytes = checksum_with_zeroed_field (length bytes) bytes kManifestChecksumOffset"

definition manifest_size_for_count :: "nat \<Rightarrow> nat result" where
  "manifest_size_for_count segment_count =
     (if segment_count > kMaximumManifestSegmentCount then fail Invalid_argument
      else if segment_count > (0xFFFFFFFFFFFFFFFF - kManifestHeaderBytes) div kManifestSegmentEntryBytes
      then fail Arithmetic_overflow
      else
        let encoded_size = kManifestHeaderBytes + segment_count * kManifestSegmentEntryBytes in
        if encoded_size > 0xFFFFFFFF then fail Arithmetic_overflow else Inr encoded_size)"

text \<open>The loop of \<open>validate_manifest\<close>, with the workers that have an active segment so far.\<close>

fun check_entries :: "error_code \<Rightarrow> u32 \<Rightarrow> bool list \<Rightarrow> u64 \<Rightarrow> manifest_segment_entry list \<Rightarrow> bool list result" where
  "check_entries e worker_count active_workers previous_id [] = Inr active_workers"
| "check_entries e worker_count active_workers previous_id (segment # rest) =
     (if mse_segment_id segment = 0 \<or> mse_generation segment = 0 then fail e
      else if mse_segment_id segment \<le> previous_id then fail e
      else if mse_owner_worker segment \<ge> worker_count then fail e
      else if mse_role segment \<noteq> role_active \<and> mse_role segment \<noteq> role_sealed then fail e
      else if mse_role segment = role_active then
        (if active_workers ! unat (mse_owner_worker segment) then fail e
         else check_entries e worker_count (active_workers[unat (mse_owner_worker segment) := True])
                (mse_segment_id segment) rest)
      else check_entries e worker_count active_workers (mse_segment_id segment) rest)"

definition validate_manifest :: "manifest \<Rightarrow> error_code \<Rightarrow> status" where
  "validate_manifest m e =
     (if all_zero (mf_store_id m) then fail e
      else if mf_manifest_generation m = 0 then fail e
      else if validate_worker_routing_state (worker_routing m) \<noteq> ok then fail e
      else if mf_worker_count m = 0 \<or> unat (mf_worker_count m) > kMaximumWorkerCount then fail e
      else if mf_routing_epoch m = 0 then fail e
      else if mf_next_segment_id m = 0 \<or> mf_next_segment_generation m = 0 then fail e
      else if length (mf_segments m) > kMaximumManifestSegmentCount then fail e
      else
        bind_result (check_entries e (mf_worker_count m) (replicate (unat (mf_worker_count m)) False) 0
                       (mf_segments m)) (\<lambda>active_workers.
        if \<not> list_all (\<lambda>active. active) active_workers then fail e
        else if mf_segments m \<noteq> [] \<and> mf_next_segment_id m \<le> mse_segment_id (last (mf_segments m))
        then fail e else ok))"

definition encoded_manifest_size :: "manifest \<Rightarrow> nat result" where
  "encoded_manifest_size m =
     bind_result (validate_manifest m Invalid_argument) (\<lambda>_. manifest_size_for_count (length (mf_segments m)))"

fun write_entries :: "nat \<Rightarrow> manifest_segment_entry list \<Rightarrow> bytes \<Rightarrow> bytes" where
  "write_entries index [] encoded = encoded"
| "write_entries index (segment # rest) encoded =
     (let offset = kManifestHeaderBytes + index * kManifestSegmentEntryBytes;
          encoded = put_u64 encoded offset (mse_segment_id segment);
          encoded = put_u32 encoded (offset + 8) (mse_generation segment);
          encoded = put_u32 encoded (offset + 12) (mse_owner_worker segment);
          encoded = put_u16 encoded (offset + 16) (mse_role segment);
          encoded = put_u16 encoded (offset + 18) 0
      in write_entries (Suc index) rest encoded)"

definition write_manifest_header :: "manifest \<Rightarrow> nat \<Rightarrow> bytes" where
  "write_manifest_header m encoded_size =
     (let encoded = replicate encoded_size 0;
          encoded = put_u32 encoded 0 kManifestMagic;
          encoded = put_u16 encoded 4 kManifestFormatVersion;
          encoded = put_u16 encoded 6 (of_nat kManifestHeaderBytes);
          encoded = put_u32 encoded 8 (of_nat encoded_size);
          encoded = put_u16 encoded 12 (of_nat kManifestSegmentEntryBytes);
          encoded = put_u16 encoded 14 0;
          encoded = blit encoded 16 (mf_store_id m);
          encoded = put_u64 encoded 32 (mf_manifest_generation m);
          encoded = put_u32 encoded 40 (mf_routing_algorithm m);
          encoded = put_u32 encoded 44 (mf_worker_count m);
          encoded = put_u64 encoded 48 (mf_routing_epoch m);
          encoded = put_u32 encoded 56 (of_nat (length (mf_segments m)));
          encoded = put_u16 encoded 60 kSegmentFormatVersion;
          encoded = put_u16 encoded 62 kRecordFormatVersion;
          encoded = put_u16 encoded 64 kSegmentHeaderFormatVersion;
          encoded = put_u16 encoded 66 kSegmentCommitFormatVersion;
          encoded = put_u64 encoded 68 (mf_next_segment_id m);
          encoded = put_u32 encoded 76 (mf_next_segment_generation m);
          encoded = put_u64 encoded kManifestWorkerHashSeedOffset (mf_worker_hash_seed m)
      in put_u32 encoded kManifestChecksumOffset 0)"

definition write_manifest :: "manifest \<Rightarrow> nat \<Rightarrow> bytes" where
  "write_manifest m encoded_size =
     (let encoded = write_entries 0 (mf_segments m) (write_manifest_header m encoded_size)
      in put_u32 encoded kManifestChecksumOffset (checksum_manifest encoded))"

definition encode_manifest_into :: "bytes \<Rightarrow> manifest \<Rightarrow> bytes \<times> status" where
  "encode_manifest_into out m =
     (case encoded_manifest_size m of
        Inl e \<Rightarrow> (out, Inl e)
      | Inr encoded_size \<Rightarrow>
          if length out < encoded_size then (out, fail Invalid_argument)
          else (blit out 0 (write_manifest m encoded_size), ok))"

definition encode_manifest :: "manifest \<Rightarrow> bytes result" where
  "encode_manifest m =
     bind_result (encoded_manifest_size m) (\<lambda>encoded_size.
       case encode_manifest_into (replicate encoded_size 0) m of
         (encoded, Inl e) \<Rightarrow> Inl e
       | (encoded, Inr _) \<Rightarrow> Inr encoded)"

fun decode_entries :: "bytes \<Rightarrow> nat \<Rightarrow> nat \<Rightarrow> manifest_segment_entry list result" where
  "decode_entries bytes index 0 = Inr []"
| "decode_entries bytes index (Suc n) =
     (let offset = kManifestHeaderBytes + index * kManifestSegmentEntryBytes in
      if get_u16 bytes (offset + 18) \<noteq> 0 \<or> \<not> all_zero (sub bytes (offset + 20) (kManifestSegmentEntryBytes - 20))
      then fail Invalid_record
      else
        bind_result (decode_entries bytes (Suc index) n) (\<lambda>rest.
          Inr (\<lparr> mse_segment_id = get_u64 bytes offset, mse_generation = get_u32 bytes (offset + 8),
                 mse_owner_worker = get_u32 bytes (offset + 12), mse_role = get_u16 bytes (offset + 16) \<rparr> # rest)))"

definition decode_manifest :: "bytes \<Rightarrow> manifest result" where
  "decode_manifest bytes =
     (if length bytes < kManifestHeaderBytes then fail Invalid_record
      else if get_u32 bytes 0 \<noteq> kManifestMagic \<or> get_u16 bytes 4 \<noteq> kManifestFormatVersion
              \<or> unat (get_u16 bytes 6) \<noteq> kManifestHeaderBytes
              \<or> unat (get_u16 bytes 12) \<noteq> kManifestSegmentEntryBytes \<or> get_u16 bytes 14 \<noteq> 0
              \<or> get_u16 bytes 60 \<noteq> kSegmentFormatVersion \<or> get_u16 bytes 62 \<noteq> kRecordFormatVersion
              \<or> get_u16 bytes 64 \<noteq> kSegmentHeaderFormatVersion
              \<or> get_u16 bytes 66 \<noteq> kSegmentCommitFormatVersion
              \<or> \<not> all_zero (sub bytes (kManifestWorkerHashSeedOffset + 8) (44 - 8))
      then fail Invalid_record
      else
        let segment_count = unat (get_u32 bytes 56) in
        (case manifest_size_for_count segment_count of
           Inl _ \<Rightarrow> fail Invalid_record
         | Inr expected_size \<Rightarrow>
             if unat (get_u32 bytes 8) \<noteq> expected_size \<or> length bytes \<noteq> expected_size then fail Invalid_record
             else if get_u32 bytes kManifestChecksumOffset \<noteq> checksum_manifest bytes
             then fail Checksum_mismatch
             else
               bind_result (decode_entries bytes 0 segment_count) (\<lambda>segments.
                 let m = \<lparr> mf_store_id = sub bytes 16 16, mf_manifest_generation = get_u64 bytes 32,
                           mf_routing_algorithm = get_u32 bytes 40, mf_worker_count = get_u32 bytes 44,
                           mf_routing_epoch = get_u64 bytes 48,
                           mf_worker_hash_seed = get_u64 bytes kManifestWorkerHashSeedOffset,
                           mf_next_segment_id = get_u64 bytes 68,
                           mf_next_segment_generation = get_u32 bytes 76, mf_segments = segments \<rparr>
                 in bind_result (validate_manifest m Corrupted_data) (\<lambda>_. Inr m))))"

text \<open>The loop of \<open>select_newest_manifest\<close> from candidate \<open>index\<close> on; \<open>candidates\<close> is the whole list.\<close>

fun select_manifest_loop :: "manifest list \<Rightarrow> nat \<Rightarrow> manifest list \<Rightarrow> selected_manifest \<Rightarrow> selected_manifest result" where
  "select_manifest_loop candidates index [] selected = Inr selected"
| "select_manifest_loop candidates index (candidate # rest) selected =
     bind_result (validate_manifest candidate Corrupted_data) (\<lambda>_.
       if mf_manifest_generation candidate > sm_manifest_generation selected
       then select_manifest_loop candidates (Suc index) rest
              \<lparr> sm_candidate_index = index, sm_manifest_generation = mf_manifest_generation candidate \<rparr>
       else if mf_manifest_generation candidate = sm_manifest_generation selected
               \<and> candidate \<noteq> candidates ! sm_candidate_index selected
       then fail Corrupted_data
       else select_manifest_loop candidates (Suc index) rest selected)"

definition select_newest_manifest :: "manifest list \<Rightarrow> selected_manifest result" where
  "select_newest_manifest candidates =
     (case candidates of
        [] \<Rightarrow> fail Invalid_argument
      | front # rest \<Rightarrow>
          bind_result (validate_manifest front Corrupted_data) (\<lambda>_.
            select_manifest_loop candidates 1 rest
              \<lparr> sm_candidate_index = 0, sm_manifest_generation = mf_manifest_generation front \<rparr>))"

section \<open>What a valid manifest is\<close>

text \<open>The catalog the validation accepts, as a predicate.\<close>

definition active_owners :: "manifest_segment_entry list \<Rightarrow> u32 list" where
  "active_owners segs = map mse_owner_worker (filter (\<lambda>s. mse_role s = role_active) segs)"

definition catalog_ok :: "u32 \<Rightarrow> manifest_segment_entry list \<Rightarrow> bool" where
  "catalog_ok wc segs \<longleftrightarrow>
     sorted_wrt (<) (0 # map mse_segment_id segs)
   \<and> (\<forall>s \<in> set segs. mse_generation s \<noteq> 0 \<and> mse_owner_worker s < wc
        \<and> (mse_role s = role_active \<or> mse_role s = role_sealed))
   \<and> distinct (active_owners segs) \<and> set (active_owners segs) = {ow. ow < wc}"

definition manifest_ok :: "manifest \<Rightarrow> bool" where
  "manifest_ok m \<longleftrightarrow>
     \<not> all_zero (mf_store_id m) \<and> mf_manifest_generation m \<noteq> 0
   \<and> validate_worker_routing_state (worker_routing m) = ok
   \<and> mf_worker_count m \<noteq> 0 \<and> unat (mf_worker_count m) \<le> 256 \<and> mf_routing_epoch m \<noteq> 0
   \<and> mf_next_segment_id m \<noteq> 0 \<and> mf_next_segment_generation m \<noteq> 0 \<and> length (mf_segments m) \<le> 1000000
   \<and> catalog_ok (mf_worker_count m) (mf_segments m)
   \<and> (\<forall>s \<in> set (mf_segments m). mse_segment_id s < mf_next_segment_id m)"

definition mark_owners :: "u32 list \<Rightarrow> bool list \<Rightarrow> bool list" where
  "mark_owners os act = fold (\<lambda>ow act. act[unat ow := True]) os act"

lemma mark_owners_simps [simp]:
  "mark_owners [] act = act" "mark_owners (ow # os) act = mark_owners os (act[unat ow := True])"
  by (simp_all add: mark_owners_def)

lemma length_mark_owners [simp]: "length (mark_owners os act) = length act"
  by (induction os arbitrary: act) simp_all

lemma nth_mark_owners:
  "i < length act \<Longrightarrow> mark_owners os act ! i \<longleftrightarrow> act ! i \<or> i \<in> unat ` set os"
  by (induction os arbitrary: act) (auto simp: nth_update)

lemma active_owners_simps [simp]:
  "active_owners [] = []"
  "active_owners (s # segs) = (if mse_role s = role_active then mse_owner_worker s # active_owners segs else active_owners segs)"
  by (simp_all add: active_owners_def)

lemma sorted_wrt_Cons2: "sorted_wrt (<) (a # b # xs) \<longleftrightarrow> a < b \<and> sorted_wrt (<) (b # xs)" for a b :: "'a::order"
  by (auto intro: less_trans)

lemma check_entries_Inr:
  "length act = unat wc \<Longrightarrow>
   check_entries e wc act prev segs = Inr act' \<longleftrightarrow>
     sorted_wrt (<) (prev # map mse_segment_id segs)
   \<and> (\<forall>s \<in> set segs. mse_generation s \<noteq> 0 \<and> mse_owner_worker s < wc
        \<and> (mse_role s = role_active \<or> mse_role s = role_sealed))
   \<and> distinct (active_owners segs) \<and> (\<forall>ow \<in> set (active_owners segs). \<not> act ! unat ow)
   \<and> act' = mark_owners (active_owners segs) act"
proof (induction segs arbitrary: act prev)
  case Nil
  then show ?case by auto
next
  case (Cons s segs)
  let ?o = "mse_owner_worker s"
  have pos: "prev < mse_segment_id s \<Longrightarrow> mse_segment_id s \<noteq> 0" by (auto simp: word_less_nat_alt)
  show ?case
  proof (cases "mse_generation s \<noteq> 0 \<and> prev < mse_segment_id s \<and> ?o < wc
      \<and> (mse_role s = role_active \<or> mse_role s = role_sealed)")
    case False
    then show ?thesis by (auto simp: not_less role_active_def role_sealed_def simp del: sorted_wrt.simps(2) simp: sorted_wrt_Cons2)
  next
    case True
    then have o: "unat ?o < length act" using Cons.prems by (simp add: word_less_nat_alt)
    have other: "(act[unat ?o := True]) ! unat x \<longleftrightarrow> x = ?o \<or> act ! unat x" if "unat x < length act" for x
      using that by (auto simp: nth_update word_unat_eq_iff)
    show ?thesis
    proof (cases "mse_role s = role_active")
      case act: True
      have lt: "unat x < length act" if "x \<in> set (active_owners segs)" "\<forall>s \<in> set segs. mse_owner_worker s < wc" for x
        using that Cons.prems by (auto simp: active_owners_def word_less_nat_alt)
      show ?thesis
        using True act o other lt pos Cons.IH [of "act[unat ?o := True]" "mse_segment_id s"] Cons.prems
        by (auto simp: sorted_wrt_Cons2 not_le simp del: sorted_wrt.simps(2))
    next
      case sealed: False
      then show ?thesis
        using True pos Cons.IH [of act "mse_segment_id s"] Cons.prems
        by (auto simp: sorted_wrt_Cons2 not_le simp del: sorted_wrt.simps(2))
    qed
  qed
qed

lemma all_marked:
  assumes "\<forall>ow \<in> set os. ow < wc"
  shows "list_all (\<lambda>a. a) (mark_owners os (replicate (unat wc) False)) \<longleftrightarrow> set os = {ow. ow < wc}"
proof
  assume l: "list_all (\<lambda>a. a) (mark_owners os (replicate (unat wc) False))"
  have "ow \<in> set os" if "ow < wc" for ow
  proof -
    have i: "unat ow < unat wc" using that by (simp add: word_less_nat_alt)
    then have "mark_owners os (replicate (unat wc) False) ! unat ow" using l by (simp add: list_all_length)
    then show ?thesis using nth_mark_owners [of "unat ow" "replicate (unat wc) False" os] i by (auto simp flip: word_unat_eq_iff)
  qed
  then show "set os = {ow. ow < wc}" using assms by auto
next
  assume s: "set os = {ow. ow < wc}"
  have "mark_owners os (replicate (unat wc) False) ! i" if i: "i < unat wc" for i
  proof -
    have u: "unat (of_nat i :: u32) = i" using i unat_u32_bound [of wc] by (simp add: unat_of_nat_32)
    then have "(of_nat i :: u32) \<in> set os" using s i by (simp add: word_less_nat_alt)
    then have "i \<in> unat ` set os" using u by force
    then show ?thesis using nth_mark_owners [of i "replicate (unat wc) False" os] i by simp
  qed
  then show "list_all (\<lambda>a. a) (mark_owners os (replicate (unat wc) False))" by (simp add: list_all_length)
qed

lemma catalog_checked:
  "(\<exists>act. check_entries e wc (replicate (unat wc) False) 0 segs = Inr act \<and> list_all (\<lambda>a. a) act) \<longleftrightarrow> catalog_ok wc segs"
proof -
  have r: "\<not> replicate (unat wc) False ! unat (mse_owner_worker s)" if "mse_owner_worker s < wc" for s
    using that by (simp add: word_less_nat_alt)
  have os: "\<forall>s \<in> set segs. mse_owner_worker s < wc \<Longrightarrow> \<forall>ow \<in> set (active_owners segs). ow < wc \<and> \<not> replicate (unat wc) False ! unat ow"
    using r by (auto simp: active_owners_def)
  have len: "length (replicate (unat wc) False) = unat wc" by simp
  note iff = check_entries_Inr [OF len, of e 0 segs]
  show ?thesis
  proof
    assume "\<exists>act. check_entries e wc (replicate (unat wc) False) 0 segs = Inr act \<and> list_all (\<lambda>a. a) act"
    then obtain act where c: "check_entries e wc (replicate (unat wc) False) 0 segs = Inr act" and l: "list_all (\<lambda>a. a) act"
      by blast
    from iff [THEN iffD1, OF c] have p: "\<forall>s \<in> set segs. mse_owner_worker s < wc" "act = mark_owners (active_owners segs) (replicate (unat wc) False)"
      by blast+
    have "\<forall>x \<in> set (active_owners segs). x < wc" using os [OF p(1)] by blast
    then have "set (active_owners segs) = {x. x < wc}" using all_marked l p(2) by blast
    then show "catalog_ok wc segs" using iff [THEN iffD1, OF c] unfolding catalog_ok_def by blast
  next
    assume c: "catalog_ok wc segs"
    then have p: "\<forall>s \<in> set segs. mse_owner_worker s < wc" unfolding catalog_ok_def by blast
    have "\<forall>x \<in> set (active_owners segs). x < wc" using os [OF p] by blast
    then have "list_all (\<lambda>a. a) (mark_owners (active_owners segs) (replicate (unat wc) False))"
      using all_marked c unfolding catalog_ok_def by blast
    moreover have "check_entries e wc (replicate (unat wc) False) 0 segs = Inr (mark_owners (active_owners segs) (replicate (unat wc) False))"
      unfolding iff using c os [OF p] unfolding catalog_ok_def by blast
    ultimately show "\<exists>act. check_entries e wc (replicate (unat wc) False) 0 segs = Inr act \<and> list_all (\<lambda>a. a) act" by blast
  qed
qed

lemma last_bounds:
  "sorted_wrt (<) (0 # map mse_segment_id segs) \<Longrightarrow> segs \<noteq> [] \<Longrightarrow>
   (mse_segment_id (last segs) < n) = (\<forall>s \<in> set segs. mse_segment_id s < n)"
proof (induction segs rule: rev_induct)
  case (snoc s segs)
  then show ?case by (auto simp: sorted_wrt_append)
qed simp

lemma validate_manifest_ok: "validate_manifest m e = ok \<longleftrightarrow> manifest_ok m"
proof -
  have eq: "(mf_segments m \<noteq> [] \<longrightarrow> mse_segment_id (last (mf_segments m)) < mf_next_segment_id m)
      = (\<forall>s \<in> set (mf_segments m). mse_segment_id s < mf_next_segment_id m)"
    if "catalog_ok (mf_worker_count m) (mf_segments m)"
    using that last_bounds [of "mf_segments m"] by (cases "mf_segments m = []") (simp_all add: catalog_ok_def)
  have "validate_manifest m e = ok \<longleftrightarrow>
     \<not> all_zero (mf_store_id m) \<and> mf_manifest_generation m \<noteq> 0
   \<and> validate_worker_routing_state (worker_routing m) = ok
   \<and> mf_worker_count m \<noteq> 0 \<and> unat (mf_worker_count m) \<le> 256 \<and> mf_routing_epoch m \<noteq> 0
   \<and> mf_next_segment_id m \<noteq> 0 \<and> mf_next_segment_generation m \<noteq> 0 \<and> length (mf_segments m) \<le> 1000000
   \<and> (\<exists>act. check_entries e (mf_worker_count m) (replicate (unat (mf_worker_count m)) False) 0 (mf_segments m) = Inr act
        \<and> list_all (\<lambda>a. a) act)
   \<and> (mf_segments m \<noteq> [] \<longrightarrow> mse_segment_id (last (mf_segments m)) < mf_next_segment_id m)"
    by (auto simp: validate_manifest_def manifest_sizes bind_result_eq_Inr_iff not_le not_less split: if_splits)
  also have "\<dots> \<longleftrightarrow> manifest_ok m"
    unfolding catalog_checked manifest_ok_def using eq by blast
  finally show ?thesis .
qed

lemma validate_manifest_error: "validate_manifest m e = Inl e' \<Longrightarrow> e' = e"
proof -
  have c: "check_entries e wc act prev segs = Inl e' \<Longrightarrow> e' = e" for wc act prev segs
    by (induction segs arbitrary: act prev) (auto split: if_splits)
  show "validate_manifest m e = Inl e' \<Longrightarrow> e' = e"
    by (auto simp: validate_manifest_def bind_result_eq_Inl_iff dest: c split: if_splits)
qed

section \<open>The layout of an encoded manifest\<close>

definition entry_at :: "bytes \<Rightarrow> nat \<Rightarrow> manifest_segment_entry \<Rightarrow> bool" where
  "entry_at e off s \<longleftrightarrow>
     get_u64 e off = mse_segment_id s \<and> get_u32 e (off + 8) = mse_generation s
   \<and> get_u32 e (off + 12) = mse_owner_worker s \<and> get_u16 e (off + 16) = mse_role s \<and> get_u16 e (off + 18) = 0
   \<and> (\<forall>j. off + 20 \<le> j \<and> j < off + 32 \<longrightarrow> e ! j = 0)"

lemma entry_at_cong:
  assumes "\<And>j. off \<le> j \<Longrightarrow> j < off + 32 \<Longrightarrow> e ! j = e' ! j"
  shows "entry_at e off s = entry_at e' off s"
proof -
  have g: "get_le n e (off + i) = get_le n e' (off + i)" if "i + n \<le> 32" for n i
    using that assms by (intro get_le_cong) simp
  have g0: "get_le n e off = get_le n e' off" if "n \<le> 32" for n
    using that assms by (intro get_le_cong) simp
  have "(\<forall>j. off + 20 \<le> j \<and> j < off + 32 \<longrightarrow> e ! j = 0) = (\<forall>j. off + 20 \<le> j \<and> j < off + 32 \<longrightarrow> e' ! j = 0)"
    using assms by auto
  then show ?thesis by (simp add: entry_at_def le_defs g g0)
qed

definition manifest_layout :: "bytes \<Rightarrow> manifest \<Rightarrow> bool" where
  "manifest_layout e m \<longleftrightarrow>
     length e = 128 + length (mf_segments m) * 32
   \<and> get_u32 e 0 = kManifestMagic \<and> get_u16 e 4 = kManifestFormatVersion \<and> get_u16 e 6 = 128
   \<and> get_u32 e 8 = of_nat (length e) \<and> get_u16 e 12 = 32 \<and> get_u16 e 14 = 0 \<and> sub e 16 16 = mf_store_id m
   \<and> get_u64 e 32 = mf_manifest_generation m \<and> get_u32 e 40 = mf_routing_algorithm m
   \<and> get_u32 e 44 = mf_worker_count m \<and> get_u64 e 48 = mf_routing_epoch m
   \<and> get_u32 e 56 = of_nat (length (mf_segments m)) \<and> get_u16 e 60 = kSegmentFormatVersion
   \<and> get_u16 e 62 = kRecordFormatVersion \<and> get_u16 e 64 = kSegmentHeaderFormatVersion
   \<and> get_u16 e 66 = kSegmentCommitFormatVersion \<and> get_u64 e 68 = mf_next_segment_id m
   \<and> get_u32 e 76 = mf_next_segment_generation m \<and> get_u32 e 80 = checksum_manifest e
   \<and> get_u64 e 84 = mf_worker_hash_seed m \<and> (\<forall>j. 92 \<le> j \<and> j < 128 \<longrightarrow> e ! j = 0)
   \<and> (\<forall>k < length (mf_segments m). entry_at e (128 + k * 32) (mf_segments m ! k))"

lemma length_write_entries [simp]: "length (write_entries i ss e) = length e"
  by (induction i ss e rule: write_entries.induct) (simp_all add: Let_def)

lemma write_entries_before: "j < 128 + i * 32 \<Longrightarrow> write_entries i ss e ! j = e ! j"
  by (induction i ss e rule: write_entries.induct)
    (simp_all add: Let_def manifest_sizes le_defs nth_put_le_frame)

lemma write_entries_at:
  "128 + (i + length ss) * 32 \<le> length e \<Longrightarrow> (\<And>j. 128 + i * 32 \<le> j \<Longrightarrow> j < length e \<Longrightarrow> e ! j = 0) \<Longrightarrow>
   k < length ss \<Longrightarrow> entry_at (write_entries i ss e) (128 + (i + k) * 32) (ss ! k)"
proof (induction i ss e arbitrary: k rule: write_entries.induct)
  case (2 i s ss e)
  let ?off = "128 + i * 32"
  define e1 where "e1 = put_u16 (put_u16 (put_u32 (put_u32 (put_u64 e ?off (mse_segment_id s)) (?off + 8) (mse_generation s))
    (?off + 12) (mse_owner_worker s)) (?off + 16) (mse_role s)) (?off + 18) 0"
  have w: "write_entries i (s # ss) e = write_entries (Suc i) ss e1"
    by (simp add: e1_def Let_def manifest_sizes)
  have len: "length e1 = length e" by (simp add: e1_def)
  have zero: "e1 ! j = 0" if "?off + 20 \<le> j" "j < length e" for j
    using that "2.prems"(2) [of j] by (simp add: e1_def le_defs nth_put_le_frame)
  have first: "entry_at e1 ?off s"
    using "2.prems"(1) zero unfolding entry_at_def
    by (simp add: e1_def le_defs get_put_le_frame get_put_le)
  show ?case
  proof (cases k)
    case 0
    have "entry_at (write_entries (Suc i) ss e1) ?off s = entry_at e1 ?off s"
      by (rule entry_at_cong) (simp add: write_entries_before)
    then show ?thesis using first 0 unfolding w by simp
  next
    case (Suc k')
    have "entry_at (write_entries (Suc i) ss e1) (128 + (Suc i + k') * 32) (ss ! k')"
      using "2.IH" [OF refl refl refl refl refl refl, of k'] "2.prems" zero len Suc
      by (simp add: e1_def manifest_sizes)
    then show ?thesis unfolding w by (simp add: Suc)
  qed
qed simp

lemma length_write_manifest_header: "length (mf_store_id m) = 16 \<Longrightarrow> 128 \<le> n \<Longrightarrow> length (write_manifest_header m n) = n"
  by (simp add: write_manifest_header_def Let_def manifest_sizes)

lemma write_manifest_header_zero:
  "length (mf_store_id m) = 16 \<Longrightarrow> 128 \<le> n \<Longrightarrow> 92 \<le> j \<Longrightarrow> j < n \<Longrightarrow> write_manifest_header m n ! j = 0"
  by (simp add: write_manifest_header_def Let_def manifest_sizes le_defs nth_put_le_frame nth_blit)

lemma write_manifest_header_fields:
  assumes "length (mf_store_id m) = 16" "128 \<le> n"
  defines "h \<equiv> write_manifest_header m n"
  shows "get_u32 h 0 = kManifestMagic" "get_u16 h 4 = kManifestFormatVersion" "get_u16 h 6 = 128"
    "get_u32 h 8 = of_nat n" "get_u16 h 12 = 32" "get_u16 h 14 = 0" "sub h 16 16 = mf_store_id m"
    "get_u64 h 32 = mf_manifest_generation m" "get_u32 h 40 = mf_routing_algorithm m"
    "get_u32 h 44 = mf_worker_count m" "get_u64 h 48 = mf_routing_epoch m"
    "get_u32 h 56 = of_nat (length (mf_segments m))" "get_u16 h 60 = kSegmentFormatVersion"
    "get_u16 h 62 = kRecordFormatVersion" "get_u16 h 64 = kSegmentHeaderFormatVersion"
    "get_u16 h 66 = kSegmentCommitFormatVersion" "get_u64 h 68 = mf_next_segment_id m"
    "get_u32 h 76 = mf_next_segment_generation m" "get_u64 h 84 = mf_worker_hash_seed m"
proof -
  show "sub h 16 16 = mf_store_id m"
    using assms(1,2) sub_blit [of 16 "mf_store_id m"]
    by (simp add: h_def write_manifest_header_def Let_def manifest_sizes le_defs sub_put_le_frame sub_put_le_before)
qed (use assms(1,2) in \<open>simp_all add: h_def write_manifest_header_def Let_def manifest_sizes le_defs get_put_le_frame get_put_le
       get_le_blit_frame\<close>)

lemma write_manifest_layout:
  assumes "length (mf_store_id m) = 16" "n = 128 + length (mf_segments m) * 32"
  shows "manifest_layout (write_manifest m n) m"
proof -
  define h where "h = write_manifest_header m n"
  define w where "w = write_entries 0 (mf_segments m) h"
  define e where "e = put_u32 w 80 (checksum_manifest w)"
  have n: "128 \<le> n" using assms(2) by simp
  have len: "length h = n" "length w = n" "length e = n"
    using length_write_manifest_header [OF assms(1) n] by (simp_all add: h_def w_def e_def)
  have nth: "e ! j = h ! j" if "j < 128" "j < 80 \<or> 84 \<le> j" for j
    using that by (simp add: e_def w_def le_defs nth_put_le_frame write_entries_before)
  have g: "get_le k e p = get_le k h p" if "p + k \<le> 80 \<or> 84 \<le> p" "p + k \<le> 128" for k p
    using that by (intro get_le_cong nth) auto
  have "sub e 16 16 = sub h 16 16" using n len by (intro nth_equalityI) (simp_all add: nth_sub nth)
  moreover have "e ! j = 0" if "92 \<le> j" "j < 128" for j
    using that nth [of j] write_manifest_header_zero [OF assms(1) n] n by (simp add: h_def)
  moreover have "entry_at e (128 + k * 32) (mf_segments m ! k)" if "k < length (mf_segments m)" for k
  proof -
    have "entry_at w (128 + (0 + k) * 32) (mf_segments m ! k)"
      unfolding w_def by (rule write_entries_at) (use that len assms(2) write_manifest_header_zero [OF assms(1) n] in \<open>simp_all add: h_def\<close>)
    moreover have "entry_at e (128 + k * 32) s = entry_at w (128 + k * 32) s" for s
      by (rule entry_at_cong) (simp add: e_def le_defs nth_put_le_frame)
    ultimately show ?thesis by simp
  qed
  moreover have "get_u32 e 80 = checksum_manifest e"
    using n len checksum_put [of n w 80 "checksum_manifest w"]
    by (simp add: e_def checksum_manifest_def manifest_sizes le_defs get_put_le)
  moreover have "write_manifest m n = e" by (simp add: write_manifest_def Let_def e_def w_def h_def manifest_sizes)
  ultimately show ?thesis
    using write_manifest_header_fields [OF assms(1) n, folded h_def] len assms(2)
    unfolding manifest_layout_def le_defs by (simp add: g)
qed

lemma entry_agree:
  assumes "entry_at e off s" "entry_at e' off s" "off + 32 \<le> length e" "off + 32 \<le> length e'"
  shows "agree e e' off (off + 32)"
proof -
  note l = assms [unfolded entry_at_def le_defs]
  have "agree e e' off off" by simp
  then have "agree e e' off (off + 8)" by (rule agree_u64) (use l in simp_all)
  then have "agree e e' off (off + 12)" by (rule agree_u32) (use l in simp_all)
  then have "agree e e' off (off + 16)" by (rule agree_u32) (use l in simp_all)
  then have "agree e e' off (off + 18)" by (rule agree_u16) (use l in simp_all)
  then have front: "agree e e' off (off + 20)" by (rule agree_u16) (use l in simp_all)
  show ?thesis
    unfolding agree_def
  proof (intro allI impI)
    fix j assume "off \<le> j \<and> j < off + 32"
    then show "e ! j = e' ! j" using front l by (cases "j < off + 20") (simp_all add: agree_def)
  qed
qed

lemma manifest_layout_unique:
  assumes "manifest_layout e m" "manifest_layout e' m"
  shows "e = e'"
proof (rule nth_equalityI)
  note lay = assms [unfolded manifest_layout_def le_defs]
  show len: "length e = length e'" using lay by simp
  have l: "128 \<le> length e" "128 \<le> length e'" using lay by simp_all
  have "agree e e' 0 0" by simp
  then have "agree e e' 0 4" by (rule agree_u32) (use lay l in simp_all)
  then have "agree e e' 0 6" by (rule agree_u16) (use lay l in simp_all)
  then have "agree e e' 0 8" by (rule agree_u16) (use lay l in simp_all)
  then have "agree e e' 0 12" by (rule agree_u32) (use lay l in simp_all)
  then have "agree e e' 0 14" by (rule agree_u16) (use lay l in simp_all)
  then have a16: "agree e e' 0 16" by (rule agree_u16) (use lay l in simp_all)
  have "e ! (16 + j) = e' ! (16 + j)" if "j < 16" for j
    using that l lay nth_sub [of 16 16 e j] nth_sub [of 16 16 e' j] by simp
  then have sid: "e ! j = e' ! j" if "16 \<le> j" "j < 32" for j using that by (metis le_add_diff_inverse less_diff_conv2 numeral_Bit0)
  have "agree e e' 0 32"
    unfolding agree_def
  proof (intro allI impI)
    fix j :: nat assume "0 \<le> j \<and> j < 32"
    then show "e ! j = e' ! j" using a16 sid [of j] by (cases "j < 16") (simp_all add: agree_def)
  qed
  then have "agree e e' 0 40" by (rule agree_u64) (use lay l in simp_all)
  then have "agree e e' 0 44" by (rule agree_u32) (use lay l in simp_all)
  then have "agree e e' 0 48" by (rule agree_u32) (use lay l in simp_all)
  then have "agree e e' 0 56" by (rule agree_u64) (use lay l in simp_all)
  then have "agree e e' 0 60" by (rule agree_u32) (use lay l in simp_all)
  then have "agree e e' 0 62" by (rule agree_u16) (use lay l in simp_all)
  then have "agree e e' 0 64" by (rule agree_u16) (use lay l in simp_all)
  then have "agree e e' 0 66" by (rule agree_u16) (use lay l in simp_all)
  then have "agree e e' 0 68" by (rule agree_u16) (use lay l in simp_all)
  then have "agree e e' 0 76" by (rule agree_u64) (use lay l in simp_all)
  then have a80: "agree e e' 0 80" by (rule agree_u32) (use lay l in simp_all)
  have "agree e e' 84 84" by simp
  then have a92: "agree e e' 84 92" by (rule agree_u64) (use lay l in simp_all)
  have tail: "e ! j = e' ! j" if "128 \<le> j" "j < length e" for j
  proof -
    define k where "k = (j - 128) div 32"
    have k: "k < length (mf_segments m)" "128 + k * 32 \<le> j" "j < 128 + k * 32 + 32"
      using that lay unfolding k_def by (auto simp: less_mult_imp_div_less) 
    have "agree e e' (128 + k * 32) (128 + k * 32 + 32)"
      by (rule entry_agree [of _ _ "mf_segments m ! k"]) (use assms k(1) in \<open>auto simp: manifest_layout_def\<close>)
    then show ?thesis using k by (simp add: agree_def)
  qed
  have rest: "e ! j = e' ! j" if "j < length e" "j < 80 \<or> 84 \<le> j" for j
    using that a80 a92 tail [of j] lay by (cases "j < 80"; cases "j < 92"; cases "j < 128") (simp_all add: agree_def)
  have "checksum_manifest e = checksum_manifest e'"
    unfolding checksum_manifest_def len manifest_sizes
    by (rule checksum_cong) (use l len rest in simp_all)
  then have "agree e e' 0 84" by (intro agree_u32 [OF a80]) (use lay l in simp_all)
  then show "e ! j = e' ! j" if "j < length e" for j
    using that rest [of j] by (cases "j < 84") (simp_all add: agree_def)
qed

section \<open>Encoding and decoding\<close>

lemma size_for_count: "manifest_size_for_count n = Inr k \<longleftrightarrow> n \<le> 1000000 \<and> k = 128 + n * 32"
  by (auto simp: manifest_size_for_count_def manifest_sizes Let_def)

lemma encode_manifest_Inr:
  assumes "length (mf_store_id m) = 16"
  shows "encode_manifest m = Inr e \<longleftrightarrow> manifest_ok m \<and> manifest_layout e m"
proof -
  let ?n = "128 + length (mf_segments m) * 32"
  note lay = write_manifest_layout [OF assms refl]
  have len: "length (write_manifest m ?n) = ?n" using lay by (simp add: manifest_layout_def)
  have size: "encoded_manifest_size m = Inr k \<longleftrightarrow> manifest_ok m \<and> k = ?n" for k
    by (auto simp: encoded_manifest_size_def bind_result_eq_Inr_iff validate_manifest_ok size_for_count manifest_ok_def)
  have "encode_manifest m = Inr e \<longleftrightarrow> manifest_ok m \<and> e = write_manifest m ?n"
  proof (cases "encoded_manifest_size m")
    case (Inl err)
    then show ?thesis using size by (auto simp: encode_manifest_def)
  next
    case (Inr k)
    then show ?thesis using size [of k] len
      by (auto simp: encode_manifest_def encode_manifest_into_def blit_whole)
  qed
  then show ?thesis using manifest_layout_unique lay by blast
qed

lemma decode_entries_Inr:
  "128 + (i + n) * 32 \<le> length bs \<Longrightarrow>
   decode_entries bs i n = Inr ss \<longleftrightarrow> length ss = n \<and> (\<forall>k < n. entry_at bs (128 + (i + k) * 32) (ss ! k))"
proof (induction bs i n arbitrary: ss rule: decode_entries.induct)
  case (2 bs i n)
  let ?off = "128 + i * 32"
  have z: "all_zero (sub bs (?off + 20) 12) \<longleftrightarrow> (\<forall>j. ?off + 20 \<le> j \<and> j < ?off + 32 \<longrightarrow> bs ! j = 0)"
  proof -
    have "all_zero (sub bs (?off + 20) 12) \<longleftrightarrow> (\<forall>j < 12. bs ! (?off + 20 + j) = 0)"
      using "2.prems" by (simp add: all_zero_iff nth_sub)
    also have "\<dots> \<longleftrightarrow> (\<forall>j. ?off + 20 \<le> j \<and> j < ?off + 32 \<longrightarrow> bs ! j = 0)"
      using all_shift [of "?off + 32" "?off + 20" "\<lambda>j. bs ! j = 0"] by simp
    finally show ?thesis .
  qed
  define s where "s = \<lparr> mse_segment_id = get_u64 bs ?off, mse_generation = get_u32 bs (?off + 8),
     mse_owner_worker = get_u32 bs (?off + 12), mse_role = get_u16 bs (?off + 16) \<rparr>"
  have at: "entry_at bs ?off x \<longleftrightarrow> x = s \<and> get_u16 bs (?off + 18) = 0 \<and> all_zero (sub bs (?off + 20) 12)" for x
    unfolding entry_at_def z s_def by (cases x) auto
  have ih: "decode_entries bs (Suc i) n = Inr r \<longleftrightarrow> length r = n \<and> (\<forall>k < n. entry_at bs (128 + (Suc i + k) * 32) (r ! k))"
    if "get_u16 bs (?off + 18) = 0" "all_zero (sub bs (?off + 20) 12)" for r
    using "2.IH" [OF refl, of r] that "2.prems" by (simp add: manifest_sizes)
  show ?case
  proof (cases "get_u16 bs (?off + 18) = 0 \<and> all_zero (sub bs (?off + 20) 12)")
    case False
    then have "\<not> entry_at bs ?off x" for x using at by blast
    moreover have "decode_entries bs i (Suc n) = fail Invalid_record" using False by (simp add: manifest_sizes Let_def)
    ultimately show ?thesis by auto
  next
    case True
    have "decode_entries bs i (Suc n) = Inr ss \<longleftrightarrow> (\<exists>r. ss = s # r \<and> decode_entries bs (Suc i) n = Inr r)"
      using True by (auto simp: manifest_sizes Let_def bind_result_eq_Inr_iff s_def)
    also have "\<dots> \<longleftrightarrow> length ss = Suc n \<and> (\<forall>k < Suc n. entry_at bs (128 + (i + k) * 32) (ss ! k))"
      using True ih at by (cases ss) (auto simp: All_less_Suc2)
    finally show ?thesis .
  qed
qed auto

lemma decode_manifest_Inr:
  "decode_manifest bs = Inr m \<longleftrightarrow> manifest_layout bs m \<and> manifest_ok m"
proof
  assume l: "manifest_layout bs m \<and> manifest_ok m"
  let ?n = "length (mf_segments m)"
  note lay = conjunct1 [OF l, unfolded manifest_layout_def] and ok = conjunct2 [OF l]
  have n: "?n \<le> 1000000" "128 \<le> length bs" using ok lay by (simp_all add: manifest_ok_def)
  have "unat (of_nat (128 + ?n * 32) :: u32) = 128 + ?n * 32" by (rule unat_of_nat_32) (use n in simp)
  moreover have "get_u32 bs 8 = of_nat (128 + ?n * 32)" using lay by (simp only:)
  ultimately have u: "unat (get_u32 bs 56) = ?n" "unat (get_u32 bs 8) = 128 + ?n * 32"
    using lay n by (simp_all only:) (simp add: unat_of_nat_32)
  have z: "all_zero (sub bs 92 36)" using lay n by (simp add: all_zero_iff nth_sub)
  have es: "decode_entries bs 0 ?n = Inr (mf_segments m)"
    using lay decode_entries_Inr [of 0 ?n bs "mf_segments m"] by simp
  have sz: "manifest_size_for_count ?n = Inr (128 + ?n * 32)" using n by (simp add: size_for_count)
  have v: "validate_manifest m Corrupted_data = ok" using ok by (simp add: validate_manifest_ok)
  show "decode_manifest bs = Inr m"
    using lay n z es sz v u unfolding decode_manifest_def Let_def
    by (cases m) (simp add: manifest_sizes)
next
  assume d: "decode_manifest bs = Inr m"
  let ?n = "unat (get_u32 bs 56)"
  obtain k where k: "manifest_size_for_count ?n = Inr k" "unat (get_u32 bs 8) = k" "length bs = k"
    "get_u32 bs 80 = checksum_manifest bs"
    using d by (auto simp: decode_manifest_def Let_def manifest_sizes split: if_splits sum.splits)
  have n: "k = 128 + ?n * 32" "?n \<le> 1000000" using k(1) by (simp_all add: size_for_count)
  obtain ss where ss: "decode_entries bs 0 ?n = Inr ss"
    "m = \<lparr> mf_store_id = sub bs 16 16, mf_manifest_generation = get_u64 bs 32,
           mf_routing_algorithm = get_u32 bs 40, mf_worker_count = get_u32 bs 44, mf_routing_epoch = get_u64 bs 48,
           mf_worker_hash_seed = get_u64 bs 84, mf_next_segment_id = get_u64 bs 68,
           mf_next_segment_generation = get_u32 bs 76, mf_segments = ss \<rparr>"
    "validate_manifest m Corrupted_data = ok"
    using d k n by (auto simp: decode_manifest_def Let_def manifest_sizes bind_result_eq_Inr_iff split: if_splits)
  have es: "length ss = ?n" "\<forall>k < ?n. entry_at bs (128 + k * 32) (ss ! k)"
    using ss(1) decode_entries_Inr [of 0 ?n bs ss] k(3) n(1) by simp_all
  have hd: "get_u32 bs 0 = kManifestMagic" "get_u16 bs 4 = kManifestFormatVersion" "unat (get_u16 bs 6) = 128"
    "unat (get_u16 bs 12) = 32" "get_u16 bs 14 = 0" "get_u16 bs 60 = kSegmentFormatVersion"
    "get_u16 bs 62 = kRecordFormatVersion" "get_u16 bs 64 = kSegmentHeaderFormatVersion"
    "get_u16 bs 66 = kSegmentCommitFormatVersion" "all_zero (sub bs 92 36)"
    using d by (auto simp: decode_manifest_def manifest_sizes split: if_splits)
  have z: "bs ! j = 0" if "92 \<le> j" "j < 128" for j
    using that hd(10) k(3) n(1) nth_sub [of 92 36 bs "j - 92"] by (simp add: all_zero_iff)
  have w: "get_u16 bs 6 = 128" "get_u16 bs 12 = 32" "get_u32 bs 8 = of_nat (length bs)" "get_u32 bs 56 = of_nat ?n"
  proof -
    have "of_nat (unat (get_u32 bs 8)) = get_u32 bs 8" by simp
    then show "get_u32 bs 8 = of_nat (length bs)" by (simp only: k(2,3))
  qed (use hd(3,4) in \<open>simp_all add: word_unat_eq_iff\<close>)
  show "manifest_layout bs m \<and> manifest_ok m"
    using hd w z es k(3,4) n(1) ss(3) validate_manifest_ok unfolding manifest_layout_def by (simp add: ss(2))
qed

text \<open>The encoder on a \<open>StoreId\<close>, which has sixteen bytes.\<close>

definition encode_typed :: "manifest \<Rightarrow> bytes result" where
  "encode_typed m = (if length (mf_store_id m) = 16 then encode_manifest m else fail Invalid_argument)"

lemma manifest_layout_id: "manifest_layout bs m \<Longrightarrow> length (mf_store_id m) = 16"
  using length_sub [of 16 16 bs] by (auto simp: manifest_layout_def)

interpretation manifest_codec: canonical_codec encode_typed decode_manifest "\<lambda>m. m"
proof
  show "encode_typed m = Inr bs \<Longrightarrow> decode_manifest bs = Inr m" for m bs
    using encode_manifest_Inr [of m bs] by (auto simp: encode_typed_def decode_manifest_Inr split: if_splits)
  show "\<exists>x. m = x \<and> encode_typed x = Inr bs" if "decode_manifest bs = Inr m" for m bs
    using that manifest_layout_id [of bs m] encode_manifest_Inr [of m bs] by (simp add: encode_typed_def decode_manifest_Inr)
qed

section \<open>The newest manifest\<close>

definition newest_among :: "manifest list \<Rightarrow> nat \<Rightarrow> selected_manifest \<Rightarrow> bool" where
  "newest_among cs n s \<longleftrightarrow>
     sm_candidate_index s < n \<and> sm_manifest_generation s = mf_manifest_generation (cs ! sm_candidate_index s)
   \<and> (\<forall>j < n. manifest_ok (cs ! j) \<and> mf_manifest_generation (cs ! j) \<le> sm_manifest_generation s
        \<and> (mf_manifest_generation (cs ! j) = sm_manifest_generation s \<longrightarrow> cs ! j = cs ! sm_candidate_index s))
   \<and> (\<forall>j < sm_candidate_index s. mf_manifest_generation (cs ! j) < sm_manifest_generation s)"

lemma newest_among_skip:
  assumes "newest_among cs i s" "manifest_ok (cs ! i)" "mf_manifest_generation (cs ! i) \<le> sm_manifest_generation s"
    "mf_manifest_generation (cs ! i) = sm_manifest_generation s \<Longrightarrow> cs ! i = cs ! sm_candidate_index s"
  shows "newest_among cs (Suc i) s"
  unfolding newest_among_def
proof (intro conjI allI impI)
  fix j assume j: "j < Suc i"
  show "manifest_ok (cs ! j)" "mf_manifest_generation (cs ! j) \<le> sm_manifest_generation s"
    using assms j unfolding newest_among_def less_Suc_eq by blast+
  show "cs ! j = cs ! sm_candidate_index s" if "mf_manifest_generation (cs ! j) = sm_manifest_generation s"
    using assms j that unfolding newest_among_def less_Suc_eq by blast
qed (use assms in \<open>unfold newest_among_def less_Suc_eq, blast+\<close>)

lemma select_loop_newest:
  "select_manifest_loop cs i rest s = Inr s' \<Longrightarrow> rest = drop i cs \<Longrightarrow> i \<le> length cs \<Longrightarrow> newest_among cs i s \<Longrightarrow>
   newest_among cs (length cs) s'"
proof (induction cs i rest s rule: select_manifest_loop.induct)
  case (2 cs i c rest s)
  have c: "i < length cs" "c = cs ! i" "rest = drop (Suc i) cs"
    using "2.prems"(2) by (metis drop_eq_Nil2 list.distinct(1) not_le, metis "2.prems"(2) drop_eq_Nil2 list.distinct(1) not_le list.sel(1) hd_drop_conv_nth, metis drop_Suc list.sel(3) tl_drop)
  have ok: "validate_manifest c Corrupted_data = ok" "manifest_ok c"
    using "2.prems"(1) by (auto simp: bind_result_eq_Inr_iff validate_manifest_ok)
  note inv = "2.prems"(4) [unfolded newest_among_def]
  consider (newer) "sm_manifest_generation s < mf_manifest_generation c"
    | (older) "mf_manifest_generation c < sm_manifest_generation s"
    | (same) "mf_manifest_generation c = sm_manifest_generation s" by force
  then show ?case
  proof cases
    case newer
    let ?s = "\<lparr> sm_candidate_index = i, sm_manifest_generation = mf_manifest_generation c \<rparr>"
    have less: "mf_manifest_generation (cs ! j) < mf_manifest_generation c" if "j < i" for j
      using inv that newer by (meson le_less_trans)
    have "newest_among cs (Suc i) ?s"
      unfolding newest_among_def using less less_imp_neq [OF less] inv ok c(2)
      by (auto simp: less_Suc_eq less_imp_le)
    moreover have "select_manifest_loop cs (Suc i) rest ?s = Inr s'" using "2.prems"(1) ok(1) newer by simp
    ultimately show ?thesis using "2.IH"(1) [OF newer _ c(3) Suc_leI [OF c(1)]] by blast
  next
    case older
    then have "newest_among cs (Suc i) s" using newest_among_skip [OF "2.prems"(4)] ok(2) c(2) by simp
    moreover have no: "\<not> sm_manifest_generation s < mf_manifest_generation c"
      "mf_manifest_generation c \<noteq> sm_manifest_generation s" using older by auto
    then have "select_manifest_loop cs (Suc i) rest s = Inr s'" using "2.prems"(1) ok(1) by simp
    ultimately show ?thesis using "2.IH"(2) [OF _ _ _ c(3) Suc_leI [OF c(1)]] no by blast
  next
    case same
    then have eq: "c = cs ! sm_candidate_index s" using "2.prems"(1) ok(1) by (auto split: if_splits)
    then have "newest_among cs (Suc i) s"
      using newest_among_skip [OF "2.prems"(4)] ok(2) c(2) same by (metis order_refl)
    moreover have "\<not> sm_manifest_generation s < mf_manifest_generation c" using same by simp
    moreover have "select_manifest_loop cs (Suc i) rest s = Inr s'" using "2.prems"(1) ok(1) same eq by simp
    ultimately show ?thesis using "2.IH"(2) [OF _ _ _ c(3) Suc_leI [OF c(1)]] eq by blast
  qed
qed simp

section \<open>Properties\<close>

text \<open>
  C32.  The manifest format is canonical: a byte string decodes to a manifest exactly when it is the
  encoding of that manifest.  Encoding and decoding are inverse, and no catalog has two images.
\<close>

theorem manifest_canonical:
  assumes "length (mf_store_id m) = 16"
  shows "decode_manifest bs = Inr m \<longleftrightarrow> encode_manifest m = Inr bs"
  using manifest_codec.decode_iff_encode [of bs m] assms by (simp add: encode_typed_def)

definition example_manifest :: manifest where
  "example_manifest =
     \<lparr> mf_store_id = 1 # replicate 15 0, mf_manifest_generation = 3, mf_routing_algorithm = 1, mf_worker_count = 2,
       mf_routing_epoch = 1, mf_worker_hash_seed = 0, mf_next_segment_id = 9, mf_next_segment_generation = 1,
       mf_segments = [\<lparr> mse_segment_id = 2, mse_generation = 1, mse_owner_worker = 1, mse_role = 1 \<rparr>,
                      \<lparr> mse_segment_id = 5, mse_generation = 1, mse_owner_worker = 0, mse_role = 2 \<rparr>,
                      \<lparr> mse_segment_id = 7, mse_generation = 2, mse_owner_worker = 0, mse_role = 1 \<rparr>] \<rparr>"

lemma example_manifest_generations:
  "0 < g \<Longrightarrow> validate_manifest (example_manifest\<lparr> mf_manifest_generation := g \<rparr>) e = ok"
proof -
  have "replicate 2 False = [False, False]" by (simp add: numeral_2_eq_2)
  moreover have "\<not> (2 :: u16) \<le> 1" "\<not> (2 :: u32) \<le> 1" by (simp_all add: word_le_nat_alt)
  ultimately show "0 < g \<Longrightarrow> ?thesis"
    by (simp add: validate_manifest_def example_manifest_def all_zero_def worker_routing_def manifest_sizes
        validate_worker_routing_state_def fnv1a64_v1_def kDefaultWorkerHashSeed_def role_active_def role_sealed_def)
qed

lemma example_manifest_valid: "validate_manifest example_manifest e = ok"
  using example_manifest_generations [of 3 e] by (simp add: example_manifest_def)

lemma example_manifest_encodes: "\<exists>bs. encode_manifest example_manifest = Inr bs"
proof -
  have "length (mf_store_id example_manifest) = 16" by (simp add: example_manifest_def)
  from encode_manifest_Inr [OF this] write_manifest_layout [OF this refl] example_manifest_valid validate_manifest_ok
  show ?thesis by blast
qed

theorem manifest_canonical_witness:
  "\<exists>bs. encode_manifest example_manifest = Inr bs \<and> decode_manifest bs = Inr example_manifest"
  using manifest_canonical [of example_manifest] example_manifest_encodes by (auto simp: example_manifest_def)

text \<open>
  C33.  Every manifest the decoder returns is well formed: its store id has sixteen bytes and is not
  zero, it names between 1 and 256 workers, its segments are in strictly increasing order of
  their ids and below the next id, every owner is a worker, and each worker has exactly one active
  segment.
\<close>

theorem decoded_manifest_well_formed:
  assumes "decode_manifest bs = Inr m"
  shows "length (mf_store_id m) = 16 \<and> \<not> all_zero (mf_store_id m)
    \<and> 1 \<le> unat (mf_worker_count m) \<and> unat (mf_worker_count m) \<le> kMaximumWorkerCount
    \<and> sorted_wrt (<) (map mse_segment_id (mf_segments m))
    \<and> (\<forall>s \<in> set (mf_segments m). 0 < mse_segment_id s \<and> mse_segment_id s < mf_next_segment_id m
          \<and> mse_owner_worker s < mf_worker_count m)
    \<and> (\<forall>ow < mf_worker_count m. \<exists>!s. s \<in> set (mf_segments m) \<and> mse_role s = role_active \<and> mse_owner_worker s = ow)"
proof -
  have l: "manifest_layout bs m" "manifest_ok m" using assms by (simp_all add: decode_manifest_Inr)
  note ok = l(2) [unfolded manifest_ok_def catalog_ok_def]
  have "\<exists>!s. s \<in> set (mf_segments m) \<and> mse_role s = role_active \<and> mse_owner_worker s = ow" if "ow < mf_worker_count m" for ow
  proof -
    let ?a = "filter (\<lambda>s. mse_role s = role_active) (mf_segments m)"
    have "ow \<in> set (active_owners (mf_segments m))" using ok that by blast
    moreover have "inj_on mse_owner_worker (set ?a)" using ok by (simp add: active_owners_def distinct_map)
    ultimately show ?thesis unfolding active_owners_def by (auto dest: inj_onD)
  qed
  moreover have "mf_worker_count m \<noteq> 0" using ok by blast
  then have "1 \<le> unat (mf_worker_count m)" by (metis One_nat_def Suc_leI gr0I unat_eq_zero)
  ultimately show ?thesis using ok manifest_layout_id [OF l(1)] by (simp add: manifest_sizes)
qed

theorem decoded_manifest_well_formed_witness:
  "\<exists>bs. decode_manifest bs = Inr example_manifest \<and> sorted_wrt (<) (map mse_segment_id (mf_segments example_manifest))
     \<and> (\<exists>!s. s \<in> set (mf_segments example_manifest) \<and> mse_role s = role_active \<and> mse_owner_worker s = 0)"
proof -
  have "length (mf_store_id example_manifest) = 16" by (simp add: example_manifest_def)
  then obtain bs where d: "decode_manifest bs = Inr example_manifest"
    using example_manifest_encodes encode_manifest_Inr decode_manifest_Inr by blast
  have "0 < mf_worker_count example_manifest" by (simp add: example_manifest_def)
  then show ?thesis using decoded_manifest_well_formed [OF d] d by blast
qed

text \<open>
  C34.  When \<open>select_newest_manifest\<close> returns, every candidate is valid, the selected one has the
  greatest generation and is the first with it, and every other candidate of that generation is
  the same catalog.
\<close>

theorem select_newest_manifest_newest:
  assumes "select_newest_manifest cs = Inr s"
  shows "sm_candidate_index s < length cs
    \<and> sm_manifest_generation s = mf_manifest_generation (cs ! sm_candidate_index s)
    \<and> (\<forall>c \<in> set cs. validate_manifest c Corrupted_data = ok
         \<and> mf_manifest_generation c \<le> sm_manifest_generation s
         \<and> (mf_manifest_generation c = sm_manifest_generation s \<longrightarrow> c = cs ! sm_candidate_index s))
    \<and> (\<forall>j < sm_candidate_index s. mf_manifest_generation (cs ! j) < sm_manifest_generation s)"
proof (cases cs)
  case (Cons c rest)
  let ?s = "\<lparr> sm_candidate_index = 0, sm_manifest_generation = mf_manifest_generation c \<rparr>"
  have v: "validate_manifest c Corrupted_data = ok" "select_manifest_loop cs 1 rest ?s = Inr s"
    using assms Cons by (auto simp: select_newest_manifest_def bind_result_eq_Inr_iff)
  have "newest_among cs 1 ?s" using v(1) Cons by (simp add: newest_among_def validate_manifest_ok)
  from select_loop_newest [OF v(2) _ _ this] have "newest_among cs (length cs) s" by (simp add: Cons)
  then show ?thesis unfolding newest_among_def validate_manifest_ok by (auto simp: in_set_conv_nth)
qed (use assms in \<open>simp add: select_newest_manifest_def\<close>)

theorem select_newest_manifest_newest_witness:
  "select_newest_manifest [example_manifest, example_manifest\<lparr> mf_manifest_generation := 8 \<rparr>]
     = Inr \<lparr> sm_candidate_index = 1, sm_manifest_generation = 8 \<rparr>
   \<and> mf_manifest_generation example_manifest \<le> 8"
proof -
  have "select_newest_manifest [example_manifest, example_manifest\<lparr> mf_manifest_generation := 8 \<rparr>]
      = Inr \<lparr> sm_candidate_index = 1, sm_manifest_generation = 8 \<rparr>"
    using example_manifest_valid example_manifest_generations [of 8]
    by (simp add: select_newest_manifest_def) (simp add: example_manifest_def)
  from select_newest_manifest_newest [OF this] this show ?thesis by simp
qed

end
