(* ===== verification/Protocol.thy ===== *)
theory Protocol
  imports Checked_Math Little_Endian Codec
begin

text \<open>
  The wire protocol: \<open>src/include/glifistore/server/protocol.hpp\<close> and
  \<open>src/src/server/protocol.cpp\<close>.  Requests and responses are frames of a 40-byte header, the key
  (of a request) and the value.  The decoders work on the bytes received so far: a frame that is
  not complete is no error.  Spans are the bytes they show; the buffer an encoder writes is passed
  in and returned.

  The lemmas relate both directions through \<open>request_layout\<close> and \<open>response_layout\<close>, the
  declarative descriptions of the two frames.
\<close>

section \<open>Types and constants\<close>

definition kProtocolVersion :: u16 where "kProtocolVersion = 2"
definition kRequestHeaderBytes :: nat where "kRequestHeaderBytes = 40"
definition kResponseHeaderBytes :: nat where "kResponseHeaderBytes = 40"
definition kMaxFrameBytes :: nat where "kMaxFrameBytes = 2 * 1024 * 1024"
definition kNoWorker :: u32 where "kNoWorker = 0xFFFFFFFF"

lemmas protocol_sizes = kRequestHeaderBytes_def kResponseHeaderBytes_def kMaxFrameBytes_def

datatype req_opcode =
  Req_init | Req_ping | Req_get | Req_put | Req_erase | Req_bind_worker | Req_health | Req_ready
  | Req_stats | Req_backup

fun opcode_byte :: "req_opcode \<Rightarrow> byte" where
  "opcode_byte Req_init = 1"
| "opcode_byte Req_ping = 2"
| "opcode_byte Req_get = 3"
| "opcode_byte Req_put = 4"
| "opcode_byte Req_erase = 5"
| "opcode_byte Req_bind_worker = 6"
| "opcode_byte Req_health = 7"
| "opcode_byte Req_ready = 8"
| "opcode_byte Req_stats = 9"
| "opcode_byte Req_backup = 10"

datatype rsp_status =
  Rsp_ok | Rsp_invalid_request | Rsp_unsupported | Rsp_internal_error | Rsp_not_found | Rsp_overloaded
  | Rsp_wrong_owner | Rsp_not_bound | Rsp_permission_denied

fun status_code :: "rsp_status \<Rightarrow> u16" where
  "status_code Rsp_ok = 0"
| "status_code Rsp_invalid_request = 1"
| "status_code Rsp_unsupported = 2"
| "status_code Rsp_internal_error = 3"
| "status_code Rsp_not_found = 4"
| "status_code Rsp_overloaded = 5"
| "status_code Rsp_wrong_owner = 6"
| "status_code Rsp_not_bound = 7"
| "status_code Rsp_permission_denied = 8"

record request_view =
  rq_opcode :: req_opcode
  rq_flags :: byte
  rq_request_id :: u64
  rq_expire_at_ns :: u64
  rq_target_worker :: u32
  rq_key :: bytes
  rq_value :: bytes

record response_view =
  rs_status :: rsp_status
  rs_request_id :: u64
  rs_owner_worker :: u32
  rs_worker_count :: u32
  rs_routing_epoch :: u64
  rs_value :: bytes

record 'v decoded_frame =
  df_complete :: bool
  df_consumed :: nat
  df_frame :: 'v

text \<open>The views and frames without initialisers.\<close>

definition default_request :: request_view where
  "default_request = \<lparr> rq_opcode = Req_init, rq_flags = 0, rq_request_id = 0, rq_expire_at_ns = 0,
     rq_target_worker = kNoWorker, rq_key = [], rq_value = [] \<rparr>"

definition default_response :: response_view where
  "default_response = \<lparr> rs_status = Rsp_ok, rs_request_id = 0, rs_owner_worker = kNoWorker,
     rs_worker_count = 0, rs_routing_epoch = 0, rs_value = [] \<rparr>"

definition incomplete :: "'v \<Rightarrow> 'v decoded_frame" where
  "incomplete v = \<lparr> df_complete = False, df_consumed = 0, df_frame = v \<rparr>"

section \<open>Helpers\<close>

definition request_opcode :: "byte \<Rightarrow> req_opcode result" where
  "request_opcode encoded =
     (if encoded = opcode_byte Req_init then Inr Req_init
      else if encoded = opcode_byte Req_ping then Inr Req_ping
      else if encoded = opcode_byte Req_get then Inr Req_get
      else if encoded = opcode_byte Req_put then Inr Req_put
      else if encoded = opcode_byte Req_erase then Inr Req_erase
      else if encoded = opcode_byte Req_bind_worker then Inr Req_bind_worker
      else if encoded = opcode_byte Req_health then Inr Req_health
      else if encoded = opcode_byte Req_ready then Inr Req_ready
      else if encoded = opcode_byte Req_stats then Inr Req_stats
      else if encoded = opcode_byte Req_backup then Inr Req_backup
      else fail Invalid_record)"

definition response_status :: "u16 \<Rightarrow> rsp_status result" where
  "response_status encoded =
     (if encoded = status_code Rsp_ok then Inr Rsp_ok
      else if encoded = status_code Rsp_invalid_request then Inr Rsp_invalid_request
      else if encoded = status_code Rsp_unsupported then Inr Rsp_unsupported
      else if encoded = status_code Rsp_internal_error then Inr Rsp_internal_error
      else if encoded = status_code Rsp_not_found then Inr Rsp_not_found
      else if encoded = status_code Rsp_overloaded then Inr Rsp_overloaded
      else if encoded = status_code Rsp_wrong_owner then Inr Rsp_wrong_owner
      else if encoded = status_code Rsp_not_bound then Inr Rsp_not_bound
      else if encoded = status_code Rsp_permission_denied then Inr Rsp_permission_denied
      else fail Invalid_record)"

text \<open>\<open>checked_add\<close> on two values of \<open>size_t\<close>, which are natural numbers here.\<close>

definition size_add :: "nat \<Rightarrow> nat \<Rightarrow> nat result" where
  "size_add lhs rhs = (if lhs + rhs \<ge> 2 ^ 64 then fail Arithmetic_overflow else Inr (lhs + rhs))"

lemma size_add_checked_add:
  assumes "a < 2 ^ 64" "b < 2 ^ 64"
  shows "size_add a b = bind_result (checked_add (of_nat a :: u64) (of_nat b)) (\<lambda>w. Inr (unat w))"
proof -
  have u: "unat (of_nat a :: u64) = a" "unat (of_nat b :: u64) = b" using assms by (simp_all add: unat_of_nat_64)
  show ?thesis
  proof (cases "checked_add (of_nat a :: u64) (of_nat b)")
    case (Inl e)
    then have "e = Arithmetic_overflow" "2 ^ 64 \<le> a + b" by (simp_all add: checked_add_Inl_iff u)
    then show ?thesis using Inl by (simp add: size_add_def)
  next
    case (Inr w)
    then have "unat w = a + b" by (simp add: checked_add_Inr_iff u)
    then show ?thesis using Inr unat_u64_bound [of w] by (simp add: size_add_def)
  qed
qed

definition checked_frame_size :: "nat \<Rightarrow> nat \<Rightarrow> nat \<Rightarrow> nat result" where
  "checked_frame_size header_size first_size second_size =
     bind_result (size_add header_size first_size) (\<lambda>with_first. size_add with_first second_size)"

definition checked_u32 :: "nat \<Rightarrow> u32 result" where
  "checked_u32 n = (if n > 0xFFFFFFFF then fail Record_too_large else Inr (of_nat n))"

definition validate_request_fields :: "request_view \<Rightarrow> status" where
  "validate_request_fields request =
     (let has_key = rq_key request \<noteq> [];
          has_value = rq_value request \<noteq> [];
          has_expiry = rq_expire_at_ns request \<noteq> 0;
          has_target = rq_target_worker request \<noteq> kNoWorker
      in case rq_opcode request of
           Req_init \<Rightarrow> if has_key \<or> has_value \<or> has_expiry \<or> has_target then fail Invalid_argument else ok
         | Req_health \<Rightarrow> if has_key \<or> has_value \<or> has_expiry \<or> has_target then fail Invalid_argument else ok
         | Req_ready \<Rightarrow> if has_key \<or> has_value \<or> has_expiry \<or> has_target then fail Invalid_argument else ok
         | Req_stats \<Rightarrow> if has_key \<or> has_value \<or> has_expiry \<or> has_target then fail Invalid_argument else ok
         | Req_ping \<Rightarrow> if has_key \<or> has_expiry \<or> has_target then fail Invalid_argument else ok
         | Req_backup \<Rightarrow> if \<not> has_key \<or> has_value \<or> has_expiry \<or> has_target then fail Invalid_argument else ok
         | Req_get \<Rightarrow> if \<not> has_key \<or> has_value \<or> has_expiry \<or> has_target then fail Invalid_argument else ok
         | Req_put \<Rightarrow> if \<not> has_key \<or> has_target then fail Invalid_argument else ok
         | Req_erase \<Rightarrow> if \<not> has_key \<or> has_value \<or> has_expiry \<or> has_target then fail Invalid_argument else ok
         | Req_bind_worker \<Rightarrow>
             if has_key \<or> has_value \<or> has_expiry then fail Invalid_argument
             else if \<not> has_target then fail Invalid_argument else ok)"

section \<open>Decoders\<close>

definition decode_request :: "bytes \<Rightarrow> nat \<Rightarrow> request_view decoded_frame result" where
  "decode_request inp maximum_frame_bytes =
     (if length inp < 4 then Inr (incomplete default_request)
      else
        let frame_size = unat (get_u32 inp 0) in
        if frame_size < kRequestHeaderBytes \<or> frame_size > maximum_frame_bytes then fail Invalid_record
        else if length inp < frame_size then Inr (incomplete default_request)
        else if get_u16 inp 4 \<noteq> kProtocolVersion then fail Invalid_record
        else if inp ! 7 \<noteq> 0 \<or> get_u32 inp 36 \<noteq> 0 then fail Invalid_record
        else
          bind_result (request_opcode (inp ! 6)) (\<lambda>opcode.
          let key_size = unat (get_u32 inp 16); value_size = unat (get_u32 inp 20) in
          bind_result (checked_frame_size kRequestHeaderBytes key_size value_size) (\<lambda>expected_size.
          if expected_size \<noteq> frame_size then fail Invalid_record
          else
            let key = sub inp kRequestHeaderBytes key_size;
                val = sub inp (kRequestHeaderBytes + key_size) value_size;
                frame = \<lparr> rq_opcode = opcode, rq_flags = inp ! 7, rq_request_id = get_u64 inp 8,
                          rq_expire_at_ns = get_u64 inp 24, rq_target_worker = get_u32 inp 32,
                          rq_key = key, rq_value = val \<rparr> in
            bind_result (validate_request_fields frame) (\<lambda>_.
            Inr \<lparr> df_complete = True, df_consumed = frame_size, df_frame = frame \<rparr>))))"

definition decode_response :: "bytes \<Rightarrow> nat \<Rightarrow> response_view decoded_frame result" where
  "decode_response inp maximum_frame_bytes =
     (if length inp < 4 then Inr (incomplete default_response)
      else
        let frame_size = unat (get_u32 inp 0) in
        if frame_size < kResponseHeaderBytes \<or> frame_size > maximum_frame_bytes then fail Invalid_record
        else if length inp < frame_size then Inr (incomplete default_response)
        else if get_u16 inp 4 \<noteq> kProtocolVersion then fail Invalid_record
        else if get_u32 inp 28 \<noteq> 0 then fail Invalid_record
        else
          bind_result (response_status (get_u16 inp 6)) (\<lambda>status.
          let value_size = unat (get_u32 inp 16) in
          case checked_frame_size kResponseHeaderBytes value_size 0 of
            Inl _ \<Rightarrow> fail Invalid_record
          | Inr expected_size \<Rightarrow>
              if expected_size \<noteq> frame_size then fail Invalid_record
              else Inr \<lparr> df_complete = True, df_consumed = frame_size,
                         df_frame = \<lparr> rs_status = status, rs_request_id = get_u64 inp 8,
                                      rs_owner_worker = get_u32 inp 20, rs_worker_count = get_u32 inp 24,
                                      rs_routing_epoch = get_u64 inp 32,
                                      rs_value = sub inp kResponseHeaderBytes value_size \<rparr> \<rparr>))"

section \<open>Encoders\<close>

definition encoded_request_size :: "request_view \<Rightarrow> nat result" where
  "encoded_request_size request =
     (if rq_flags request \<noteq> 0 then fail Invalid_argument
      else bind_result (validate_request_fields request) (\<lambda>_.
        case checked_frame_size kRequestHeaderBytes (length (rq_key request)) (length (rq_value request)) of
          Inl _ \<Rightarrow> fail Record_too_large
        | Inr frame_size \<Rightarrow> if frame_size > kMaxFrameBytes then fail Record_too_large else Inr frame_size))"

text \<open>The stores into \<open>output.first(frame_size)\<close>, in program order.\<close>

definition write_request :: "bytes \<Rightarrow> request_view \<Rightarrow> u32 \<Rightarrow> u32 \<Rightarrow> u32 \<Rightarrow> bytes" where
  "write_request bytes request frame_size key_size value_size =
     (let bytes = put_u32 bytes 0 frame_size;
          bytes = put_u16 bytes 4 kProtocolVersion;
          bytes = bytes[6 := opcode_byte (rq_opcode request)];
          bytes = bytes[7 := rq_flags request];
          bytes = put_u64 bytes 8 (rq_request_id request);
          bytes = put_u32 bytes 16 key_size;
          bytes = put_u32 bytes 20 value_size;
          bytes = put_u64 bytes 24 (rq_expire_at_ns request);
          bytes = put_u32 bytes 32 (rq_target_worker request);
          bytes = put_u32 bytes 36 0;
          bytes = blit bytes kRequestHeaderBytes (rq_key request)
      in blit bytes (kRequestHeaderBytes + length (rq_key request)) (rq_value request))"

definition encode_request_into :: "bytes \<Rightarrow> request_view \<Rightarrow> bytes \<times> nat result" where
  "encode_request_into output request =
     (case encoded_request_size request of
        Inl e \<Rightarrow> (output, Inl e)
      | Inr frame_size \<Rightarrow>
          if length output < frame_size then (output, fail Invalid_argument)
          else
            (case (checked_u32 frame_size, checked_u32 (length (rq_key request)),
                   checked_u32 (length (rq_value request))) of
               (Inr fs, Inr ks, Inr vs) \<Rightarrow>
                 (write_request (take frame_size output) request fs ks vs @ drop frame_size output,
                  Inr frame_size)
             | _ \<Rightarrow> (output, fail Record_too_large)))"

definition encode_request :: "request_view \<Rightarrow> bytes result" where
  "encode_request request =
     bind_result (encoded_request_size request) (\<lambda>frame_size.
       (case encode_request_into (replicate frame_size 0) request of
          (_, Inl e) \<Rightarrow> Inl e
        | (output, Inr _) \<Rightarrow> Inr output))"

definition encoded_response_size :: "response_view \<Rightarrow> nat result" where
  "encoded_response_size response =
     (case checked_frame_size kResponseHeaderBytes (length (rs_value response)) 0 of
        Inl _ \<Rightarrow> fail Record_too_large
      | Inr frame_size \<Rightarrow> if frame_size > kMaxFrameBytes then fail Record_too_large else Inr frame_size)"

definition write_response :: "bytes \<Rightarrow> response_view \<Rightarrow> u32 \<Rightarrow> u32 \<Rightarrow> bytes" where
  "write_response bytes response frame_size value_size =
     (let bytes = put_u32 bytes 0 frame_size;
          bytes = put_u16 bytes 4 kProtocolVersion;
          bytes = put_u16 bytes 6 (status_code (rs_status response));
          bytes = put_u64 bytes 8 (rs_request_id response);
          bytes = put_u32 bytes 16 value_size;
          bytes = put_u32 bytes 20 (rs_owner_worker response);
          bytes = put_u32 bytes 24 (rs_worker_count response);
          bytes = put_u32 bytes 28 0
      in put_u64 bytes 32 (rs_routing_epoch response))"

definition encode_response_header :: "bytes \<Rightarrow> response_view \<Rightarrow> bytes \<times> nat result" where
  "encode_response_header output response =
     (case encoded_response_size response of
        Inl e \<Rightarrow> (output, Inl e)
      | Inr frame_size \<Rightarrow>
          if length output < kResponseHeaderBytes then (output, fail Invalid_argument)
          else
            (case (checked_u32 frame_size, checked_u32 (length (rs_value response))) of
               (Inr fs, Inr vs) \<Rightarrow>
                 (write_response (take kResponseHeaderBytes output) response fs vs
                    @ drop kResponseHeaderBytes output, Inr frame_size)
             | _ \<Rightarrow> (output, fail Record_too_large)))"

definition encode_response_into :: "bytes \<Rightarrow> response_view \<Rightarrow> bytes \<times> nat result" where
  "encode_response_into output response =
     (case encode_response_header output response of
        (output, Inl e) \<Rightarrow> (output, Inl e)
      | (output, Inr frame_size) \<Rightarrow>
          if length output < frame_size then (output, fail Invalid_argument)
          else (blit output kResponseHeaderBytes (rs_value response), Inr frame_size))"

definition encode_response :: "response_view \<Rightarrow> bytes result" where
  "encode_response response =
     bind_result (encoded_response_size response) (\<lambda>frame_size.
       (case encode_response_into (replicate frame_size 0) response of
          (_, Inl e) \<Rightarrow> Inl e
        | (output, Inr _) \<Rightarrow> Inr output))"

fun request_opcode_name :: "req_opcode \<Rightarrow> string" where
  "request_opcode_name Req_init = ''init''"
| "request_opcode_name Req_ping = ''ping''"
| "request_opcode_name Req_get = ''get''"
| "request_opcode_name Req_put = ''put''"
| "request_opcode_name Req_erase = ''erase''"
| "request_opcode_name Req_bind_worker = ''bind_worker''"
| "request_opcode_name Req_health = ''health''"
| "request_opcode_name Req_ready = ''ready''"
| "request_opcode_name Req_stats = ''stats''"
| "request_opcode_name Req_backup = ''backup''"

section \<open>Lemmas\<close>

lemma request_opcode_Inr: "request_opcode b = Inr c \<longleftrightarrow> b = opcode_byte c"
  by (cases c) (auto simp: request_opcode_def split: if_splits)

lemma response_status_Inr: "response_status w = Inr s \<longleftrightarrow> w = status_code s"
  by (cases s) (auto simp: response_status_def split: if_splits)

lemma checked_frame_size_small: "h + a + b < 2 ^ 64 \<Longrightarrow> checked_frame_size h a b = Inr (h + a + b)"
  by (simp add: checked_frame_size_def size_add_def)

lemma checked_frame_size_Inr: "checked_frame_size h a b = Inr n \<longleftrightarrow> n = h + a + b \<and> h + a + b < 2 ^ 64"
  by (auto simp: checked_frame_size_def size_add_def)

lemma checked_u32_Inr: "checked_u32 n = Inr w \<longleftrightarrow> n < 2 ^ 32 \<and> w = of_nat n"
  by (auto simp: checked_u32_def)

lemma update_le: "e[p := b] = put_le 1 e p (b :: byte)"
proof -
  have "byte_of_word b 0 = b" by (rule bit_word_eqI) (simp add: bit_byte_of_word)
  then show ?thesis by (simp add: put_le_def)
qed

lemma nth_le: "(e :: bytes) ! p = get_le 1 e p"
  by (simp add: get_le_def)

section \<open>The layout of the frames\<close>

definition request_layout :: "bytes \<Rightarrow> request_view \<Rightarrow> bool" where
  "request_layout e r \<longleftrightarrow>
     (let k = length (rq_key r); v = length (rq_value r) in
        length e = 40 + k + v \<and> get_u32 e 0 = of_nat (40 + k + v) \<and> get_u16 e 4 = kProtocolVersion
      \<and> e ! 6 = opcode_byte (rq_opcode r) \<and> e ! 7 = rq_flags r \<and> get_u64 e 8 = rq_request_id r
      \<and> get_u32 e 16 = of_nat k \<and> get_u32 e 20 = of_nat v \<and> get_u64 e 24 = rq_expire_at_ns r
      \<and> get_u32 e 32 = rq_target_worker r \<and> get_u32 e 36 = 0
      \<and> sub e 40 k = rq_key r \<and> sub e (40 + k) v = rq_value r)"

definition request_ok :: "request_view \<Rightarrow> bool" where
  "request_ok r \<longleftrightarrow> rq_flags r = 0 \<and> validate_request_fields r = ok
     \<and> 40 + length (rq_key r) + length (rq_value r) \<le> kMaxFrameBytes"

lemma write_request_layout:
  assumes "length e = 40 + length (rq_key r) + length (rq_value r)"
  shows "request_layout (write_request e r (of_nat (length e)) (of_nat (length (rq_key r)))
           (of_nat (length (rq_value r)))) r"
  using assms
  by (simp add: request_layout_def write_request_def Let_def protocol_sizes le_defs update_le nth_le
      get_le_blit_frame get_put_le_frame get_put_le sub_blit sub_blit_frame del: One_nat_def)

lemma request_layout_unique:
  assumes "request_layout e r" "request_layout e' r"
  shows "e = e'"
proof (rule nth_equalityI)
  let ?k = "length (rq_key r)" and ?v = "length (rq_value r)"
  note lay = assms [unfolded request_layout_def Let_def le_defs]
  show len: "length e = length e'" using lay by simp
  have big: "40 + ?k + ?v \<le> length e" "40 + ?k + ?v \<le> length e'" using lay by simp_all
  have "agree e e' 0 0" by simp
  then have "agree e e' 0 4" by (rule agree_u32) (use lay in simp_all)
  then have a6: "agree e e' 0 6" by (rule agree_u16) (use lay in simp_all)
  have a8: "agree e e' 0 8"
    unfolding agree_def
  proof (intro allI impI)
    fix j :: nat assume "0 \<le> j \<and> j < 8"
    then consider "j < 6" | "j = 6" | "j = 7" by linarith
    then show "e ! j = e' ! j" using a6 lay by cases (simp_all add: agree_def)
  qed
  then have "agree e e' 0 16" by (rule agree_u64) (use lay in simp_all)
  then have "agree e e' 0 20" by (rule agree_u32) (use lay in simp_all)
  then have "agree e e' 0 24" by (rule agree_u32) (use lay in simp_all)
  then have "agree e e' 0 32" by (rule agree_u64) (use lay in simp_all)
  then have "agree e e' 0 36" by (rule agree_u32) (use lay in simp_all)
  then have hd: "agree e e' 0 40" by (rule agree_u32) (use lay in simp_all)
  fix j assume j: "j < length e"
  consider "j < 40" | "40 \<le> j" "j < 40 + ?k" | "40 + ?k \<le> j" by linarith
  then show "e ! j = e' ! j"
  proof cases
    case 1 then show ?thesis using hd by (simp add: agree_def)
  next
    case 2 then show ?thesis using lay big by (intro sub_bytes_eq [of e 40 ?k e']) simp_all
  next
    case 3 then show ?thesis using j lay big by (intro sub_bytes_eq [of e "40 + ?k" ?v e']) simp_all
  qed
qed

lemma bounded_frame_size:
  "(case checked_frame_size h a b of Inl e \<Rightarrow> fail Record_too_large
     | Inr n \<Rightarrow> if n > kMaxFrameBytes then fail Record_too_large else Inr n)
   = (if h + a + b \<le> kMaxFrameBytes then Inr (h + a + b) else fail Record_too_large)"
proof (cases "h + a + b < 2 ^ 64")
  case True
  then show ?thesis by (simp add: checked_frame_size_small not_le)
next
  case False
  then have "\<nexists>n. checked_frame_size h a b = Inr n" by (simp add: checked_frame_size_Inr)
  then obtain e where "checked_frame_size h a b = Inl e" by (cases "checked_frame_size h a b") auto
  then show ?thesis using False by (simp add: protocol_sizes)
qed

lemma encoded_request_size_Inr:
  "encoded_request_size r = Inr n \<longleftrightarrow> request_ok r \<and> n = 40 + length (rq_key r) + length (rq_value r)"
  unfolding encoded_request_size_def bounded_frame_size request_ok_def
  by (auto simp: bind_result_eq_Inr_iff kRequestHeaderBytes_def)

lemma encode_request_Inr: "encode_request r = Inr e \<longleftrightarrow> request_ok r \<and> request_layout e r"
proof (cases "encoded_request_size r")
  case (Inl err)
  then have "\<not> request_ok r" using encoded_request_size_Inr [of r] by auto
  then show ?thesis using Inl by (simp add: encode_request_def)
next
  case (Inr n)
  then have r: "request_ok r" "n = 40 + length (rq_key r) + length (rq_value r)"
    by (simp_all add: encoded_request_size_Inr)
  then have small: "n < 2 ^ 32" "length (rq_key r) < 2 ^ 32" "length (rq_value r) < 2 ^ 32"
    by (simp_all add: request_ok_def protocol_sizes)
  have "encode_request r = Inr (write_request (replicate n 0) r (of_nat n) (of_nat (length (rq_key r)))
      (of_nat (length (rq_value r))))"
    using Inr small by (simp add: encode_request_def encode_request_into_def checked_u32_def)
  moreover have "request_layout (write_request (replicate n 0) r (of_nat n) (of_nat (length (rq_key r)))
      (of_nat (length (rq_value r)))) r"
    using write_request_layout [of "replicate n 0" r] r(2) by simp
  ultimately show ?thesis using r(1) request_layout_unique by auto
qed

section \<open>Decoding a request\<close>

definition request_frame :: "request_view \<Rightarrow> request_view decoded_frame" where
  "request_frame r = \<lparr> df_complete = True, df_consumed = 40 + length (rq_key r) + length (rq_value r), df_frame = r \<rparr>"

lemma decode_request_complete:
  assumes "decode_request inp lim = Inr d" "df_complete d"
  defines "n \<equiv> df_consumed d" and "r \<equiv> df_frame d"
  shows "request_layout (take n inp) r" "rq_flags r = 0" "validate_request_fields r = ok" "d = request_frame r"
    "n \<le> length inp" "n \<le> lim"
proof -
  let ?k = "unat (get_u32 inp 16)" and ?v = "unat (get_u32 inp 20)" and ?n = "unat (get_u32 inp 0)"
  have big: "40 + ?k + ?v < 2 ^ 64" using unat_u32_bound [of "get_u32 inp 16"] unat_u32_bound [of "get_u32 inp 20"] by simp
  have "4 \<le> length inp" "\<not> (?n < 40 \<or> ?n > lim)" "\<not> length inp < ?n"
    using assms(1,2) by (auto simp: decode_request_def Let_def protocol_sizes incomplete_def split: if_splits)
  note hd = this
  have eqs: "get_u16 inp 4 = kProtocolVersion" "inp ! 7 = 0" "get_u32 inp 36 = 0"
    using assms(1,2) hd by (auto simp: decode_request_def Let_def protocol_sizes split: if_splits)
  obtain c where c: "inp ! 6 = opcode_byte c" "?n = 40 + ?k + ?v"
    "r = \<lparr> rq_opcode = c, rq_flags = 0, rq_request_id = get_u64 inp 8, rq_expire_at_ns = get_u64 inp 24,
           rq_target_worker = get_u32 inp 32, rq_key = sub inp 40 ?k, rq_value = sub inp (40 + ?k) ?v \<rparr>"
    "validate_request_fields r = ok" "n = ?n"
    using assms(1) hd eqs big
    by (auto simp: decode_request_def Let_def protocol_sizes bind_result_eq_Inr_iff request_opcode_Inr
        checked_frame_size_small r_def n_def split: if_splits)
  have len: "length (rq_key r) = ?k" "length (rq_value r) = ?v" using c(2,3) hd by simp_all
  have w: "get_u32 inp 0 = of_nat (40 + ?k + ?v)" unfolding c(2) [symmetric] by simp
  have g: "get_le m (take n inp) q = get_le m inp q" if "q + m \<le> 40" for m q
    using that c(2,5) hd by (intro get_le_take) simp_all
  have sb: "sub (take n inp) 40 ?k = sub inp 40 ?k" "sub (take n inp) (40 + ?k) ?v = sub inp (40 + ?k) ?v"
    using c(2,5) hd by (auto intro!: nth_equalityI simp: nth_sub)
  have bt: "take n inp ! 6 = inp ! 6" "take n inp ! 7 = inp ! 7" using c(2,5) by simp_all
  have fl: "get_u32 (take n inp) 0 = get_u32 inp 0" "get_u16 (take n inp) 4 = get_u16 inp 4"
    "get_u64 (take n inp) 8 = get_u64 inp 8" "get_u32 (take n inp) 16 = get_u32 inp 16"
    "get_u32 (take n inp) 20 = get_u32 inp 20" "get_u64 (take n inp) 24 = get_u64 inp 24"
    "get_u32 (take n inp) 32 = get_u32 inp 32" "get_u32 (take n inp) 36 = get_u32 inp 36"
    by (simp_all add: le_defs g)
  have "length (take n inp) = 40 + ?k + ?v" using c(2,5) hd by simp
  then show "request_layout (take n inp) r"
    unfolding request_layout_def Let_def len fl bt sb eqs w c(1) by (simp add: c(3))
  show "rq_flags r = 0" "validate_request_fields r = ok" using c(3,4) by simp_all
  show "n \<le> length inp" "n \<le> lim" using hd c(5) by simp_all
  show "d = request_frame r"
    using assms(2) len c(2,5) unfolding request_frame_def len by (cases d) (simp add: n_def r_def)
qed

lemma decode_request_layout:
  assumes "request_layout bs r" "request_ok r" "length bs \<le> lim"
  shows "decode_request (take n (bs @ rest)) lim = Inr (if n < length bs then incomplete default_request else request_frame r)"
proof -
  let ?k = "length (rq_key r)" and ?v = "length (rq_value r)"
  define i where "i = take n (bs @ rest)"
  note lay = assms(1) [unfolded request_layout_def Let_def]
  have small: "40 + ?k + ?v < 4294967296" "length bs = 40 + ?k + ?v"
    using assms(2) lay by (simp_all add: request_ok_def protocol_sizes)
  have g: "get_le m i q = get_le m bs q" if "q + m \<le> 40" "q + m \<le> n" for m q
    using that small(2) by (intro get_le_cong) (simp add: i_def nth_append)
  have sz: "unat (of_nat (40 + ?k + ?v) :: u32) = 40 + ?k + ?v" by (rule unat_of_nat_32 [OF small(1)])
  have f: "unat (get_u32 i 0) = 40 + ?k + ?v" if "4 \<le> n"
    using that lay sz by (simp only: le_defs g)
  have "decode_request i lim = Inr (if n < length bs then incomplete default_request else request_frame r)"
  proof (cases "n < length bs")
    case True
    then have li: "length i = n" by (simp add: i_def)
    with True show ?thesis
      using f small assms(3) by (cases "4 \<le> n") (simp_all add: decode_request_def Let_def protocol_sizes li)
  next
    case False
    have n: "40 \<le> n" "40 + ?k + ?v \<le> n" using False small(2) by simp_all
    have kv: "unat (get_u32 i 16) = ?k" "unat (get_u32 i 20) = ?v"
      using lay small(1) n by (simp_all add: le_defs g unat_of_nat_32)
    have sb: "sub i 40 ?k = rq_key r" "sub i (40 + ?k) ?v = rq_value r"
    proof -
      have "sub i 40 ?k = sub bs 40 ?k" "sub i (40 + ?k) ?v = sub bs (40 + ?k) ?v"
        using n small(2) by (auto intro!: nth_equalityI simp: i_def nth_sub nth_append)
      then show "sub i 40 ?k = rq_key r" "sub i (40 + ?k) ?v = rq_value r" using lay by simp_all
    qed
    have b: "i ! 6 = opcode_byte (rq_opcode r)" "i ! 7 = 0"
      using n small(2) lay assms(2) by (simp_all add: i_def nth_append request_ok_def)
    have fl: "get_u16 i 4 = kProtocolVersion" "get_u32 i 36 = 0" "get_u64 i 8 = rq_request_id r"
      "get_u64 i 24 = rq_expire_at_ns r" "get_u32 i 32 = rq_target_worker r"
      using lay n by (simp_all add: le_defs g)
    have r: "\<lparr> rq_opcode = rq_opcode r, rq_flags = 0, rq_request_id = rq_request_id r, rq_expire_at_ns = rq_expire_at_ns r,
       rq_target_worker = rq_target_worker r, rq_key = rq_key r, rq_value = rq_value r \<rparr> = r"
      using assms(2) by (cases r) (simp add: request_ok_def)
    have l: "40 + ?k + ?v \<le> length i" using n small(2) by (simp add: i_def)
    have cf: "checked_frame_size 40 ?k ?v = Inr (40 + ?k + ?v)" using small(1) by (simp add: checked_frame_size_small)
    have oc: "request_opcode (opcode_byte (rq_opcode r)) = Inr (rq_opcode r)" by (simp add: request_opcode_Inr)
    have v: "validate_request_fields r = ok" using assms(2) by (simp add: request_ok_def)
    have ff: "unat (get_u32 i 0) = 40 + ?k + ?v" using f n by simp
    have nl: "\<not> length i < 4" "\<not> length i < 40 + ?k + ?v" using l by simp_all
    have "decode_request i lim = Inr (request_frame r)"
      using nl assms(3) small(2)
      unfolding decode_request_def Let_def protocol_sizes ff kv b fl sb oc cf bind_result_simps r v request_frame_def
      by simp
    then show ?thesis using False by simp
  qed
  then show ?thesis by (simp add: i_def)
qed

lemma request_layout_length: "request_layout bs r \<Longrightarrow> length bs = 40 + length (rq_key r) + length (rq_value r)"
  by (simp add: request_layout_def Let_def)

text \<open>A complete request at the start of the input.\<close>

definition complete_request :: "bytes \<Rightarrow> request_view decoded_frame result" where
  "complete_request inp =
     bind_result (decode_request inp kMaxFrameBytes) (\<lambda>d. if df_complete d then Inr d else fail Invalid_record)"

interpretation request_codec: framed_codec encode_request complete_request request_frame df_consumed
proof
  fix r bs rest assume "encode_request r = Inr bs"
  then have e: "request_ok r" "request_layout bs r" by (simp_all add: encode_request_Inr)
  have len: "length bs = 40 + length (rq_key r) + length (rq_value r)" using e(2) by (rule request_layout_length)
  have "length bs \<le> kMaxFrameBytes" using e(1) len by (simp add: request_ok_def)
  from decode_request_layout [OF e(2,1) this, of "length (bs @ rest)" rest]
  show "complete_request (bs @ rest) = Inr (request_frame r)"
    by (simp add: complete_request_def request_frame_def)
  show "df_consumed (request_frame r) = length bs" "bs \<noteq> []" using len by (auto simp: request_frame_def)
next
  fix bs d assume "complete_request bs = Inr d"
  then have "decode_request bs kMaxFrameBytes = Inr d" "df_complete d"
    by (auto simp: complete_request_def bind_result_eq_Inr_iff split: if_splits)
  note d = decode_request_complete [OF this]
  have n: "df_consumed d = 40 + length (rq_key (df_frame d)) + length (rq_value (df_frame d))"
    using d(4) by (simp add: request_frame_def) (metis decoded_frame.select_convs(2))
  then have "request_ok (df_frame d)" using d(2,3,6) by (simp add: request_ok_def)
  then show "df_consumed d \<le> length bs \<and> (\<exists>x. d = request_frame x \<and> encode_request x = Inr (take (df_consumed d) bs))"
    using d by (auto simp: encode_request_Inr)
next
  fix x y assume "request_frame x = request_frame y"
  then show "x = y" by (simp add: request_frame_def)
qed

section \<open>Responses\<close>

definition response_layout :: "bytes \<Rightarrow> response_view \<Rightarrow> bool" where
  "response_layout e r \<longleftrightarrow>
     (let v = length (rs_value r) in
        length e = 40 + v \<and> get_u32 e 0 = of_nat (40 + v) \<and> get_u16 e 4 = kProtocolVersion
      \<and> get_u16 e 6 = status_code (rs_status r) \<and> get_u64 e 8 = rs_request_id r \<and> get_u32 e 16 = of_nat v
      \<and> get_u32 e 20 = rs_owner_worker r \<and> get_u32 e 24 = rs_worker_count r \<and> get_u32 e 28 = 0
      \<and> get_u64 e 32 = rs_routing_epoch r \<and> sub e 40 v = rs_value r)"

definition response_ok :: "response_view \<Rightarrow> bool" where
  "response_ok r \<longleftrightarrow> 40 + length (rs_value r) \<le> kMaxFrameBytes"

definition response_frame :: "response_view \<Rightarrow> response_view decoded_frame" where
  "response_frame r = \<lparr> df_complete = True, df_consumed = 40 + length (rs_value r), df_frame = r \<rparr>"

lemma length_write_response [simp]: "length (write_response e r fs vs) = length e"
  by (simp add: write_response_def Let_def)

lemma write_response_layout:
  assumes "length h = 40"
  shows "response_layout (write_response h r (of_nat (40 + length (rs_value r))) (of_nat (length (rs_value r))) @ rs_value r) r"
  using assms
  by (simp add: response_layout_def write_response_def Let_def le_defs get_le_append get_put_le_frame get_put_le sub_def)

lemma response_layout_unique:
  assumes "response_layout e r" "response_layout e' r"
  shows "e = e'"
proof (rule nth_equalityI)
  let ?v = "length (rs_value r)"
  note lay = assms [unfolded response_layout_def Let_def le_defs]
  show len: "length e = length e'" using lay by simp
  have big: "40 + ?v \<le> length e" "40 + ?v \<le> length e'" using lay by simp_all
  have "agree e e' 0 0" by simp
  then have "agree e e' 0 4" by (rule agree_u32) (use lay in simp_all)
  then have "agree e e' 0 6" by (rule agree_u16) (use lay in simp_all)
  then have "agree e e' 0 8" by (rule agree_u16) (use lay in simp_all)
  then have "agree e e' 0 16" by (rule agree_u64) (use lay in simp_all)
  then have "agree e e' 0 20" by (rule agree_u32) (use lay in simp_all)
  then have "agree e e' 0 24" by (rule agree_u32) (use lay in simp_all)
  then have "agree e e' 0 28" by (rule agree_u32) (use lay in simp_all)
  then have "agree e e' 0 32" by (rule agree_u32) (use lay in simp_all)
  then have hd: "agree e e' 0 40" by (rule agree_u64) (use lay in simp_all)
  fix j assume j: "j < length e"
  show "e ! j = e' ! j"
  proof (cases "j < 40")
    case True then show ?thesis using hd by (simp add: agree_def)
  next
    case False then show ?thesis using j lay big by (intro sub_bytes_eq [of e 40 ?v e']) simp_all
  qed
qed

lemma encoded_response_size_Inr: "encoded_response_size r = Inr n \<longleftrightarrow> response_ok r \<and> n = 40 + length (rs_value r)"
  unfolding encoded_response_size_def bounded_frame_size response_ok_def by (auto simp: kResponseHeaderBytes_def)

lemma encode_response_header_ok:
  assumes "response_ok r" "40 \<le> length out"
  shows "encode_response_header out r =
    (write_response (take 40 out) r (of_nat (40 + length (rs_value r))) (of_nat (length (rs_value r))) @ drop 40 out,
     Inr (40 + length (rs_value r)))"
proof -
  have "encoded_response_size r = Inr (40 + length (rs_value r))" using assms(1) by (simp add: encoded_response_size_Inr)
  moreover have "40 + length (rs_value r) < 2 ^ 32" using assms(1) by (simp add: response_ok_def protocol_sizes)
  ultimately show ?thesis using assms(2)
    by (simp add: encode_response_header_def checked_u32_def kResponseHeaderBytes_def del: of_nat_add)
qed

lemma encode_response_Inr: "encode_response r = Inr e \<longleftrightarrow> response_ok r \<and> response_layout e r"
proof (cases "response_ok r")
  case True
  let ?n = "40 + length (rs_value r)"
  let ?w = "write_response (replicate 40 0) r (of_nat ?n) (of_nat (length (rs_value r)))"
  have "blit (?w @ replicate (length (rs_value r)) 0) 40 (rs_value r) = ?w @ rs_value r" by (simp add: blit_def)
  then have "encode_response r = Inr (?w @ rs_value r)"
    using encoded_response_size_Inr [of r ?n] True encode_response_header_ok [OF True, of "replicate ?n 0"]
    by (simp add: encode_response_def encode_response_into_def kResponseHeaderBytes_def del: of_nat_add)
  moreover have "response_layout (?w @ rs_value r) r" by (rule write_response_layout) simp
  ultimately show ?thesis using True response_layout_unique by auto
next
  case False
  then obtain err where "encoded_response_size r = Inl err"
    using encoded_response_size_Inr [of r] by (cases "encoded_response_size r") auto
  then show ?thesis using False by (simp add: encode_response_def)
qed

lemma decode_response_layout:
  assumes "response_layout bs r" "response_ok r" "length bs \<le> lim"
  shows "decode_response (take n (bs @ rest)) lim = Inr (if n < length bs then incomplete default_response else response_frame r)"
proof -
  let ?v = "length (rs_value r)"
  define i where "i = take n (bs @ rest)"
  note lay = assms(1) [unfolded response_layout_def Let_def]
  have small: "40 + ?v < 4294967296" "length bs = 40 + ?v"
    using assms(2) lay by (simp_all add: response_ok_def protocol_sizes)
  have g: "get_le m i q = get_le m bs q" if "q + m \<le> 40" "q + m \<le> n" for m q
    using that small(2) by (intro get_le_cong) (simp add: i_def nth_append)
  have sz: "unat (of_nat (40 + ?v) :: u32) = 40 + ?v" by (rule unat_of_nat_32 [OF small(1)])
  have f: "unat (get_u32 i 0) = 40 + ?v" if "4 \<le> n"
    using that lay sz by (simp only: le_defs g)
  have "decode_response i lim = Inr (if n < length bs then incomplete default_response else response_frame r)"
  proof (cases "n < length bs")
    case True
    then have li: "length i = n" by (simp add: i_def)
    with True show ?thesis
      using f small assms(3) by (cases "4 \<le> n") (simp_all add: decode_response_def Let_def protocol_sizes li)
  next
    case False
    have n: "40 \<le> n" "40 + ?v \<le> n" using False small(2) by simp_all
    have kv: "unat (get_u32 i 16) = ?v" using lay small(1) n by (simp add: le_defs g unat_of_nat_32)
    have "sub i 40 ?v = sub bs 40 ?v"
      using n small(2) by (auto intro!: nth_equalityI simp: i_def nth_sub nth_append)
    then have sb: "sub i 40 ?v = rs_value r" using lay by simp
    have fl: "get_u16 i 4 = kProtocolVersion" "get_u16 i 6 = status_code (rs_status r)" "get_u32 i 28 = 0"
      "get_u64 i 8 = rs_request_id r" "get_u32 i 20 = rs_owner_worker r" "get_u32 i 24 = rs_worker_count r"
      "get_u64 i 32 = rs_routing_epoch r"
      using lay n by (simp_all add: le_defs g)
    have l: "\<not> length i < 4" "\<not> length i < 40 + ?v" using n small(2) by (simp_all add: i_def)
    have cf: "checked_frame_size 40 ?v 0 = Inr (40 + ?v)" using small(1) by (simp add: checked_frame_size_small)
    have oc: "response_status (status_code (rs_status r)) = Inr (rs_status r)" by (simp add: response_status_Inr)
    have ff: "unat (get_u32 i 0) = 40 + ?v" using f n by simp
    have "decode_response i lim = Inr (response_frame r)"
      using l assms(3) small(2)
      unfolding decode_response_def Let_def protocol_sizes ff kv fl sb oc cf bind_result_simps response_frame_def
      by simp
    then show ?thesis using False by simp
  qed
  then show ?thesis by (simp add: i_def)
qed

section \<open>Properties\<close>

text \<open>
  C35.  A request that was encoded is decoded from a stream: while fewer bytes than its frame have
  arrived the decoder asks for more, however the bytes were cut, and once they are there it
  returns exactly the request and its extent, whatever follows.
\<close>

theorem request_framing:
  assumes "encode_request r = Inr bs" "length bs \<le> maximum"
  shows "decode_request (take n (bs @ rest)) maximum =
    Inr (if n < length bs then incomplete default_request
         else \<lparr> df_complete = True, df_consumed = length bs, df_frame = r \<rparr>)"
proof -
  have e: "request_ok r" "request_layout bs r" using assms(1) by (simp_all add: encode_request_Inr)
  have "request_frame r = \<lparr> df_complete = True, df_consumed = length bs, df_frame = r \<rparr>"
    by (simp add: request_frame_def request_layout_length [OF e(2)])
  then show ?thesis using decode_request_layout [OF e(2,1) assms(2)] by simp
qed

definition example_request :: request_view where
  "example_request = \<lparr> rq_opcode = Req_put, rq_flags = 0, rq_request_id = 77, rq_expire_at_ns = 5,
     rq_target_worker = kNoWorker, rq_key = [1, 2], rq_value = [3] \<rparr>"

lemma example_request_ok: "request_ok example_request"
  by (simp add: request_ok_def example_request_def validate_request_fields_def protocol_sizes)

lemma example_request_encodes:
  obtains bs where "encode_request example_request = Inr bs" "length bs = 43"
proof -
  have "request_layout (write_request (replicate 43 0) example_request (of_nat 43) (of_nat 2) (of_nat 1)) example_request"
    using write_request_layout [of "replicate 43 0" example_request] by (simp add: example_request_def)
  then show ?thesis
    using that encode_request_Inr example_request_ok request_layout_length by (auto simp: example_request_def)
qed

theorem request_framing_witness:
  "\<exists>bs. encode_request example_request = Inr bs
    \<and> decode_request (take 42 (bs @ [9, 9])) kMaxFrameBytes = Inr (incomplete default_request)
    \<and> decode_request (take 44 (bs @ [9, 9])) kMaxFrameBytes
        = Inr \<lparr> df_complete = True, df_consumed = 43, df_frame = example_request \<rparr>"
proof -
  obtain bs where e: "encode_request example_request = Inr bs" "length bs = 43" by (rule example_request_encodes)
  have l: "length bs \<le> kMaxFrameBytes" using e(2) by (simp add: protocol_sizes)
  show ?thesis
    using request_framing [OF e(1) l, of 42 "[9, 9]"] request_framing [OF e(1) l, of 44 "[9, 9]"] e by auto
qed

text \<open>
  C36.  The request format is canonical and self-delimiting: a complete frame the decoder accepts is
  byte for byte the encoding of the request it returns, the request obeys the field rules of its
  opcode, and the extent lies within the input and the limit; and two sequences of requests with the
  same concatenated encoding are the same sequence.
\<close>

theorem request_canonical:
  "(decode_request inp kMaxFrameBytes = Inr d \<and> df_complete d \<longrightarrow>
      encode_request (df_frame d) = Inr (take (df_consumed d) inp) \<and> df_consumed d \<le> length inp
      \<and> df_consumed d \<le> kMaxFrameBytes \<and> validate_request_fields (df_frame d) = ok)
   \<and> (list_all2 (\<lambda>r b. encode_request r = Inr b) rs as \<and> list_all2 (\<lambda>r b. encode_request r = Inr b) rs' bs
      \<and> concat as = concat bs \<longrightarrow> rs = rs')"
proof (intro conjI impI)
  assume "decode_request inp kMaxFrameBytes = Inr d \<and> df_complete d"
  then have d: "decode_request inp kMaxFrameBytes = Inr d" "df_complete d" by simp_all
  then have "complete_request inp = Inr d" by (simp add: complete_request_def)
  from request_codec.framed_canonical [OF this] obtain x
    where x: "df_consumed d \<le> length inp" "d = request_frame x" "encode_request x = Inr (take (df_consumed d) inp)" by blast
  then show "encode_request (df_frame d) = Inr (take (df_consumed d) inp)" "df_consumed d \<le> length inp"
    by (simp_all add: request_frame_def)
  show "validate_request_fields (df_frame d) = ok" "df_consumed d \<le> kMaxFrameBytes"
    by (rule decode_request_complete(3,6) [OF d])+
qed (elim conjE, rule request_codec.stream_unique)

theorem request_canonical_witness:
  "\<exists>bs d. decode_request bs kMaxFrameBytes = Inr d \<and> df_complete d \<and> df_frame d = example_request
     \<and> encode_request (df_frame d) = Inr (take (df_consumed d) bs)
     \<and> (list_all2 (\<lambda>r b. encode_request r = Inr b) [example_request] [bs] \<and> concat [bs] = bs)"
proof -
  obtain bs where e: "encode_request example_request = Inr bs" "length bs = 43" by (rule example_request_encodes)
  have d: "decode_request bs kMaxFrameBytes = Inr (request_frame example_request)"
    using decode_request_layout [of bs example_request kMaxFrameBytes 43 "[]"] e
    by (simp add: encode_request_Inr protocol_sizes)
  have f: "df_complete (request_frame example_request)" "df_frame (request_frame example_request) = example_request"
    by (simp_all add: request_frame_def)
  show ?thesis
    using request_canonical [of bs "request_frame example_request" "[example_request]" "[bs]" "[example_request]" "[bs]"] d f e(1)
    by (intro exI [of _ bs] exI [of _ "request_frame example_request"]) simp
qed

text \<open>
  C37.  A response that was encoded is decoded from a stream in the same way; and the header written
  for scatter/gather output, whatever the buffer held before, followed by the value is the same
  frame.
\<close>

theorem response_framing:
  assumes "encode_response r = Inr bs" "length bs \<le> maximum" "40 \<le> length out"
  shows "decode_response (take n (bs @ rest)) maximum =
      Inr (if n < length bs then incomplete default_response
           else \<lparr> df_complete = True, df_consumed = length bs, df_frame = r \<rparr>)
    \<and> snd (encode_response_header out r) = Inr (length bs)
    \<and> take kResponseHeaderBytes (fst (encode_response_header out r)) @ rs_value r = bs
    \<and> drop kResponseHeaderBytes (fst (encode_response_header out r)) = drop kResponseHeaderBytes out"
proof -
  have e: "response_ok r" "response_layout bs r" using assms(1) by (simp_all add: encode_response_Inr)
  have len: "length bs = 40 + length (rs_value r)" using e(2) by (simp add: response_layout_def Let_def)
  let ?h = "write_response (take 40 out) r (of_nat (40 + length (rs_value r))) (of_nat (length (rs_value r)))"
  have "?h @ rs_value r = bs"
    using write_response_layout [of "take 40 out" r] response_layout_unique [OF _ e(2)] assms(3) by simp
  moreover have "length ?h = 40" using assms(3) by simp
  ultimately show ?thesis
    using decode_response_layout [OF e(2,1) assms(2), of n rest] encode_response_header_ok [OF e(1) assms(3)] len
    by (simp add: response_frame_def kResponseHeaderBytes_def)
qed

definition example_response :: response_view where
  "example_response = \<lparr> rs_status = Rsp_wrong_owner, rs_request_id = 77, rs_owner_worker = 1,
     rs_worker_count = 4, rs_routing_epoch = 9, rs_value = [8, 8] \<rparr>"

theorem response_framing_witness:
  "\<exists>bs. encode_response example_response = Inr bs
    \<and> decode_response (take 42 (bs @ [1])) 100 = Inr \<lparr> df_complete = True, df_consumed = 42, df_frame = example_response \<rparr>
    \<and> take 40 (fst (encode_response_header (replicate 50 7) example_response)) @ [8, 8] = bs"
proof -
  have "response_ok example_response" by (simp add: response_ok_def example_response_def protocol_sizes)
  moreover have "response_layout (write_response (replicate 40 0) example_response (of_nat 42) (of_nat 2) @ [8, 8])
      example_response"
    using write_response_layout [of "replicate 40 0" example_response] by (simp add: example_response_def)
  ultimately obtain bs where e: "encode_response example_response = Inr bs" "response_layout bs example_response"
    using encode_response_Inr by blast
  then have len: "length bs = 42" by (simp add: response_layout_def Let_def example_response_def)
  then show ?thesis
    using response_framing [OF e(1), of 100 "replicate 50 7" 42 "[1]"] e(1)
    by (auto simp: kResponseHeaderBytes_def) (simp add: example_response_def)
qed

end
