(* ===== verification/Quiesce_Gate.thy ===== *)
theory Quiesce_Gate
  imports Glifi_Prelude
begin

text \<open>
  The index quiesce gate of a Worker with an exclusive Writer:
  \<open>src/include/glifistore/worker/worker.hpp\<close>, \<open>ExclusiveHotPathGuard\<close>, \<open>ExclusiveIndexQuiesce\<close> and the
  gate they share, with the check of the flag in \<open>put_locked_published\<close> and
  \<open>erase_locked_published\<close>.  The Writer mutates the index without the mutex; a compaction, a
  verification or an exclusive reader arms the gate and waits for the depth to drop to zero.

  One atomic access is one step, and threads interleave freely.  There is one Writer thread and
  any number of quiescing threads.  \<open>delayed\<close> selects the memory model: without it an access takes
  effect at once; with it a plain store may become visible after later loads of its thread, as on
  hardware with a store buffer and as the release and acquire orderings of the code permit, while
  a read-modify-write waits for the stores before it.  \<open>wait\<close> returns when the depth has changed, so
  the waiting loop ends in the step that reads zero.
\<close>

section \<open>State\<close>

datatype writer_pc = W_idle | W_entered | W_mutating | W_leaving
datatype quiescer_pc = Q_idle | Q_arming | Q_waiting | Q_holding | Q_disarming

record gate =
  g_active :: bool
  g_holders :: u32
  g_depth :: u32
  g_writer :: writer_pc
  g_quiescer :: "nat \<Rightarrow> quiescer_pc"
  g_buffer :: "nat \<Rightarrow> bool option"

definition open_gate :: gate where
  "open_gate = \<lparr> g_active = False, g_holders = 0, g_depth = 0, g_writer = W_idle,
     g_quiescer = (\<lambda>_. Q_idle), g_buffer = (\<lambda>_. None) \<rparr>"

section \<open>Steps\<close>

definition store_active :: "bool \<Rightarrow> gate \<Rightarrow> nat \<Rightarrow> bool \<Rightarrow> gate" where
  "store_active delayed g i b =
     (if delayed then g\<lparr> g_buffer := (g_buffer g)(i \<mapsto> b) \<rparr> else g\<lparr> g_active := b \<rparr>)"

definition flush_buffer :: "gate \<Rightarrow> nat \<Rightarrow> gate option" where
  "flush_buffer g i =
     (case g_buffer g i of
        None \<Rightarrow> None
      | Some b \<Rightarrow> Some (g\<lparr> g_active := b, g_buffer := (g_buffer g)(i := None) \<rparr>))"

text \<open>\<open>ExclusiveHotPathGuard\<close> and the check of the flag behind it.\<close>

definition enter_hot_path :: "gate \<Rightarrow> gate option" where
  "enter_hot_path g =
     (if g_writer g = W_idle then Some (g\<lparr> g_depth := g_depth g + 1, g_writer := W_entered \<rparr>) else None)"

definition check_quiesce :: "gate \<Rightarrow> gate option" where
  "check_quiesce g =
     (if g_writer g = W_entered
      then Some (g\<lparr> g_writer := if g_active g then W_leaving else W_mutating \<rparr>) else None)"

definition finish_mutation :: "gate \<Rightarrow> gate option" where
  "finish_mutation g = (if g_writer g = W_mutating then Some (g\<lparr> g_writer := W_leaving \<rparr>) else None)"

definition leave_hot_path :: "gate \<Rightarrow> gate option" where
  "leave_hot_path g =
     (if g_writer g = W_leaving then Some (g\<lparr> g_depth := g_depth g - 1, g_writer := W_idle \<rparr>) else None)"

text \<open>\<open>arm_index_quiesce_gate\<close>, the waiting loop of the constructor, \<open>disarm_index_quiesce_gate\<close>.\<close>

definition arm_add :: "gate \<Rightarrow> nat \<Rightarrow> gate option" where
  "arm_add g i =
     (if g_quiescer g i = Q_idle \<and> g_buffer g i = None
      then Some (g\<lparr> g_holders := g_holders g + 1,
                    g_quiescer := (g_quiescer g)(i := if g_holders g = 0 then Q_arming else Q_waiting) \<rparr>)
      else None)"

definition arm_store :: "bool \<Rightarrow> gate \<Rightarrow> nat \<Rightarrow> gate option" where
  "arm_store delayed g i =
     (if g_quiescer g i = Q_arming
      then Some ((store_active delayed g i True)\<lparr> g_quiescer := (g_quiescer g)(i := Q_waiting) \<rparr>)
      else None)"

definition wait_depth :: "gate \<Rightarrow> nat \<Rightarrow> gate option" where
  "wait_depth g i =
     (if g_quiescer g i = Q_waiting \<and> g_depth g = 0
      then Some (g\<lparr> g_quiescer := (g_quiescer g)(i := Q_holding) \<rparr>) else None)"

definition disarm_sub :: "gate \<Rightarrow> nat \<Rightarrow> gate option" where
  "disarm_sub g i =
     (if g_quiescer g i = Q_holding \<and> g_buffer g i = None
      then Some (g\<lparr> g_holders := g_holders g - 1,
                    g_quiescer := (g_quiescer g)(i := if g_holders g = 1 then Q_disarming else Q_idle) \<rparr>)
      else None)"

definition disarm_store :: "bool \<Rightarrow> gate \<Rightarrow> nat \<Rightarrow> gate option" where
  "disarm_store delayed g i =
     (if g_quiescer g i = Q_disarming
      then Some ((store_active delayed g i False)\<lparr> g_quiescer := (g_quiescer g)(i := Q_idle) \<rparr>)
      else None)"

datatype gate_action = Enter | Check | Finish | Leave
  | Arm_add nat | Arm_store nat | Wait_depth nat | Disarm_sub nat | Disarm_store nat | Flush nat

fun gate_act :: "bool \<Rightarrow> gate_action \<Rightarrow> gate \<Rightarrow> gate option" where
  "gate_act delayed Enter g = enter_hot_path g"
| "gate_act delayed Check g = check_quiesce g"
| "gate_act delayed Finish g = finish_mutation g"
| "gate_act delayed Leave g = leave_hot_path g"
| "gate_act delayed (Arm_add i) g = arm_add g i"
| "gate_act delayed (Arm_store i) g = arm_store delayed g i"
| "gate_act delayed (Wait_depth i) g = wait_depth g i"
| "gate_act delayed (Disarm_sub i) g = disarm_sub g i"
| "gate_act delayed (Disarm_store i) g = disarm_store delayed g i"
| "gate_act delayed (Flush i) g = flush_buffer g i"

lemmas gate_defs = enter_hot_path_def check_quiesce_def finish_mutation_def leave_hot_path_def arm_add_def
  arm_store_def wait_depth_def disarm_sub_def disarm_store_def flush_buffer_def store_active_def

text \<open>The thread of an action; the Writer has none.\<close>

fun quiescer_of :: "gate_action \<Rightarrow> nat option" where
  "quiescer_of (Arm_add i) = Some i"
| "quiescer_of (Arm_store i) = Some i"
| "quiescer_of (Wait_depth i) = Some i"
| "quiescer_of (Disarm_sub i) = Some i"
| "quiescer_of (Disarm_store i) = Some i"
| "quiescer_of (Flush i) = Some i"
| "quiescer_of _ = None"

inductive gate_reachable :: "bool \<Rightarrow> nat \<Rightarrow> gate \<Rightarrow> bool" for delayed n where
  start: "gate_reachable delayed n open_gate"
| step: "gate_reachable delayed n g \<Longrightarrow> gate_act delayed a g = Some g' \<Longrightarrow>
    (case quiescer_of a of None \<Rightarrow> True | Some i \<Rightarrow> i < n) \<Longrightarrow> gate_reachable delayed n g'"

definition excluded :: "gate \<Rightarrow> nat \<Rightarrow> bool" where
  "excluded g i \<longleftrightarrow> \<not> (g_writer g = W_mutating \<and> g_quiescer g i = Q_holding)"

section \<open>One quiescing thread\<close>

definition gate_inv :: "gate \<Rightarrow> bool" where
  "gate_inv g \<longleftrightarrow>
     g_buffer g 0 = None
   \<and> g_depth g = (if g_writer g = W_idle then 0 else 1)
   \<and> g_holders g = (if g_quiescer g 0 \<in> {Q_idle, Q_disarming} then 0 else 1)
   \<and> (g_active g \<longleftrightarrow> g_quiescer g 0 \<in> {Q_waiting, Q_holding, Q_disarming})
   \<and> (g_quiescer g 0 = Q_holding \<longrightarrow> g_writer g \<noteq> W_mutating)"

lemma gate_inv_step:
  "gate_inv g \<Longrightarrow> gate_act False a g = Some g' \<Longrightarrow> (case quiescer_of a of None \<Rightarrow> True | Some i \<Rightarrow> i < 1) \<Longrightarrow>
   gate_inv g'"
  by (cases a; cases "g_writer g"; cases "g_quiescer g 0";
      clarsimp simp: gate_defs split: if_splits option.splits; simp add: gate_inv_def)

lemma gate_reachable_inv: "gate_reachable False 1 g \<Longrightarrow> gate_inv g"
proof (induction rule: gate_reachable.induct)
  case start
  then show ?case by (simp add: gate_inv_def open_gate_def)
next
  case (step g a g')
  then show ?case using gate_inv_step by blast
qed

text \<open>
  C27.  With atomic accesses in program order and one quiescing thread, the Writer never mutates the
  index while the thread holds the gate, and outside the gate's own two stores the flag is set
  exactly while it is armed.
\<close>

theorem gate_excludes_writer:
  assumes "gate_reachable False 1 g"
  shows "excluded g 0 \<and> (g_active g \<longleftrightarrow> g_quiescer g 0 \<in> {Q_waiting, Q_holding, Q_disarming})
    \<and> g_depth g \<le> 1 \<and> g_holders g \<le> 1"
  using gate_reachable_inv [OF assms] by (auto simp: gate_inv_def excluded_def)

section \<open>Runs\<close>

fun gate_run :: "bool \<Rightarrow> gate_action list \<Rightarrow> gate \<Rightarrow> gate option" where
  "gate_run delayed [] g = Some g"
| "gate_run delayed (a # as) g =
     (case gate_act delayed a g of None \<Rightarrow> None | Some g' \<Rightarrow> gate_run delayed as g')"

lemma gate_run_reachable:
  "gate_reachable delayed n g \<Longrightarrow> gate_run delayed as g = Some g' \<Longrightarrow>
   \<forall>a \<in> set as. case quiescer_of a of None \<Rightarrow> True | Some i \<Rightarrow> i < n \<Longrightarrow> gate_reachable delayed n g'"
proof (induction as arbitrary: g)
  case (Cons a as)
  then obtain g1 where g1: "gate_act delayed a g = Some g1" "gate_run delayed as g1 = Some g'"
    by (auto split: option.splits)
  have "gate_reachable delayed n g1" by (rule gate_reachable.step [OF Cons.prems(1) g1(1)]) (use Cons.prems(3) in simp)
  then show ?case by (rule Cons.IH [OF _ g1(2)]) (use Cons.prems(3) in simp)
qed simp

theorem gate_excludes_writer_witness:
  "\<exists>g. gate_run False [Arm_add 0, Arm_store 0, Wait_depth 0, Enter] open_gate = Some g
     \<and> g_quiescer g 0 = Q_holding \<and> g_writer g = W_entered \<and> excluded g 0"
proof -
  obtain g where g: "gate_run False [Arm_add 0, Arm_store 0, Wait_depth 0, Enter] open_gate = Some g"
    "g_quiescer g 0 = Q_holding" "g_writer g = W_entered"
    by (simp add: gate_defs open_gate_def)
  have "gate_reachable False 1 g"
    by (rule gate_run_reachable [OF gate_reachable.start g(1)]) simp
  from gate_excludes_writer [OF this] g show ?thesis by blast
qed

text \<open>
  C28.  With two quiescing threads the gate does not exclude the Writer: the second thread finds a
  holder and skips the store of the flag, reads depth zero and holds the gate before the first
  thread has stored the flag, so the Writer passes the check and mutates.  A late store of
  \<open>false\<close> by the last holder of one round does the same to the holder of the next.
\<close>

theorem gate_two_quiescers_race:
  "\<exists>g g'. gate_reachable False 2 g \<and> gate_reachable False 2 g'
     \<and> \<not> excluded g 1 \<and> g_quiescer g 0 = Q_arming
     \<and> \<not> excluded g' 1 \<and> g_quiescer g' 0 = Q_idle \<and> g_holders g' = 1"
proof -
  let ?arm = "[Arm_add 0, Arm_add 1, Wait_depth 1, Enter, Check]"
  let ?disarm = "[Arm_add 0, Arm_store 0, Wait_depth 0, Disarm_sub 0, Arm_add 1, Arm_store 1, Wait_depth 1,
      Disarm_store 0, Enter, Check]"
  obtain g where g: "gate_run False ?arm open_gate = Some g" "\<not> excluded g 1" "g_quiescer g 0 = Q_arming"
    by (simp add: gate_defs open_gate_def excluded_def)
  obtain g' where g': "gate_run False ?disarm open_gate = Some g'" "\<not> excluded g' 1" "g_quiescer g' 0 = Q_idle"
    "g_holders g' = 1"
    by (simp add: gate_defs open_gate_def excluded_def)
  have "gate_reachable False 2 g" by (rule gate_run_reachable [OF gate_reachable.start g(1)]) simp
  moreover have "gate_reachable False 2 g'" by (rule gate_run_reachable [OF gate_reachable.start g'(1)]) simp
  ultimately show ?thesis using g g' by blast
qed

text \<open>
  C29.  The release store of the flag may become visible after the acquire load of the depth: one
  quiescing thread then holds the gate while the Writer mutates.
\<close>

theorem gate_store_buffer_race:
  "\<exists>g. gate_reachable True 1 g \<and> \<not> excluded g 0"
proof -
  obtain g where g: "gate_run True [Arm_add 0, Arm_store 0, Wait_depth 0, Enter, Check] open_gate = Some g"
    "g_quiescer g 0 = Q_holding" "g_writer g = W_mutating"
    by (simp add: gate_defs open_gate_def)
  have "gate_reachable True 1 g" by (rule gate_run_reachable [OF gate_reachable.start g(1)]) simp
  then show ?thesis using g by (auto simp: excluded_def)
qed

end
