(* ===== verification/Segment.thy ===== *)
theory Segment
  imports Segment_Header
begin

text \<open>
  The in-memory segment: \<open>src/include/glifistore/segment/segment.hpp\<close> and
  \<open>src/src/segment/segment.cpp\<close>.  The 64 MiB buffer is a function from offsets to bytes;
  \<open>make_unique_for_overwrite\<close> leaves it uninitialised, so the bytes behind the reserved
  header are a parameter of the constructor.  Operations take the segment and return it.

  The specification of a segment is the list of the records appended to it.  \<open>seg_log\<close>
  relates a segment to that list; the lemmas show that \<open>append\<close> extends the list, \<open>read\<close>
  returns the record a reference was issued for and \<open>scan\<close> lists the references in order.
\<close>

section \<open>State\<close>

datatype segment_state = Seg_free | Seg_active | Seg_sealed | Seg_retired | Seg_reclaimable | Seg_corrupted
datatype residency_state = Res_resident | Res_mapped | Res_evicted | Res_loading | Res_evicting

record record_ref =
  rr_segment_id :: u64
  rr_offset :: u32
  rr_size :: u32
  rr_sequence :: u64
  rr_generation :: u32

record segment_stats =
  ss_used_bytes :: nat
  ss_live_bytes :: u64
  ss_record_count :: u64
  ss_live_records :: u64
  ss_first_sequence :: u64
  ss_last_sequence :: u64

record segment =
  seg_id :: u64
  seg_owner :: u32
  seg_generation :: u32
  seg_state :: segment_state
  seg_residency :: residency_state
  seg_storage :: "nat \<Rightarrow> byte"
  seg_write_offset :: nat
  seg_stats :: segment_stats

text \<open>The span of \<open>n\<close> bytes of the buffer at \<open>off\<close>, and storing bytes there.\<close>

definition span_of :: "(nat \<Rightarrow> byte) \<Rightarrow> nat \<Rightarrow> nat \<Rightarrow> bytes" where
  "span_of m off n = map m [off..<off + n]"

definition store_span :: "(nat \<Rightarrow> byte) \<Rightarrow> nat \<Rightarrow> bytes \<Rightarrow> nat \<Rightarrow> byte" where
  "store_span m off bs = (\<lambda>a. if off \<le> a \<and> a < off + length bs then bs ! (a - off) else m a)"

section \<open>Operations\<close>

definition make_segment :: "(nat \<Rightarrow> byte) \<Rightarrow> u64 \<Rightarrow> u32 \<Rightarrow> u32 \<Rightarrow> segment" where
  "make_segment uninit sid owner generation =
     \<lparr> seg_id = sid, seg_owner = owner, seg_generation = generation, seg_state = Seg_active,
       seg_residency = Res_resident,
       seg_storage = (\<lambda>a. if a < kSegmentHeaderReservedBytes then 0 else uninit a),
       seg_write_offset = kSegmentHeaderReservedBytes,
       seg_stats = \<lparr> ss_used_bytes = kSegmentHeaderReservedBytes, ss_live_bytes = 0,
                     ss_record_count = 0, ss_live_records = 0, ss_first_sequence = 0,
                     ss_last_sequence = 0 \<rparr> \<rparr>"

definition segment_append :: "bool \<Rightarrow> segment \<Rightarrow> record_input \<Rightarrow> segment \<times> record_ref result" where
  "segment_append debug s inp =
     (if seg_state s \<noteq> Seg_active then (s, fail Segment_sealed)
      else
        (case encoded_record_size inp of
           Inl e \<Rightarrow> (s, Inl e)
         | Inr encoded_size \<Rightarrow>
             if \<not> range_contains (of_nat kSegmentSizeBytes :: u64) (of_nat (seg_write_offset s))
                   (of_nat encoded_size)
             then (s, fail Segment_full)
             else
               let offset = seg_write_offset s;
                   destination = span_of (seg_storage s) offset encoded_size;
                   (written, encoded) = encode_record_sized debug destination inp encoded_size;
                   s = s\<lparr> seg_storage := store_span (seg_storage s) offset written \<rparr>
               in case encoded of
                    Inl e \<Rightarrow> (s, Inl e)
                  | Inr _ \<Rightarrow>
                      let write_offset = offset + encoded_size;
                          stats = seg_stats s;
                          stats = stats\<lparr> ss_used_bytes := write_offset,
                                         ss_record_count := ss_record_count stats + 1 \<rparr>;
                          stats = (if ss_record_count stats = 1
                                   then stats\<lparr> ss_first_sequence := ri_sequence inp \<rparr> else stats);
                          stats = stats\<lparr> ss_last_sequence := ri_sequence inp \<rparr>
                      in (s\<lparr> seg_write_offset := write_offset, seg_stats := stats \<rparr>,
                          Inr \<lparr> rr_segment_id = seg_id s, rr_offset = of_nat offset,
                                rr_size = of_nat encoded_size, rr_sequence = ri_sequence inp,
                                rr_generation = seg_generation s \<rparr>)))"

definition validate_ref_extent :: "segment \<Rightarrow> record_ref \<Rightarrow> status" where
  "validate_ref_extent s ref =
     (if rr_segment_id ref \<noteq> seg_id s \<or> rr_generation ref \<noteq> seg_generation s
      then fail Invalid_reference
      else if unat (rr_offset ref) < kSegmentHeaderReservedBytes
              \<or> \<not> range_contains (of_nat (ss_used_bytes (seg_stats s))) (rr_offset ref) (rr_size ref)
      then fail Invalid_reference
      else ok)"

definition decode_at :: "segment \<Rightarrow> record_ref \<Rightarrow> bool \<Rightarrow> record_view result" where
  "decode_at s ref verify =
     bind_result (decode_record (span_of (seg_storage s) (unat (rr_offset ref)) (unat (rr_size ref))) verify)
       (\<lambda>decoded.
         if rv_sequence decoded \<noteq> rr_sequence ref \<or> rv_encoded_size decoded \<noteq> rr_size ref
         then fail Invalid_reference else Inr decoded)"

definition segment_read :: "segment \<Rightarrow> record_ref \<Rightarrow> record_view result" where
  "segment_read s ref = bind_result (validate_ref_extent s ref) (\<lambda>_. decode_at s ref True)"

definition is_trusted :: "segment \<Rightarrow> bool" where
  "is_trusted s \<longleftrightarrow> seg_residency s = Res_resident \<and> seg_state s \<noteq> Seg_active"

definition segment_read_trusted :: "segment \<Rightarrow> record_ref \<Rightarrow> record_view result" where
  "segment_read_trusted s ref =
     (if \<not> is_trusted s then fail Invalid_argument
      else bind_result (validate_ref_extent s ref) (\<lambda>_. decode_at s ref False))"

lemma decoded_size_pos: "decode_record bs c = Inr v \<Longrightarrow> 56 \<le> unat (rv_encoded_size v)"
  using record_extent_bounds(1) [of "unat (get_u32 bs 12)" "unat (get_u32 bs 16)"]
  by (simp add: decode_record_Inr)

function scan_loop :: "segment \<Rightarrow> nat \<Rightarrow> record_ref list \<Rightarrow> record_ref list result" where
  "scan_loop s offset refs =
     (if offset < ss_used_bytes (seg_stats s) then
        (case decode_record (span_of (seg_storage s) offset (ss_used_bytes (seg_stats s) - offset)) True of
           Inl e \<Rightarrow> Inl e
         | Inr decoded \<Rightarrow>
             scan_loop s (offset + unat (rv_encoded_size decoded))
               (refs @ [\<lparr> rr_segment_id = seg_id s, rr_offset = of_nat offset,
                          rr_size = rv_encoded_size decoded, rr_sequence = rv_sequence decoded,
                          rr_generation = seg_generation s \<rparr>]))
      else Inr refs)"
  by pat_completeness auto

termination
  by (relation "measure (\<lambda>(s, offset, refs). ss_used_bytes (seg_stats s) - offset)")
    (auto dest!: decoded_size_pos)

declare scan_loop.simps [simp del]

definition segment_scan :: "segment \<Rightarrow> record_ref list result" where
  "segment_scan s =
     bind_result (scan_loop s kSegmentHeaderReservedBytes []) (\<lambda>refs.
       if of_nat (length refs) \<noteq> ss_record_count (seg_stats s) then fail Corrupted_data else Inr refs)"

definition segment_seal :: "segment \<Rightarrow> segment \<times> status" where
  "segment_seal s =
     (if seg_state s \<noteq> Seg_active then (s, fail Invalid_argument)
      else (s\<lparr> seg_state := Seg_sealed \<rparr>, ok))"

definition segment_mark_live :: "segment \<Rightarrow> record_ref \<Rightarrow> segment \<times> status" where
  "segment_mark_live s ref =
     (case validate_ref_extent s ref of
        Inl e \<Rightarrow> (s, Inl e)
      | Inr _ \<Rightarrow>
          let stats = seg_stats s in
          (s\<lparr> seg_stats := stats\<lparr> ss_live_records := ss_live_records stats + 1,
                                  ss_live_bytes := ss_live_bytes stats + ucast (rr_size ref) \<rparr> \<rparr>, ok))"

definition segment_mark_dead :: "segment \<Rightarrow> record_ref \<Rightarrow> segment \<times> status" where
  "segment_mark_dead s ref =
     (case validate_ref_extent s ref of
        Inl e \<Rightarrow> (s, Inl e)
      | Inr _ \<Rightarrow>
          let stats = seg_stats s in
          if ss_live_records stats = 0 \<or> ss_live_bytes stats < ucast (rr_size ref)
          then (s, fail Invalid_argument)
          else (s\<lparr> seg_stats := stats\<lparr> ss_live_records := ss_live_records stats - 1,
                                       ss_live_bytes := ss_live_bytes stats - ucast (rr_size ref) \<rparr> \<rparr>, ok))"

definition segment_retire :: "segment \<Rightarrow> segment \<times> status" where
  "segment_retire s =
     (if seg_state s \<noteq> Seg_sealed \<or> ss_live_records (seg_stats s) \<noteq> 0 then (s, fail Invalid_argument)
      else (s\<lparr> seg_state := Seg_retired \<rparr>, ok))"

section \<open>Spans\<close>

lemma length_span_of [simp]: "length (span_of m off n) = n"
  by (simp add: span_of_def)

lemma nth_span_of [simp]: "i < n \<Longrightarrow> span_of m off n ! i = m (off + i)"
  by (simp add: span_of_def)

lemma span_of_add: "span_of m off (a + b) = span_of m off a @ span_of m (off + a) b"
  by (intro nth_equalityI) (auto simp: nth_append)

lemma span_of_store: "n = length bs \<Longrightarrow> span_of (store_span m off bs) off n = bs"
  by (intro nth_equalityI) (simp_all add: store_span_def)

lemma span_of_store_frame:
  "p + n \<le> off \<or> off + length bs \<le> p \<Longrightarrow> span_of (store_span m off bs) p n = span_of m p n"
  by (intro nth_equalityI) (auto simp: store_span_def)

section \<open>Encoded records\<close>

definition rec_size :: "record_input \<Rightarrow> nat" where
  "rec_size i = record_extent (length (ri_key i)) (length (ri_value i))"

definition rec_ok :: "record_input \<Rightarrow> bool" where
  "rec_ok i \<longleftrightarrow> validate_record_input i = ok \<and> rec_size i \<le> kMaxNormalRecordSize"

definition rec_bytes :: "record_input \<Rightarrow> bytes" where
  "rec_bytes i = write_record (replicate (rec_size i) 0) i (rec_size i)"

lemma encoded_record_size_ok: "encoded_record_size i = Inr n \<longleftrightarrow> rec_ok i \<and> n = rec_size i"
  by (auto simp: encoded_record_size_def compute_encoded_size_Inr rec_ok_def rec_size_def)

lemma rec_layout: "record_layout (rec_bytes i) i"
  by (simp add: rec_bytes_def write_record_layout rec_size_def)

lemma length_rec_bytes [simp]: "length (rec_bytes i) = rec_size i"
  using rec_layout [of i] by (simp add: record_layout_def Let_def rec_size_def)

lemma write_record_any: "length e = rec_size i \<Longrightarrow> write_record e i (rec_size i) = rec_bytes i"
  using record_layout_unique [OF _ rec_layout, of "write_record e i (rec_size i)" i]
    write_record_layout [of "rec_size i" i e]
  by (simp add: rec_size_def)

lemma decode_rec_bytes: "rec_ok i \<Longrightarrow> decode_record (rec_bytes i @ rest) c = Inr (view_of i)"
  using decode_record_layout [OF rec_layout] by (simp add: rec_ok_def rec_size_def)

lemma rec_size_bounds: "56 \<le> rec_size i" "rec_ok i \<Longrightarrow> rec_size i \<le> 1048576"
  using record_extent_bounds(1) [of "length (ri_key i)" "length (ri_value i)"]
  by (simp_all add: rec_size_def rec_ok_def record_consts)

lemma view_of_size: "rv_encoded_size (view_of i) = of_nat (rec_size i)" "rv_sequence (view_of i) = ri_sequence i"
  by (simp_all add: view_of_def rec_size_def)

lemma unat_rec_size: "rec_ok i \<Longrightarrow> unat (of_nat (rec_size i) :: u32) = rec_size i"
  using rec_size_bounds(2) [of i] by (simp add: unat_of_nat_32)

section \<open>The log of a segment\<close>

definition seg_log :: "segment \<Rightarrow> record_input list \<Rightarrow> bool" where
  "seg_log s log \<longleftrightarrow>
     list_all rec_ok log
   \<and> seg_write_offset s = 4096 + sum_list (map rec_size log) \<and> seg_write_offset s \<le> 67108864
   \<and> span_of (seg_storage s) 4096 (sum_list (map rec_size log)) = concat (map rec_bytes log)
   \<and> ss_used_bytes (seg_stats s) = seg_write_offset s
   \<and> ss_record_count (seg_stats s) = of_nat (length log)
   \<and> (log \<noteq> [] \<longrightarrow> ss_first_sequence (seg_stats s) = ri_sequence (hd log)
                   \<and> ss_last_sequence (seg_stats s) = ri_sequence (last log))"

definition log_ref :: "segment \<Rightarrow> nat \<Rightarrow> record_input \<Rightarrow> record_ref" where
  "log_ref s off i = \<lparr> rr_segment_id = seg_id s, rr_offset = of_nat off, rr_size = of_nat (rec_size i),
     rr_sequence = ri_sequence i, rr_generation = seg_generation s \<rparr>"

primrec log_refs :: "segment \<Rightarrow> nat \<Rightarrow> record_input list \<Rightarrow> record_ref list" where
  "log_refs s off [] = []"
| "log_refs s off (i # log) = log_ref s off i # log_refs s (off + rec_size i) log"

lemma length_log_refs [simp]: "length (log_refs s off log) = length log"
  by (induction log arbitrary: off) simp_all

lemma log_refs_append:
  "log_refs s off (xs @ ys) = log_refs s off xs @ log_refs s (off + sum_list (map rec_size xs)) ys"
  by (induction xs arbitrary: off) (simp_all add: add.assoc)

lemma log_refs_cong:
  "seg_id s = seg_id s' \<Longrightarrow> seg_generation s = seg_generation s' \<Longrightarrow> log_refs s off log = log_refs s' off log"
  by (induction log arbitrary: off) (simp_all add: log_ref_def)

lemma log_refs_nth:
  "k < length log \<Longrightarrow>
   log_refs s off log ! k = log_ref s (off + sum_list (map rec_size (take k log))) (log ! k)"
  by (induction log arbitrary: off k) (auto simp: nth_Cons add.assoc split: nat.split)

lemma log_length_bound:
  "list_all rec_ok log \<Longrightarrow> 56 * length log \<le> sum_list (map rec_size log)"
  using rec_size_bounds(1) by (induction log) (auto intro: add_mono)

lemma make_segment_log: "seg_log (make_segment g i w n) []"
  by (simp add: seg_log_def make_segment_def header_sizes span_of_def)

lemma range_contains_size:
  "a \<le> 67108864 \<Longrightarrow> n \<le> 1048576 \<Longrightarrow>
   range_contains (of_nat kSegmentSizeBytes :: u64) (of_nat a) (of_nat n) \<longleftrightarrow> a + n \<le> 67108864"
  by (simp add: range_contains_iff header_sizes unat_of_nat_64)

lemma encode_destination:
  assumes "rec_ok i"
  shows "encode_record_sized debug (span_of m off (rec_size i)) i (rec_size i) = (rec_bytes i, ok)"
proof -
  have "compute_encoded_size i = Inr (rec_size i)"
    using assms by (simp add: compute_encoded_size_Inr rec_ok_def rec_size_def)
  then show ?thesis by (simp add: encode_record_sized_ok write_record_any)
qed

lemma segment_append_unfold:
  assumes "seg_write_offset s \<le> 67108864" "seg_state s = Seg_active" "rec_ok i"
    and "seg_write_offset s + rec_size i \<le> 67108864"
  shows "segment_append debug s i =
    (let st = seg_stats s; w = seg_write_offset s + rec_size i;
         n = ss_record_count st + 1
     in (s\<lparr> seg_storage := store_span (seg_storage s) (seg_write_offset s) (rec_bytes i),
            seg_write_offset := w,
            seg_stats := st\<lparr> ss_used_bytes := w, ss_record_count := n,
              ss_first_sequence := (if n = 1 then ri_sequence i else ss_first_sequence st),
              ss_last_sequence := ri_sequence i \<rparr> \<rparr>,
         Inr (log_ref s (seg_write_offset s) i)))"
proof -
  have "encoded_record_size i = Inr (rec_size i)" using assms(3) by (simp add: encoded_record_size_ok)
  then show ?thesis
    using assms range_contains_size [OF assms(1) rec_size_bounds(2) [OF assms(3)]]
    by (simp add: segment_append_def encode_destination log_ref_def Let_def)
qed

lemma segment_append_fails:
  assumes "seg_log s log" "segment_append debug s i = (s', Inl e)"
  shows "s' = s \<and> (seg_state s \<noteq> Seg_active \<and> e = Segment_sealed
    \<or> seg_state s = Seg_active \<and> compute_encoded_size i = Inl e
    \<or> seg_state s = Seg_active \<and> rec_ok i \<and> seg_write_offset s + rec_size i > 67108864 \<and> e = Segment_full)"
proof (cases "encoded_record_size i")
  case (Inl e')
  then show ?thesis using assms(2)
    by (auto simp: segment_append_def encoded_record_size_def split: if_splits)
next
  case (Inr n)
  then have n: "rec_ok i" "n = rec_size i" by (simp_all add: encoded_record_size_ok)
  have w: "seg_write_offset s \<le> 67108864" using assms(1) by (simp add: seg_log_def)
  note rc = range_contains_size [OF w rec_size_bounds(2) [OF n(1)]]
  show ?thesis
  proof (cases "seg_state s = Seg_active \<and> seg_write_offset s + rec_size i \<le> 67108864")
    case True
    then show ?thesis using assms(2) segment_append_unfold [OF w _ n(1), of debug] by (simp add: Let_def)
  next
    case False
    then show ?thesis using assms(2) Inr n rc
      by (auto simp: segment_append_def split: if_splits)
  qed
qed

lemma segment_append_log:
  assumes log: "seg_log s log" and app: "segment_append debug s i = (s', Inr ref)"
  shows "seg_log s' (log @ [i])" "log_refs s' 4096 (log @ [i]) = log_refs s 4096 log @ [ref]"
    "seg_state s = Seg_active" "rec_ok i"
proof -
  from app obtain n where act: "seg_state s = Seg_active" and n: "encoded_record_size i = Inr n"
    by (auto simp: segment_append_def split: if_splits sum.splits)
  then have ok: "rec_ok i" by (simp add: encoded_record_size_ok)
  show "seg_state s = Seg_active" "rec_ok i" by (fact act, fact ok)
  have w: "seg_write_offset s \<le> 67108864" using log by (simp add: seg_log_def)
  have fit: "seg_write_offset s + rec_size i \<le> 67108864"
    using app act n range_contains_size [OF w rec_size_bounds(2) [OF ok]]
    by (auto simp: segment_append_def encoded_record_size_ok split: if_splits)
  note un = segment_append_unfold [OF w act ok fit, of debug]
  have ref: "ref = log_ref s (seg_write_offset s) i" using app un by (simp add: Let_def)
  define st where "st = seg_stats s"
  define c where "c = ss_record_count st + 1"
  define w' where "w' = seg_write_offset s + rec_size i"
  have s': "s' = s\<lparr> seg_storage := store_span (seg_storage s) (seg_write_offset s) (rec_bytes i),
      seg_write_offset := w', seg_stats := st\<lparr> ss_used_bytes := w', ss_record_count := c,
        ss_first_sequence := (if c = 1 then ri_sequence i else ss_first_sequence st),
        ss_last_sequence := ri_sequence i \<rparr> \<rparr>"
  proof -
    have "s' = fst (segment_append debug s i)" using app by simp
    then show ?thesis unfolding un Let_def fst_conv st_def c_def w'_def .
  qed
  let ?n = "sum_list (map rec_size log)"
  have wo: "seg_write_offset s = 4096 + ?n" using log by (simp add: seg_log_def)
  show "log_refs s' 4096 (log @ [i]) = log_refs s 4096 log @ [ref]"
    using log_refs_cong [of s' s] by (simp add: log_refs_append ref s' wo log_ref_def)
  have cnt: "c = 1 \<longleftrightarrow> log = []"
  proof -
    have "length log < 18446744073709551615"
      using log_length_bound [of log] log by (simp add: seg_log_def)
    then have "unat (of_nat (length log) :: u64) = length log" by (simp add: unat_of_nat_64)
    then have "(of_nat (length log) :: u64) = 0 \<longleftrightarrow> log = []"
      unfolding word_unat_eq_iff by simp
    then show ?thesis using log by (simp add: c_def st_def seg_log_def)
  qed
  have body: "span_of (seg_storage s') 4096 (?n + rec_size i) = concat (map rec_bytes log) @ rec_bytes i"
    using log by (simp add: s' wo span_of_add span_of_store span_of_store_frame seg_log_def)
  have first: "ss_first_sequence (seg_stats s') = ri_sequence (hd (log @ [i]))"
    using log cnt by (cases "log = []") (simp_all add: s' st_def seg_log_def)
  show "seg_log s' (log @ [i])"
    unfolding seg_log_def
    using log ok fit body first by (simp add: s' w'_def st_def c_def wo seg_log_def)
qed

section \<open>Reading the log back\<close>

lemma length_concat_rec_bytes: "length (concat (map rec_bytes log)) = sum_list (map rec_size log)"
  by (induction log) simp_all

lemma seg_log_suffix:
  assumes "seg_log s (pre @ post)"
  shows "span_of (seg_storage s) (4096 + sum_list (map rec_size pre)) (sum_list (map rec_size post))
    = concat (map rec_bytes post)"
proof -
  let ?a = "sum_list (map rec_size pre)" and ?b = "sum_list (map rec_size post)"
  have "span_of (seg_storage s) 4096 ?a @ span_of (seg_storage s) (4096 + ?a) ?b
      = concat (map rec_bytes pre) @ concat (map rec_bytes post)"
    using assms by (simp add: seg_log_def flip: span_of_add)
  then show ?thesis by (simp add: length_concat_rec_bytes)
qed

lemma seg_log_extent:
  assumes "seg_log s (pre @ i # post)"
  defines "off \<equiv> 4096 + sum_list (map rec_size pre)"
  shows "off + rec_size i \<le> 67108864" "off + rec_size i \<le> ss_used_bytes (seg_stats s)"
    "unat (of_nat off :: u32) = off" "unat (of_nat (ss_used_bytes (seg_stats s)) :: u32)
       = ss_used_bytes (seg_stats s)" "rec_ok i"
    "span_of (seg_storage s) off (rec_size i) = rec_bytes i"
proof -
  show b: "off + rec_size i \<le> 67108864" "off + rec_size i \<le> ss_used_bytes (seg_stats s)"
    using assms(1) by (simp_all add: seg_log_def off_def)
  show "unat (of_nat off :: u32) = off" "unat (of_nat (ss_used_bytes (seg_stats s)) :: u32)
      = ss_used_bytes (seg_stats s)"
  proof -
    have "ss_used_bytes (seg_stats s) \<le> 67108864" using assms(1) by (simp add: seg_log_def)
    then show "unat (of_nat off :: u32) = off" "unat (of_nat (ss_used_bytes (seg_stats s)) :: u32)
        = ss_used_bytes (seg_stats s)"
      using b(1) by (auto intro!: unat_of_nat_32)
  qed
  show "rec_ok i" using assms(1) by (simp add: seg_log_def)
  show "span_of (seg_storage s) off (rec_size i) = rec_bytes i"
    using seg_log_suffix [OF assms(1)] by (simp add: off_def span_of_add)
qed

lemma log_ref_extent_valid:
  assumes "seg_log s (pre @ i # post)"
  shows "validate_ref_extent s (log_ref s (4096 + sum_list (map rec_size pre)) i) = ok"
  using seg_log_extent [OF assms]
  by (simp add: validate_ref_extent_def log_ref_def range_contains_iff header_sizes unat_rec_size
      del: of_nat_add)

lemma decode_at_log_ref:
  assumes "seg_log s (pre @ i # post)"
  shows "decode_at s (log_ref s (4096 + sum_list (map rec_size pre)) i) c = Inr (view_of i)"
  using seg_log_extent [OF assms] decode_rec_bytes [of i "[]" c]
  by (simp add: decode_at_def log_ref_def unat_rec_size view_of_size del: of_nat_add)

lemma read_log_ref:
  assumes "seg_log s log" "k < length log"
  shows "segment_read s (log_refs s 4096 log ! k) = Inr (view_of (log ! k))"
    "is_trusted s \<Longrightarrow> segment_read_trusted s (log_refs s 4096 log ! k) = Inr (view_of (log ! k))"
    "validate_ref_extent s (log_refs s 4096 log ! k) = ok"
proof -
  have "log = take k log @ log ! k # drop (Suc k) log" using assms(2) by (simp add: id_take_nth_drop)
  then have "seg_log s (take k log @ log ! k # drop (Suc k) log)" using assms(1) by simp
  from log_ref_extent_valid [OF this] decode_at_log_ref [OF this]
  show "segment_read s (log_refs s 4096 log ! k) = Inr (view_of (log ! k))"
    "is_trusted s \<Longrightarrow> segment_read_trusted s (log_refs s 4096 log ! k) = Inr (view_of (log ! k))"
    "validate_ref_extent s (log_refs s 4096 log ! k) = ok"
    by (simp_all add: segment_read_def segment_read_trusted_def log_refs_nth assms(2))
qed

lemma scan_loop_log:
  "seg_log s (pre @ post) \<Longrightarrow>
   scan_loop s (4096 + sum_list (map rec_size pre)) acc
     = Inr (acc @ log_refs s (4096 + sum_list (map rec_size pre)) post)"
proof (induction post arbitrary: pre acc)
  case Nil
  then show ?case by (simp add: scan_loop.simps seg_log_def)
next
  case (Cons i post)
  let ?off = "4096 + sum_list (map rec_size pre)"
  note ext = seg_log_extent [OF Cons.prems]
  have used: "ss_used_bytes (seg_stats s) - ?off = sum_list (map rec_size (i # post))"
    using Cons.prems by (simp add: seg_log_def)
  have less: "?off < ss_used_bytes (seg_stats s)" using ext(2) rec_size_bounds(1) [of i] by linarith
  have dec: "decode_record (span_of (seg_storage s) ?off (ss_used_bytes (seg_stats s) - ?off)) True
      = Inr (view_of i)"
    unfolding used seg_log_suffix [OF Cons.prems] by (simp add: decode_rec_bytes ext(5))
  have "scan_loop s ?off acc = scan_loop s (4096 + sum_list (map rec_size (pre @ [i]))) (acc @ [log_ref s ?off i])"
    by (subst scan_loop.simps)
      (simp add: less dec view_of_size unat_rec_size ext(5) log_ref_def add.assoc del: of_nat_add)
  also have "\<dots> = Inr ((acc @ [log_ref s ?off i]) @ log_refs s (4096 + sum_list (map rec_size (pre @ [i]))) post)"
    by (rule Cons.IH) (use Cons.prems in simp)
  finally show ?case by (simp add: add.assoc)
qed

lemma scan_log: "seg_log s log \<Longrightarrow> segment_scan s = Inr (log_refs s 4096 log)"
  using scan_loop_log [of s "[]" log "[]"] by (simp add: segment_scan_def header_sizes seg_log_def)

section \<open>State changes\<close>

lemma seg_log_state_change:
  assumes "seg_log s log" "seg_storage s' = seg_storage s" "seg_write_offset s' = seg_write_offset s"
    "ss_used_bytes (seg_stats s') = ss_used_bytes (seg_stats s)"
    "ss_record_count (seg_stats s') = ss_record_count (seg_stats s)"
    "ss_first_sequence (seg_stats s') = ss_first_sequence (seg_stats s)"
    "ss_last_sequence (seg_stats s') = ss_last_sequence (seg_stats s)"
  shows "seg_log s' log"
  using assms by (simp add: seg_log_def)

lemma mark_keeps_log:
  "seg_log s log \<Longrightarrow> seg_log (fst (segment_mark_live s ref)) log"
  "seg_log s log \<Longrightarrow> seg_log (fst (segment_mark_dead s ref)) log"
  "seg_log s log \<Longrightarrow> seg_log (fst (segment_seal s)) log"
  "seg_log s log \<Longrightarrow> seg_log (fst (segment_retire s)) log"
  by (auto simp: segment_mark_live_def segment_mark_dead_def segment_seal_def segment_retire_def Let_def
      split: sum.split elim!: seg_log_state_change)

section \<open>Properties\<close>

text \<open>
  C18.  \<open>append\<close> refines appending to the list of records: on success the log grows by the
  record, the returned reference reads back that record and the earlier references stay as
  they were; on failure the segment is unchanged and the error names the reason.
\<close>

theorem segment_append_refines:
  assumes "seg_log s log"
  shows "case segment_append debug s i of
      (s', Inr ref) \<Rightarrow>
        seg_log s' (log @ [i]) \<and> log_refs s' 4096 (log @ [i]) = log_refs s 4096 log @ [ref]
        \<and> segment_read s' ref = Inr (view_of i)
    | (s', Inl e) \<Rightarrow>
        s' = s \<and> (seg_state s \<noteq> Seg_active \<and> e = Segment_sealed
                 \<or> seg_state s = Seg_active \<and> compute_encoded_size i = Inl e
                 \<or> seg_state s = Seg_active \<and> rec_ok i \<and> seg_write_offset s + rec_size i > kSegmentSizeBytes
                   \<and> e = Segment_full)"
proof (cases "segment_append debug s i")
  case (Pair s' r)
  show ?thesis
  proof (cases r)
    case (Inl e)
    then show ?thesis using segment_append_fails [OF assms, of debug i s' e] Pair by (simp add: header_sizes)
  next
    case (Inr ref)
    note app = segment_append_log [OF assms Pair [unfolded Inr]]
    have "log_refs s' 4096 (log @ [i]) ! length log = ref" by (simp add: app(2) nth_append)
    then have "segment_read s' ref = Inr (view_of i)"
      using read_log_ref(1) [OF app(1), of "length log"] by simp
    then show ?thesis using Pair Inr app by simp
  qed
qed

theorem segment_append_refines_witness:
  "seg_log (fst (segment_append True (make_segment (\<lambda>_. 0xAB) 1 0 1) example_input)) [example_input]"
proof -
  let ?s = "make_segment (\<lambda>_. 0xAB) 1 0 1"
  have ok: "rec_ok example_input" "rec_size example_input = 64"
    by (simp_all add: rec_ok_def rec_size_def example_input_def result_simps record_enums record_consts
        record_extent_def)
  have "\<exists>s' ref. segment_append True ?s example_input = (s', Inr ref)"
    using segment_append_unfold [of ?s example_input True] ok
    by (simp add: make_segment_def header_sizes Let_def)
  then show ?thesis
    using segment_append_refines [OF make_segment_log [of "\<lambda>_. 0xAB" 1 0 1],
        where debug = True and i = example_input] by auto
qed

text \<open>A client of a segment: any sequence of its operations, and the records it accepted.\<close>

datatype seg_op = Op_append record_input | Op_live record_ref | Op_dead record_ref | Op_seal | Op_retire

fun seg_run :: "bool \<Rightarrow> seg_op list \<Rightarrow> segment \<times> record_input list \<Rightarrow> segment \<times> record_input list" where
  "seg_run debug [] st = st"
| "seg_run debug (Op_append i # ops) (s, log) =
     (case segment_append debug s i of
        (s', Inr _) \<Rightarrow> seg_run debug ops (s', log @ [i])
      | (s', Inl _) \<Rightarrow> seg_run debug ops (s', log))"
| "seg_run debug (Op_live ref # ops) (s, log) = seg_run debug ops (fst (segment_mark_live s ref), log)"
| "seg_run debug (Op_dead ref # ops) (s, log) = seg_run debug ops (fst (segment_mark_dead s ref), log)"
| "seg_run debug (Op_seal # ops) (s, log) = seg_run debug ops (fst (segment_seal s), log)"
| "seg_run debug (Op_retire # ops) (s, log) = seg_run debug ops (fst (segment_retire s), log)"

lemma seg_run_log: "seg_log s log \<Longrightarrow> seg_run debug ops (s, log) = (s', log') \<Longrightarrow> seg_log s' log'"
proof (induction debug ops "(s, log)" arbitrary: s log rule: seg_run.induct)
  case (2 debug i ops s log)
  show ?case
  proof (cases "segment_append debug s i")
    case (Pair t r)
    show ?thesis
    proof (cases r)
      case (Inl e)
      then have "t = s" using segment_append_fails [OF "2.prems"(1)] Pair by blast
      then show ?thesis using 2 Pair Inl by simp
    next
      case (Inr ref)
      then show ?thesis using 2 Pair segment_append_log(1) [OF "2.prems"(1)] by simp
    qed
  qed
qed (use mark_keeps_log in auto)

text \<open>
  C19.  After any sequence of operations on a new segment, with any bytes in its uninitialised
  buffer, \<open>scan\<close> returns one reference per accepted record, in order, and \<open>read\<close> returns the
  record of each reference.
\<close>

theorem segment_scan_reads_log:
  "let (s, log) = seg_run debug ops (make_segment uninit sid owner gen, []);
       refs = log_refs s 4096 log
   in segment_scan s = Inr refs \<and> length refs = length log
      \<and> map (segment_read s) refs = map (Inr \<circ> view_of) log"
proof -
  obtain s log where run: "seg_run debug ops (make_segment uninit sid owner gen, []) = (s, log)"
    by (cases "seg_run debug ops (make_segment uninit sid owner gen, [])")
  then have log: "seg_log s log" using seg_run_log [OF make_segment_log] by blast
  have "map (segment_read s) (log_refs s 4096 log) = map (Inr \<circ> view_of) log"
    by (rule nth_equalityI) (simp_all add: read_log_ref(1) [OF log])
  then show ?thesis by (simp add: run scan_log [OF log])
qed

end
