(* ===== verification/Global_Manager.thy ===== *)
theory Global_Manager
  imports Segment "HOL-Library.AList"
begin

text \<open>
  The live catalog of segments: \<open>src/include/glifistore/segment/global_manager.hpp\<close> and
  \<open>src/src/segment/global_manager.cpp\<close>.  Segments are shared objects, so they live in an
  explicit store and a \<open>SegmentPtr\<close> is an address in it, absent when null.  The catalog is an
  association list from segment ids to addresses.  Every operation holds the manager's mutex
  from start to end and is one atomic step here.

  \<open>throw_at\<close> is the replacement whose insertion into the hash map runs out of memory, if any;
  the result \<open>None\<close> of \<open>replace_sealed\<close> is the exception leaving the function.
\<close>

section \<open>Store of segments\<close>

type_synonym ptr = nat

record seg_heap =
  hp_mem :: "ptr \<Rightarrow> segment option"
  hp_next :: ptr

definition deref :: "seg_heap \<Rightarrow> ptr \<Rightarrow> segment" where
  "deref h p = the (hp_mem h p)"

definition assign :: "seg_heap \<Rightarrow> ptr \<Rightarrow> segment \<Rightarrow> seg_heap" where
  "assign h p s = h\<lparr> hp_mem := (hp_mem h)(p \<mapsto> s) \<rparr>"

definition make_shared :: "seg_heap \<Rightarrow> segment \<Rightarrow> seg_heap \<times> ptr" where
  "make_shared h s = (h\<lparr> hp_mem := (hp_mem h)(hp_next h \<mapsto> s), hp_next := Suc (hp_next h) \<rparr>, hp_next h)"

section \<open>The manager\<close>

type_synonym catalog = "(u64 \<times> ptr) list"

record manager =
  gm_next_id :: u64
  gm_catalog :: catalog
  gm_retired_count :: u64

definition make_manager :: "u64 \<Rightarrow> manager" where
  "make_manager first_id = \<lparr> gm_next_id = first_id, gm_catalog = [], gm_retired_count = 0 \<rparr>"

definition register_segment :: "seg_heap \<Rightarrow> catalog \<Rightarrow> ptr \<Rightarrow> catalog" where
  "register_segment h catalog p = AList.update (seg_id (deref h p)) p catalog"

definition allocate_active ::
  "(nat \<Rightarrow> byte) \<Rightarrow> seg_heap \<Rightarrow> manager \<Rightarrow> u32 \<Rightarrow> seg_heap \<times> manager \<times> ptr" where
  "allocate_active uninit h m owner =
     (let (h, p) = make_shared h (make_segment uninit (gm_next_id m) owner 1);
          m = m\<lparr> gm_catalog := register_segment h (gm_catalog m) p \<rparr>
      in (h, m\<lparr> gm_next_id := gm_next_id m + 1 \<rparr>, p))"

definition prepare_segment ::
  "(nat \<Rightarrow> byte) \<Rightarrow> seg_heap \<Rightarrow> manager \<Rightarrow> u32 \<Rightarrow> seg_heap \<times> manager \<times> ptr result" where
  "prepare_segment uninit h m owner =
     (if gm_next_id m = - 1 then (h, m, fail Arithmetic_overflow)
      else
        let (h, p) = make_shared h (make_segment uninit (gm_next_id m) owner 1)
        in (h, m\<lparr> gm_next_id := gm_next_id m + 1 \<rparr>, Inr p))"

definition prepare_rotation ::
  "(nat \<Rightarrow> byte) \<Rightarrow> seg_heap \<Rightarrow> manager \<Rightarrow> ptr option \<Rightarrow> u32 \<Rightarrow> seg_heap \<times> manager \<times> ptr result" where
  "prepare_rotation uninit h m active owner =
     (case active of
        None \<Rightarrow> (h, m, fail Invalid_argument)
      | Some a \<Rightarrow>
          if seg_state (deref h a) \<noteq> Seg_active then (h, m, fail Invalid_argument)
          else if map_of (gm_catalog m) (seg_id (deref h a)) \<noteq> Some a \<or> seg_owner (deref h a) \<noteq> owner
          then (h, m, fail Invalid_reference)
          else if gm_next_id m = - 1 then (h, m, fail Arithmetic_overflow)
          else
            let (h, p) = make_shared h (make_segment uninit (gm_next_id m) owner 1)
            in (h, m\<lparr> gm_next_id := gm_next_id m + 1 \<rparr>, Inr p))"

definition commit_rotation ::
  "seg_heap \<Rightarrow> manager \<Rightarrow> ptr option \<Rightarrow> ptr option \<Rightarrow> seg_heap \<times> manager \<times> status" where
  "commit_rotation h m active replacement =
     (case (active, replacement) of
        (Some a, Some r) \<Rightarrow>
          if seg_state (deref h a) \<noteq> Seg_active \<or> seg_state (deref h r) \<noteq> Seg_active
             \<or> seg_owner (deref h a) \<noteq> seg_owner (deref h r)
          then (h, m, fail Invalid_argument)
          else if map_of (gm_catalog m) (seg_id (deref h a)) \<noteq> Some a
                  \<or> map_of (gm_catalog m) (seg_id (deref h r)) \<noteq> None
          then (h, m, fail Invalid_reference)
          else
            let catalog = register_segment h (gm_catalog m) r;
                (s, sealed) = segment_seal (deref h a);
                h = assign h a s
            in (case sealed of
                  Inl e \<Rightarrow> (h, m\<lparr> gm_catalog := AList.delete (seg_id (deref h r)) catalog \<rparr>, Inl e)
                | Inr _ \<Rightarrow> (h, m\<lparr> gm_catalog := catalog \<rparr>, ok))
      | _ \<Rightarrow> (h, m, fail Invalid_argument))"

text \<open>The two validation loops of \<open>replace_sealed\<close>; \<open>previous\<close> are the elements before the index.\<close>

fun check_sources :: "seg_heap \<Rightarrow> catalog \<Rightarrow> u64 list \<Rightarrow> u32 \<Rightarrow> u64 list \<Rightarrow> u32 result" where
  "check_sources h catalog previous owner [] = Inr owner"
| "check_sources h catalog previous owner (sid # rest) =
     (case map_of catalog sid of
        None \<Rightarrow> fail Invalid_argument
      | Some p \<Rightarrow>
          let s = deref h p in
          if seg_state s \<noteq> Seg_sealed \<or> ss_live_records (seg_stats s) \<noteq> 0 then fail Invalid_argument
          else if previous \<noteq> [] \<and> seg_owner s \<noteq> owner then fail Invalid_argument
          else if sid \<in> set previous then fail Invalid_argument
          else check_sources h catalog (previous @ [sid]) (if previous = [] then seg_owner s else owner) rest)"

fun check_replacements :: "seg_heap \<Rightarrow> catalog \<Rightarrow> u32 \<Rightarrow> ptr list \<Rightarrow> ptr option list \<Rightarrow> ptr list result" where
  "check_replacements h catalog owner previous [] = Inr previous"
| "check_replacements h catalog owner previous (None # rest) = fail Invalid_argument"
| "check_replacements h catalog owner previous (Some p # rest) =
     (let s = deref h p in
      if seg_state s \<noteq> Seg_sealed \<or> seg_owner s \<noteq> owner \<or> map_of catalog (seg_id s) \<noteq> None
      then fail Invalid_argument
      else if \<exists>q \<in> set previous. seg_id (deref h q) = seg_id s then fail Invalid_argument
      else check_replacements h catalog owner (previous @ [p]) rest)"

definition publish_replacements :: "seg_heap \<Rightarrow> catalog \<Rightarrow> ptr list \<Rightarrow> catalog" where
  "publish_replacements h catalog ps = foldl (register_segment h) catalog ps"

definition rollback_replacements :: "seg_heap \<Rightarrow> catalog \<Rightarrow> ptr list \<Rightarrow> catalog" where
  "rollback_replacements h catalog ps =
     foldl (\<lambda>catalog p. AList.delete (seg_id (deref h p)) catalog) catalog ps"

fun retire_sources :: "u64 list \<Rightarrow> seg_heap \<times> manager \<Rightarrow> seg_heap \<times> manager" where
  "retire_sources [] (h, m) = (h, m)"
| "retire_sources (sid # rest) (h, m) =
     (let p = the (map_of (gm_catalog m) sid);
          h = assign h p (fst (segment_retire (deref h p)))
      in retire_sources rest
           (h, m\<lparr> gm_catalog := AList.delete sid (gm_catalog m),
                  gm_retired_count := gm_retired_count m + 1 \<rparr>))"

definition replace_sealed :: "nat option \<Rightarrow> seg_heap \<Rightarrow> manager \<Rightarrow> u64 list \<Rightarrow> ptr option list
    \<Rightarrow> seg_heap \<times> manager \<times> status option" where
  "replace_sealed throw_at h m sources replacements =
     (if sources = [] then (h, m, Some (fail Invalid_argument))
      else
        (case check_sources h (gm_catalog m) [] 0 sources of
           Inl e \<Rightarrow> (h, m, Some (Inl e))
         | Inr owner \<Rightarrow>
             (case check_replacements h (gm_catalog m) owner [] replacements of
                Inl e \<Rightarrow> (h, m, Some (Inl e))
              | Inr ps \<Rightarrow>
                  if (case throw_at of Some n \<Rightarrow> n < length ps | None \<Rightarrow> False) then
                    let published = take (the throw_at) ps
                    in (h, m\<lparr> gm_catalog := rollback_replacements h
                               (publish_replacements h (gm_catalog m) published) published \<rparr>, None)
                  else
                    let (h, m) = retire_sources sources
                          (h, m\<lparr> gm_catalog := publish_replacements h (gm_catalog m) ps \<rparr>)
                    in (h, m, Some ok))))"


definition segments :: "seg_heap \<Rightarrow> manager \<Rightarrow> ptr list" where
  "segments h m = sort_key (\<lambda>p. seg_id (deref h p)) (map snd (gm_catalog m))"

definition try_retire :: "seg_heap \<Rightarrow> manager \<Rightarrow> u64 \<Rightarrow> seg_heap \<times> manager \<times> status" where
  "try_retire h m sid =
     (case map_of (gm_catalog m) sid of
        None \<Rightarrow> (h, m, fail Invalid_reference)
      | Some p \<Rightarrow>
          (case segment_retire (deref h p) of
             (s, Inl e) \<Rightarrow> (assign h p s, m, Inl e)
           | (s, Inr _) \<Rightarrow>
               (assign h p s, m\<lparr> gm_catalog := AList.delete sid (gm_catalog m),
                                 gm_retired_count := gm_retired_count m + 1 \<rparr>, ok)))"

section \<open>The catalog as a map\<close>

lemma register_map: "map_of (register_segment h c p) = (map_of c)(seg_id (deref h p) \<mapsto> p)"
  by (simp add: register_segment_def AList.update_conv')

lemma publish_map:
  "map_of (publish_replacements h c ps) = map_of c ++ map_of (rev (map (\<lambda>p. (seg_id (deref h p), p)) ps))"
  by (induction ps rule: rev_induct)
    (auto simp: publish_replacements_def register_map map_add_def fun_eq_iff split: option.split)

lemma distinct_register: "distinct (map fst c) \<Longrightarrow> distinct (map fst (register_segment h c p))"
  by (simp add: register_segment_def distinct_update)

lemma distinct_publish: "distinct (map fst c) \<Longrightarrow> distinct (map fst (publish_replacements h c ps))"
  by (induction ps rule: rev_induct) (simp_all add: publish_replacements_def distinct_register)

lemma rollback_map:
  "map_of (rollback_replacements h c ps) = (map_of c) |` (- ((\<lambda>p. seg_id (deref h p)) ` set ps))"
proof (induction ps rule: rev_induct)
  case (snoc p ps)
  then show ?case
    by (simp add: rollback_replacements_def AList.delete_conv' restrict_map_def fun_eq_iff)
qed (simp add: rollback_replacements_def restrict_map_def)

definition source_ok :: "seg_heap \<Rightarrow> catalog \<Rightarrow> u32 \<Rightarrow> u64 \<Rightarrow> bool" where
  "source_ok h c owner k \<longleftrightarrow> (\<exists>p. map_of c k = Some p \<and> seg_state (deref h p) = Seg_sealed
     \<and> ss_live_records (seg_stats (deref h p)) = 0 \<and> seg_owner (deref h p) = owner)"

lemma check_sources_rest:
  "check_sources h c prev owner ks = Inr owner' \<Longrightarrow> distinct prev \<Longrightarrow> prev \<noteq> [] \<Longrightarrow>
   owner' = owner \<and> distinct (prev @ ks) \<and> (\<forall>k \<in> set ks. source_ok h c owner k)"
proof (induction h c prev owner ks rule: check_sources.induct)
  case (2 h c prev owner sid rest)
  from "2.prems" obtain p where p: "map_of c sid = Some p" "seg_state (deref h p) = Seg_sealed"
    "ss_live_records (seg_stats (deref h p)) = 0" "seg_owner (deref h p) = owner" "sid \<notin> set prev"
    "check_sources h c (prev @ [sid]) owner rest = Inr owner'"
    by (auto simp: Let_def split: option.splits if_splits)
  then have "owner' = owner \<and> distinct ((prev @ [sid]) @ rest) \<and> (\<forall>k \<in> set rest. source_ok h c owner k)"
    using 2 by (simp add: Let_def)
  then show ?case using p by (auto simp: source_ok_def)
qed simp

lemma check_sources_ok:
  assumes "check_sources h c [] owner ks = Inr owner'"
  shows "distinct ks \<and> (\<forall>k \<in> set ks. source_ok h c owner' k)"
proof (cases ks)
  case (Cons k rest)
  from assms obtain p where p: "map_of c k = Some p" "seg_state (deref h p) = Seg_sealed"
    "ss_live_records (seg_stats (deref h p)) = 0"
    "check_sources h c [k] (seg_owner (deref h p)) rest = Inr owner'"
    by (auto simp: Cons Let_def split: option.splits if_splits)
  from check_sources_rest [OF p(4)] p show ?thesis by (auto simp: Cons source_ok_def)
qed simp

lemma check_replacements_ok:
  "check_replacements h c owner prev rs = Inr ps \<Longrightarrow> distinct (map (\<lambda>p. seg_id (deref h p)) prev) \<Longrightarrow>
   \<exists>qs. ps = prev @ qs \<and> rs = map Some qs \<and> distinct (map (\<lambda>p. seg_id (deref h p)) ps)
      \<and> (\<forall>p \<in> set qs. seg_state (deref h p) = Seg_sealed \<and> seg_owner (deref h p) = owner
                      \<and> map_of c (seg_id (deref h p)) = None)"
proof (induction h c owner prev rs rule: check_replacements.induct)
  case (3 h c owner prev p rest)
  let ?id = "\<lambda>p. seg_id (deref h p)"
  from "3.prems"(1) have p: "seg_state (deref h p) = Seg_sealed" "seg_owner (deref h p) = owner"
    "map_of c (?id p) = None" "\<not> (\<exists>q \<in> set prev. ?id q = ?id p)"
    "check_replacements h c owner (prev @ [p]) rest = Inr ps"
    by (auto simp: Let_def split: if_splits)
  then have "distinct (map ?id (prev @ [p]))" using "3.prems"(2) by auto
  from "3.IH" [OF refl _ _ p(5) this] p obtain qs where qs: "ps = (prev @ [p]) @ qs" "rest = map Some qs"
    "distinct (map ?id ps)" "\<forall>p \<in> set qs. seg_state (deref h p) = Seg_sealed
       \<and> seg_owner (deref h p) = owner \<and> map_of c (?id p) = None"
    by auto
  then show ?case using p by (intro exI [of _ "p # qs"]) simp
qed simp_all

lemma check_sources_error: "check_sources h c prev owner ks = Inl e \<Longrightarrow> e = Invalid_argument"
  by (induction h c prev owner ks rule: check_sources.induct)
    (auto simp: Let_def split: option.splits if_splits)

lemma check_replacements_error: "check_replacements h c owner prev rs = Inl e \<Longrightarrow> e = Invalid_argument"
  by (induction h c owner prev rs rule: check_replacements.induct) (auto simp: Let_def split: if_splits)

lemma retire_sources_effect:
  assumes "retire_sources ks (h, m) = (h', m')" "distinct ks" "set ks \<subseteq> dom (map_of (gm_catalog m))"
    "inj_on (map_of (gm_catalog m)) (dom (map_of (gm_catalog m)))"
  shows "map_of (gm_catalog m') = (map_of (gm_catalog m)) |` (- set ks)
       \<and> gm_retired_count m' = gm_retired_count m + of_nat (length ks) \<and> gm_next_id m' = gm_next_id m
       \<and> (distinct (map fst (gm_catalog m)) \<longrightarrow> distinct (map fst (gm_catalog m')))
       \<and> hp_next h' = hp_next h
       \<and> (\<forall>p. hp_mem h' p = (if Some p \<in> map_of (gm_catalog m) ` set ks
                            then Some (fst (segment_retire (deref h p))) else hp_mem h p))"
  using assms
proof (induction ks arbitrary: h m)
  case (Cons k ks)
  let ?c = "map_of (gm_catalog m)"
  define p where "p = the (?c k)"
  define h1 where "h1 = assign h p (fst (segment_retire (deref h p)))"
  define m1 where "m1 = m\<lparr> gm_catalog := AList.delete k (gm_catalog m), gm_retired_count := gm_retired_count m + 1 \<rparr>"
  have k: "?c k = Some p" using Cons.prems(3) by (auto simp: p_def)
  have c1: "map_of (gm_catalog m1) = ?c(k := None)" by (simp add: m1_def AList.delete_conv')
  have run: "retire_sources ks (h1, m1) = (h', m')"
    using Cons.prems(1) by (simp add: h1_def m1_def p_def Let_def)
  have inj: "inj_on (map_of (gm_catalog m1)) (dom (map_of (gm_catalog m1)))"
    using Cons.prems(4) by (auto simp: c1 inj_on_def dom_def)
  have sub: "set ks \<subseteq> dom (map_of (gm_catalog m1))" using Cons.prems(2,3) by (auto simp: c1)
  note ih = Cons.IH [OF run _ sub inj]
  have other: "Some q \<in> map_of (gm_catalog m1) ` set ks \<longleftrightarrow> Some q \<in> ?c ` set ks" for q
    using Cons.prems(2) by (auto simp: c1)
  have neq: "Some p \<notin> ?c ` set ks"
  proof
    assume "Some p \<in> ?c ` set ks"
    then obtain j where "j \<in> set ks" "?c j = ?c k" using k by auto
    moreover have "j \<in> dom ?c" "k \<in> dom ?c" using \<open>j \<in> set ks\<close> Cons.prems(3) by auto
    ultimately have "j = k" using Cons.prems(4) by (auto dest: inj_onD)
    then show False using \<open>j \<in> set ks\<close> Cons.prems(2) by simp
  qed
  have m1: "gm_retired_count m1 = gm_retired_count m + 1" "gm_next_id m1 = gm_next_id m"
    "distinct (map fst (gm_catalog m)) \<Longrightarrow> distinct (map fst (gm_catalog m1))" "hp_next h1 = hp_next h"
    by (simp_all add: m1_def h1_def assign_def distinct_delete)
  have h1: "hp_mem h1 q = (if q = p then Some (fst (segment_retire (deref h p))) else hp_mem h q)"
    "q \<noteq> p \<Longrightarrow> deref h1 q = deref h q" for q
    by (simp_all add: h1_def assign_def deref_def)
  have img: "Some q \<in> ?c ` set (k # ks) \<longleftrightarrow> q = p \<or> Some q \<in> ?c ` set ks" for q
    using k by auto
  have mem: "hp_mem h' q = (if Some q \<in> ?c ` set (k # ks) then Some (fst (segment_retire (deref h q)))
      else hp_mem h q)" for q
  proof -
    have "hp_mem h' q = (if Some q \<in> ?c ` set ks then Some (fst (segment_retire (deref h1 q))) else hp_mem h1 q)"
      using ih Cons.prems(2) unfolding other by simp
    then show ?thesis unfolding img using neq h1 [of q] by (cases "q = p") simp_all
  qed
  have cat: "map_of (gm_catalog m') = ?c |` (- set (k # ks))"
    using ih Cons.prems(2) by (auto simp: c1 restrict_map_def fun_eq_iff)
  show ?case using ih Cons.prems(2) m1 mem cat by simp
qed auto

section \<open>Invariant\<close>

text \<open>
  Each catalogued id names one segment that carries it, is active or sealed, and was issued
  before \<open>next_id_\<close>.
\<close>

definition gm_inv :: "seg_heap \<Rightarrow> manager \<Rightarrow> bool" where
  "gm_inv h m \<longleftrightarrow>
     distinct (map fst (gm_catalog m))
   \<and> (\<forall>k p. map_of (gm_catalog m) k = Some p \<longrightarrow>
        (\<exists>s. hp_mem h p = Some s \<and> seg_id s = k \<and> k < gm_next_id m \<and> p < hp_next h
             \<and> (seg_state s = Seg_active \<or> seg_state s = Seg_sealed)))"

text \<open>
  The same with an arbitrary condition \<open>P\<close> on the ids: \<open>allocate_active\<close> may wrap \<open>next_id_\<close>, and then
  the bound on the ids is lost while the rest of the invariant stays.
\<close>

definition gm_wf :: "(u64 \<Rightarrow> bool) \<Rightarrow> seg_heap \<Rightarrow> manager \<Rightarrow> bool" where
  "gm_wf P h m \<longleftrightarrow>
     distinct (map fst (gm_catalog m))
   \<and> (\<forall>k p. map_of (gm_catalog m) k = Some p \<longrightarrow>
        (\<exists>s. hp_mem h p = Some s \<and> seg_id s = k \<and> P k \<and> p < hp_next h
             \<and> (seg_state s = Seg_active \<or> seg_state s = Seg_sealed)))"

lemma gm_inv_wf: "gm_inv h m = gm_wf (\<lambda>k. k < gm_next_id m) h m"
  by (simp add: gm_inv_def gm_wf_def)


lemma gm_wf_inj:
  assumes "gm_wf P h m"
  shows "inj_on (map_of (gm_catalog m)) (dom (map_of (gm_catalog m)))"
proof (rule inj_onI)
  fix j k assume "j \<in> dom (map_of (gm_catalog m))" "map_of (gm_catalog m) j = map_of (gm_catalog m) k"
  then obtain p where "map_of (gm_catalog m) j = Some p" "map_of (gm_catalog m) k = Some p"
    by (metis domD)
  then show "j = k" using assms unfolding gm_wf_def by (metis option.inject)
qed

lemma gm_inv_make: "gm_inv h (make_manager i)"
  by (simp add: gm_inv_def make_manager_def)

lemma unat_inc: "n \<noteq> - 1 \<Longrightarrow> unat (n + 1) = unat n + 1" for n :: u64
proof -
  assume "n \<noteq> - 1"
  then have "unat n \<noteq> unat (- 1 :: u64)" by (simp only: word_unat_eq_iff) simp
  moreover have "unat (- 1 :: u64) = 18446744073709551615"
    using unat_minus_one_sub [of "0 :: u64"] by simp
  ultimately have "unat n + unat (1 :: u64) < 2 ^ LENGTH(64)" using unat_u64_bound [of n] by simp
  then show ?thesis using unat_add_no_overflow [of n 1] by simp
qed

lemma next_id_grows: "k < n \<Longrightarrow> n \<noteq> - 1 \<Longrightarrow> k < n + 1" "n \<noteq> - 1 \<Longrightarrow> n < n + 1" for n k :: u64
  by (simp_all add: word_less_nat_alt unat_inc)

lemma gm_wf_heap:
  assumes "gm_wf P h m"
    and "\<And>p s. hp_mem h p = Some s \<Longrightarrow> p < hp_next h \<Longrightarrow>
           \<exists>s'. hp_mem h' p = Some s' \<and> seg_id s' = seg_id s
              \<and> (seg_state s = Seg_active \<or> seg_state s = Seg_sealed \<longrightarrow>
                 seg_state s' = Seg_active \<or> seg_state s' = Seg_sealed)"
    and "hp_next h \<le> hp_next h'"
  shows "gm_wf P h' m"
  unfolding gm_wf_def
proof (intro conjI allI impI)
  show "distinct (map fst (gm_catalog m))" using assms(1) by (simp add: gm_wf_def)
  fix k p assume "map_of (gm_catalog m) k = Some p"
  then obtain s where s: "hp_mem h p = Some s" "seg_id s = k" "P k" "p < hp_next h"
    "seg_state s = Seg_active \<or> seg_state s = Seg_sealed"
    using assms(1) unfolding gm_wf_def by blast
  from assms(2) [OF s(1,4)] s assms(3)
  show "\<exists>s. hp_mem h' p = Some s \<and> seg_id s = k \<and> P k \<and> p < hp_next h'
      \<and> (seg_state s = Seg_active \<or> seg_state s = Seg_sealed)"
    by fastforce
qed

lemma make_shared_inv:
  assumes "gm_wf P h m" "make_shared h s = (h', p)"
  shows "gm_wf P h' m" "hp_mem h' p = Some s" "p < hp_next h'" "deref h' p = s"
    "\<And>q. q < hp_next h \<Longrightarrow> hp_mem h' q = hp_mem h q"
proof -
  show "gm_wf P h' m" by (rule gm_wf_heap [OF assms(1)]) (use assms(2) in \<open>auto simp: make_shared_def\<close>)
qed (use assms(2) in \<open>auto simp: make_shared_def deref_def\<close>)

lemma gm_inv_next:
  "gm_inv h m \<Longrightarrow> gm_next_id m \<noteq> - 1 \<Longrightarrow> gm_inv h (m\<lparr> gm_next_id := gm_next_id m + 1 \<rparr>)"
  unfolding gm_inv_def using next_id_grows(1) by fastforce

lemma gm_wf_register:
  assumes "gm_wf P h m" "hp_mem h p = Some s" "p < hp_next h" "P (seg_id s)"
    "seg_state s = Seg_active \<or> seg_state s = Seg_sealed"
  shows "gm_wf P h (m\<lparr> gm_catalog := register_segment h (gm_catalog m) p \<rparr>)"
  using assms by (simp add: gm_wf_def distinct_register register_map deref_def)

lemma gm_wf_unregister:
  assumes "gm_wf P h m" "map_of c = (map_of (gm_catalog m)) |` A" "distinct (map fst c)"
  shows "gm_wf P h (m\<lparr> gm_catalog := c \<rparr>)"
  using assms by (simp add: gm_wf_def restrict_map_def)

lemma prepare_segment_inv:
  assumes "gm_inv h m" "prepare_segment u h m w = (h', m', r)"
  shows "gm_inv h' m'"
    "r = Inr p \<Longrightarrow> seg_id (deref h' p) = gm_next_id m \<and> map_of (gm_catalog m') (gm_next_id m) = None"
proof -
  let ?s = "make_segment u (gm_next_id m) w 1"
  obtain h1 q where mk: "make_shared h ?s = (h1, q)" by fastforce
  note sh = make_shared_inv [OF assms(1) [unfolded gm_inv_wf] mk]
  show "gm_inv h' m'"
    using assms mk gm_inv_next [OF sh(1) [folded gm_inv_wf]] by (auto simp: prepare_segment_def split: if_splits)
  have none: "map_of (gm_catalog m) (gm_next_id m) = None"
    using assms(1) unfolding gm_inv_def by (metis option.exhaust order_less_irrefl)
  show "r = Inr p \<Longrightarrow> seg_id (deref h' p) = gm_next_id m \<and> map_of (gm_catalog m') (gm_next_id m) = None"
    using assms(2) mk none sh(4) by (auto simp: prepare_segment_def make_segment_def split: if_splits)
qed


lemma allocate_active_inv:
  assumes "gm_inv h m" "gm_next_id m \<noteq> - 1" "allocate_active u h m w = (h', m', p)"
  shows "gm_inv h' m'" "map_of (gm_catalog m') (gm_next_id m) = Some p"
    "deref h' p = make_segment u (gm_next_id m) w 1"
proof -
  let ?s = "make_segment u (gm_next_id m) w 1"
  let ?m1 = "m\<lparr> gm_next_id := gm_next_id m + 1 \<rparr>"
  obtain h1 q where mk: "make_shared h ?s = (h1, q)" by fastforce
  note sh = make_shared_inv [OF assms(1) [unfolded gm_inv_wf] mk]
  have eq: "h' = h1" "p = q" "m' = ?m1\<lparr> gm_catalog := register_segment h1 (gm_catalog ?m1) q \<rparr>"
    using assms(3) mk by (auto simp: allocate_active_def Let_def)
  have s: "seg_id ?s = gm_next_id m" "seg_state ?s = Seg_active" by (simp_all add: make_segment_def)
  show "gm_inv h' m'"
    unfolding eq by (subst gm_inv_wf)
      (rule gm_wf_register [OF _ sh(2,3)],
       use gm_inv_next [OF sh(1) [folded gm_inv_wf] assms(2)] in \<open>simp_all add: gm_inv_wf s next_id_grows assms(2)\<close>)
  show "map_of (gm_catalog m') (gm_next_id m) = Some p" by (simp add: eq register_map sh(4) s)
  show "deref h' p = ?s" by (simp add: eq sh(4))
qed

section \<open>Replacing sealed segments\<close>

definition issued :: "seg_heap \<Rightarrow> manager \<Rightarrow> ptr \<Rightarrow> bool" where
  "issued h m p \<longleftrightarrow> p < hp_next h \<and> (\<exists>s. hp_mem h p = Some s \<and> seg_id s < gm_next_id m)"

definition known :: "(u64 \<Rightarrow> bool) \<Rightarrow> seg_heap \<Rightarrow> ptr \<Rightarrow> bool" where
  "known P h p \<longleftrightarrow> p < hp_next h \<and> (\<exists>s. hp_mem h p = Some s \<and> P (seg_id s))"

lemma issued_known: "issued h m p = known (\<lambda>k. k < gm_next_id m) h p"
  by (simp add: issued_def known_def)

definition entries :: "seg_heap \<Rightarrow> ptr list \<Rightarrow> (u64 \<times> ptr) list" where
  "entries h ps = map (\<lambda>p. (seg_id (deref h p), p)) ps"

lemma map_of_rev_entries:
  "distinct (map (\<lambda>p. seg_id (deref h p)) ps) \<Longrightarrow> map_of (rev (entries h ps)) = map_of (entries h ps)"
  by (subst map_of_inject_set) (simp_all add: entries_def rev_map comp_def flip: rev_map)

lemma dom_entries: "dom (map_of (entries h ps)) = (\<lambda>p. seg_id (deref h p)) ` set ps"
  by (auto simp: entries_def dom_map_of_conv_image_fst image_image)

lemma gm_wf_publish:
  assumes "gm_wf P h m" "\<And>p. p \<in> set ps \<Longrightarrow> known P h p \<and> seg_state (deref h p) = Seg_sealed"
  shows "gm_wf P h (m\<lparr> gm_catalog := publish_replacements h (gm_catalog m) ps \<rparr>)"
  using assms(2)
proof (induction ps rule: rev_induct)
  case Nil
  then show ?case using assms(1) by (simp add: publish_replacements_def)
next
  case (snoc p ps)
  let ?m = "m\<lparr> gm_catalog := publish_replacements h (gm_catalog m) ps \<rparr>"
  have inv: "gm_wf P h ?m" using snoc by simp
  obtain s where s: "hp_mem h p = Some s" "p < hp_next h" "P (seg_id s)" "seg_state s = Seg_sealed"
    using snoc.prems [of p] by (auto simp: known_def deref_def)
  have "gm_wf P h (?m\<lparr> gm_catalog := register_segment h (gm_catalog ?m) p \<rparr>)"
    by (rule gm_wf_register [OF inv s(1-3)]) (simp add: s(4))
  then show ?case by (simp add: publish_replacements_def)
qed

lemma gm_wf_retire_sources:
  assumes inv: "gm_wf P h m" and run: "retire_sources ks (h, m) = (h', m')"
    and ks: "distinct ks" "set ks \<subseteq> dom (map_of (gm_catalog m))"
  shows "gm_wf P h' m'"
proof -
  note eff = retire_sources_effect [OF run ks gm_wf_inj [OF inv]]
  show ?thesis
    unfolding gm_wf_def
  proof (intro conjI allI impI)
    show "distinct (map fst (gm_catalog m'))" using eff inv by (simp add: gm_wf_def)
    fix k p assume "map_of (gm_catalog m') k = Some p"
    then have k: "map_of (gm_catalog m) k = Some p" "k \<notin> set ks"
      using eff by (auto simp: restrict_map_def split: if_splits)
    have "Some p \<notin> map_of (gm_catalog m) ` set ks"
    proof
      assume "Some p \<in> map_of (gm_catalog m) ` set ks"
      then obtain j where j: "j \<in> set ks" "map_of (gm_catalog m) j = map_of (gm_catalog m) k"
        using k(1) by auto
      then have "j = k" using inj_onD [OF gm_wf_inj [OF inv] j(2)] k(1) ks(2) by blast
      then show False using j(1) k(2) by simp
    qed
    then have "hp_mem h' p = hp_mem h p" using eff by simp
    moreover obtain s where "hp_mem h p = Some s" "seg_id s = k" "P k" "p < hp_next h"
      "seg_state s = Seg_active \<or> seg_state s = Seg_sealed"
      using inv k(1) unfolding gm_wf_def by blast
    ultimately show "\<exists>s. hp_mem h' p = Some s \<and> seg_id s = k \<and> P k \<and> p < hp_next h'
        \<and> (seg_state s = Seg_active \<or> seg_state s = Seg_sealed)"
      using eff by simp
  qed
qed

lemma rollback_publish:
  assumes "\<And>p. p \<in> set ps \<Longrightarrow> map_of c (seg_id (deref h p)) = None"
  shows "map_of (rollback_replacements h (publish_replacements h c ps) ps) = map_of c"
proof (rule ext)
  fix k
  show "map_of (rollback_replacements h (publish_replacements h c ps) ps) k = map_of c k"
  proof (cases "k \<in> (\<lambda>p. seg_id (deref h p)) ` set ps")
    case True
    then show ?thesis using assms by (auto simp: rollback_map restrict_map_def)
  next
    case False
    then have "map_of (rev (map (\<lambda>p. (seg_id (deref h p), p)) ps)) k = None"
      by (auto simp: map_of_eq_None_iff)
    with False show ?thesis by (simp add: rollback_map publish_map restrict_map_def map_add_def)
  qed
qed

lemma distinct_rollback: "distinct (map fst c) \<Longrightarrow> distinct (map fst (rollback_replacements h c ps))"
  unfolding rollback_replacements_def by (induction ps arbitrary: c) (simp_all add: distinct_delete)

lemma gm_wf_same_map:
  "gm_wf P h m \<Longrightarrow> map_of (gm_catalog m') = map_of (gm_catalog m) \<Longrightarrow> distinct (map fst (gm_catalog m')) \<Longrightarrow> gm_wf P h m'"
  by (simp add: gm_wf_def)

text \<open>What a successful replacement does to the manager and to the store.\<close>

definition replaced :: "seg_heap \<Rightarrow> manager \<Rightarrow> u64 list \<Rightarrow> ptr list \<Rightarrow> seg_heap \<Rightarrow> manager \<Rightarrow> bool" where
  "replaced h m sources ps h' m' \<longleftrightarrow>
     map_of (gm_catalog m') = (map_of (gm_catalog m) |` (- set sources)) ++ map_of (entries h ps)
   \<and> gm_retired_count m' = gm_retired_count m + of_nat (length sources) \<and> gm_next_id m' = gm_next_id m
   \<and> distinct sources \<and> hp_next h' = hp_next h
   \<and> (\<forall>p. if Some p \<in> map_of (gm_catalog m) ` set sources
          then hp_mem h' p = Some ((deref h p)\<lparr> seg_state := Seg_retired \<rparr>)
          else hp_mem h' p = hp_mem h p)"

lemma replace_run:
  assumes inv: "gm_wf P h m" and run: "retire_sources ks (h, m\<lparr> gm_catalog := publish_replacements h (gm_catalog m) ps \<rparr>) = (h', m')"
    and src: "distinct ks" "\<And>k. k \<in> set ks \<Longrightarrow> source_ok h (gm_catalog m) owner k"
    and new: "distinct (map (\<lambda>p. seg_id (deref h p)) ps)"
      "\<And>p. p \<in> set ps \<Longrightarrow> known P h p \<and> seg_state (deref h p) = Seg_sealed
              \<and> map_of (gm_catalog m) (seg_id (deref h p)) = None"
  shows "replaced h m ks ps h' m'" "gm_wf P h' m'"
proof -
  define pm where "pm = m\<lparr> gm_catalog := publish_replacements h (gm_catalog m) ps \<rparr>"
  have pm: "gm_retired_count pm = gm_retired_count m" "gm_next_id pm = gm_next_id m" by (simp_all add: pm_def)
  have cat: "map_of (gm_catalog pm) = map_of (gm_catalog m) ++ map_of (entries h ps)"
    using map_of_rev_entries [OF new(1)] by (simp add: publish_map entries_def pm_def)
  have old: "k \<in> dom (map_of (gm_catalog m))" "k \<notin> dom (map_of (entries h ps))" if "k \<in> set ks" for k
    using src(2) [OF that] new(2) by (auto simp: source_ok_def dom_entries)
  have look: "map_of (gm_catalog pm) k = map_of (gm_catalog m) k" if "k \<in> set ks" for k
    using old(2) [OF that] by (simp add: cat map_add_def domIff)
  have sub: "set ks \<subseteq> dom (map_of (gm_catalog pm))" using old(1) by (auto simp: cat)
  have inv': "gm_wf P h pm" unfolding pm_def by (rule gm_wf_publish [OF inv]) (use new(2) in blast)
  show "gm_wf P h' m'" by (rule gm_wf_retire_sources [OF inv' run [folded pm_def] src(1) sub])
  note eff = retire_sources_effect [OF run [folded pm_def] src(1) sub gm_wf_inj [OF inv']]
  have img: "map_of (gm_catalog pm) ` set ks = map_of (gm_catalog m) ` set ks"
    by (rule image_cong [OF refl look])
  have ret: "fst (segment_retire (deref h p)) = (deref h p)\<lparr> seg_state := Seg_retired \<rparr>"
    if "Some p \<in> map_of (gm_catalog m) ` set ks" for p
  proof -
    from that obtain k where k: "k \<in> set ks" "map_of (gm_catalog m) k = Some p" by auto
    then show ?thesis using src(2) [OF k(1)] by (simp add: source_ok_def segment_retire_def)
  qed
  have "map_of (gm_catalog m') = (map_of (gm_catalog m) |` (- set ks)) ++ map_of (entries h ps)"
  proof (rule ext)
    fix k
    have "map_of (gm_catalog m') k = (if k \<in> set ks then None else map_of (gm_catalog pm) k)"
      using eff by (simp add: restrict_map_def)
    then show "map_of (gm_catalog m') k = ((map_of (gm_catalog m) |` (- set ks)) ++ map_of (entries h ps)) k"
      using old(2) [of k] by (auto simp: cat restrict_map_def map_add_def domIff split: option.split)
  qed
  then show "replaced h m ks ps h' m'"
    using eff src(1) ret unfolding replaced_def img pm by simp
qed

lemma replace_sealed_cases:
  assumes "gm_wf P h m" "\<And>p. Some p \<in> set rs \<Longrightarrow> known P h p"
    and "replace_sealed throw_at h m sources rs = (h', m', r)"
  shows "case r of
      Some (Inr _) \<Rightarrow> (\<exists>ps. rs = map Some ps \<and> replaced h m sources ps h' m') \<and> gm_wf P h' m'
    | Some (Inl e) \<Rightarrow> h' = h \<and> m' = m \<and> e = Invalid_argument
    | None \<Rightarrow> h' = h \<and> map_of (gm_catalog m') = map_of (gm_catalog m)
              \<and> gm_retired_count m' = gm_retired_count m \<and> gm_next_id m' = gm_next_id m \<and> gm_wf P h' m'"
proof -
  note r = assms(3)
  consider (src) "sources = []" | (chk) e where "check_sources h (gm_catalog m) [] 0 sources = Inl e"
    | (rep) owner e where "check_sources h (gm_catalog m) [] 0 sources = Inr owner"
        "check_replacements h (gm_catalog m) owner [] rs = Inl e"
    | (ok) owner ps where "sources \<noteq> []" "check_sources h (gm_catalog m) [] 0 sources = Inr owner"
        "check_replacements h (gm_catalog m) owner [] rs = Inr ps"
    by (metis sum.exhaust)
  then show ?thesis
  proof cases
    case src then show ?thesis using r by (auto simp: replace_sealed_def)
  next
    case chk
    then show ?thesis using r check_sources_error [OF chk]
      by (auto simp: replace_sealed_def split: if_splits)
  next
    case rep
    then show ?thesis
      using r check_replacements_error [OF rep(2)] by (auto simp: replace_sealed_def split: if_splits)
  next
    case ok
    have src: "distinct sources" "\<And>k. k \<in> set sources \<Longrightarrow> source_ok h (gm_catalog m) owner k"
      using check_sources_ok [OF ok(2)] by simp_all
    from check_replacements_ok [OF ok(3)] have ps: "rs = map Some ps"
      "distinct (map (\<lambda>p. seg_id (deref h p)) ps)"
      "\<And>p. p \<in> set ps \<Longrightarrow> seg_state (deref h p) = Seg_sealed \<and> map_of (gm_catalog m) (seg_id (deref h p)) = None"
      by auto
    have new: "p \<in> set ps \<Longrightarrow> known P h p \<and> seg_state (deref h p) = Seg_sealed
        \<and> map_of (gm_catalog m) (seg_id (deref h p)) = None" for p
      using ps(1,3) assms(2) [of p] by simp
    let ?run = "retire_sources sources (h, m\<lparr> gm_catalog := publish_replacements h (gm_catalog m) ps \<rparr>)"
    show ?thesis
    proof (cases "case throw_at of Some n \<Rightarrow> n < length ps | None \<Rightarrow> False")
      case True
      define c where "c = rollback_replacements h (publish_replacements h (gm_catalog m) (take (the throw_at) ps)) (take (the throw_at) ps)"
      have c: "map_of c = map_of (gm_catalog m)"
        unfolding c_def by (rule rollback_publish) (use ps(3) in_set_takeD in fast)
      have "distinct (map fst (gm_catalog m))" using assms(1) by (simp add: gm_wf_def)
      then have "distinct (map fst c)" unfolding c_def by (intro distinct_rollback distinct_publish)
      then have "gm_wf P h (m\<lparr> gm_catalog := c \<rparr>)" using gm_wf_same_map [OF assms(1)] c by simp
      moreover have "h' = h" "m' = m\<lparr> gm_catalog := c \<rparr>" "r = None"
        using r ok True by (auto simp: replace_sealed_def Let_def c_def)
      ultimately show ?thesis using c by simp
    next
      case False
      then have "?run = (h', m')" "r = Some ok"
        using r ok by (auto simp: replace_sealed_def split: prod.splits)
      then show ?thesis using replace_run [OF assms(1) _ src ps(2) new] ps(1) by auto
    qed
  qed
qed

lemma replaced_next: "replaced h m ks ps h' m' \<Longrightarrow> gm_next_id m' = gm_next_id m"
  by (simp add: replaced_def)

lemma replace_sealed_cases_inv:
  assumes "gm_inv h m" "\<And>p. Some p \<in> set rs \<Longrightarrow> issued h m p"
    and "replace_sealed throw_at h m sources rs = (h', m', r)"
  shows "case r of
      Some (Inr _) \<Rightarrow> (\<exists>ps. rs = map Some ps \<and> replaced h m sources ps h' m') \<and> gm_inv h' m'
    | Some (Inl e) \<Rightarrow> h' = h \<and> m' = m \<and> e = Invalid_argument
    | None \<Rightarrow> h' = h \<and> map_of (gm_catalog m') = map_of (gm_catalog m)
              \<and> gm_retired_count m' = gm_retired_count m \<and> gm_next_id m' = gm_next_id m \<and> gm_inv h' m'"
  using replace_sealed_cases [OF assms(1) [unfolded gm_inv_wf] assms(2) [unfolded issued_known] assms(3)] replaced_next
  by (auto simp: gm_inv_wf split: option.splits sum.splits)

text \<open>
  C23.  \<open>replace_sealed\<close> is atomic.  On success the catalog loses exactly the sources and gains
  exactly the replacements, every source segment is retired and nothing else in the store
  changes; on an error nothing changes; when publishing throws, the rollback restores the
  catalog.  The catalog invariant holds afterwards in every case.
\<close>

theorem replace_sealed_atomic:
  assumes "gm_inv h m" "\<And>p. Some p \<in> set rs \<Longrightarrow> issued h m p"
    and "replace_sealed throw_at h m sources rs = (h', m', r)"
  shows "case r of
      Some (Inr _) \<Rightarrow> (\<exists>ps. rs = map Some ps \<and> replaced h m sources ps h' m') \<and> gm_inv h' m'
    | Some (Inl e) \<Rightarrow> h' = h \<and> m' = m \<and> e = Invalid_argument
    | None \<Rightarrow> h' = h \<and> map_of (gm_catalog m') = map_of (gm_catalog m)
              \<and> gm_retired_count m' = gm_retired_count m \<and> gm_next_id m' = gm_next_id m \<and> gm_inv h' m'"
  by (rule replace_sealed_cases_inv [OF assms])

definition example_heap :: seg_heap where
  "example_heap =
     \<lparr> hp_mem = (\<lambda>p. if p = 0 then Some (fst (segment_seal (make_segment (\<lambda>_. 0) 1 0 1)))
                     else if p = 1 then Some (fst (segment_seal (make_segment (\<lambda>_. 0) 2 0 1))) else None),
       hp_next = 2 \<rparr>"

definition example_manager :: manager where
  "example_manager = \<lparr> gm_next_id = 3, gm_catalog = [(1, 0)], gm_retired_count = 0 \<rparr>"

lemmas example_manager_defs = example_heap_def example_manager_def segment_seal_def make_segment_def deref_def

theorem replace_sealed_atomic_witness:
  "\<exists>h' m'. replace_sealed None example_heap example_manager [1] [Some 1] = (h', m', Some ok)
      \<and> (\<exists>ps. [Some 1] = map Some ps \<and> replaced example_heap example_manager [1] ps h' m') \<and> gm_inv h' m'"
proof -
  obtain h' m' r where run: "replace_sealed None example_heap example_manager [1] [Some 1] = (h', m', r)"
    by (cases "replace_sealed None example_heap example_manager [1] [Some 1]")
  have r: "r = Some ok" using run by (simp add: replace_sealed_def example_manager_defs Let_def)
  have "gm_inv example_heap example_manager" by (simp add: gm_inv_def example_manager_defs)
  moreover have "Some p \<in> set [Some 1] \<Longrightarrow> issued example_heap example_manager p" for p
    by (simp add: issued_def example_manager_defs)
  ultimately show ?thesis using replace_sealed_atomic [OF _ _ run] run unfolding r by simp
qed

section \<open>Rotation and retirement\<close>

lemma gm_wf_assign:
  assumes "gm_wf P h m" "hp_mem h p \<noteq> None" "seg_id s = seg_id (deref h p)"
    and "seg_state s = Seg_active \<or> seg_state s = Seg_sealed \<or> p \<notin> ran (map_of (gm_catalog m))"
  shows "gm_wf P (assign h p s) m"
  unfolding gm_wf_def
proof (intro conjI allI impI)
  show "distinct (map fst (gm_catalog m))" using assms(1) by (simp add: gm_wf_def)
  fix k q assume k: "map_of (gm_catalog m) k = Some q"
  then obtain t where t: "hp_mem h q = Some t" "seg_id t = k" "P k" "q < hp_next h"
    "seg_state t = Seg_active \<or> seg_state t = Seg_sealed"
    using assms(1) unfolding gm_wf_def by blast
  have "q = p \<Longrightarrow> seg_state s = Seg_active \<or> seg_state s = Seg_sealed" using assms(4) k by (auto simp: ran_def)
  then show "\<exists>s'. hp_mem (assign h p s) q = Some s' \<and> seg_id s' = k \<and> P k
      \<and> q < hp_next (assign h p s) \<and> (seg_state s' = Seg_active \<or> seg_state s' = Seg_sealed)"
    using t assms(3) by (auto simp: assign_def deref_def)
qed

lemma gm_inv_assign:
  assumes "gm_inv h m" "hp_mem h p \<noteq> None" "seg_id s = seg_id (deref h p)"
    and "seg_state s = Seg_active \<or> seg_state s = Seg_sealed \<or> p \<notin> ran (map_of (gm_catalog m))"
  shows "gm_inv (assign h p s) m"
  using gm_wf_assign [OF assms(1) [unfolded gm_inv_wf] assms(2-4)] by (simp add: gm_inv_wf)

lemma commit_rotation_unfold:
  assumes "commit_rotation h m a r = (h', m', res)"
  shows "(\<exists>e. res = Inl e \<and> h' = h \<and> m' = m) \<or>
    (\<exists>p q. a = Some p \<and> r = Some q \<and> res = ok \<and> seg_state (deref h p) = Seg_active
       \<and> seg_state (deref h q) = Seg_active \<and> seg_owner (deref h p) = seg_owner (deref h q)
       \<and> map_of (gm_catalog m) (seg_id (deref h p)) = Some p
       \<and> map_of (gm_catalog m) (seg_id (deref h q)) = None
       \<and> h' = assign h p ((deref h p)\<lparr> seg_state := Seg_sealed \<rparr>)
       \<and> m' = m\<lparr> gm_catalog := register_segment h (gm_catalog m) q \<rparr>)"
  using assms
  by (auto simp: commit_rotation_def segment_seal_def Let_def split: option.splits if_splits)

lemma commit_rotation_wf:
  assumes inv: "gm_wf P h m" and iss: "\<And>q. r = Some q \<Longrightarrow> known P h q"
    and run: "commit_rotation h m a r = (h', m', res)"
  shows "gm_wf P h' m'"
  using commit_rotation_unfold [OF run]
proof (elim disjE exE conjE)
  fix p q assume a: "a = Some p" "r = Some q" "seg_state (deref h q) = Seg_active"
    "map_of (gm_catalog m) (seg_id (deref h p)) = Some p"
    "h' = assign h p ((deref h p)\<lparr> seg_state := Seg_sealed \<rparr>)"
    "m' = m\<lparr> gm_catalog := register_segment h (gm_catalog m) q \<rparr>"
  obtain s where "hp_mem h q = Some s" "q < hp_next h" "P (seg_id s)" "seg_state s = Seg_active"
    using iss [OF a(2)] a(3) by (auto simp: known_def deref_def)
  then have "gm_wf P h m'" using gm_wf_register [OF inv] a(6) by blast
  moreover have "hp_mem h p \<noteq> None" using inv a(4) unfolding gm_wf_def by fastforce
  ultimately show ?thesis unfolding a(5) by (intro gm_wf_assign) simp_all
qed (use inv in simp)

lemma commit_rotation_inv:
  assumes "gm_inv h m" "\<And>q. r = Some q \<Longrightarrow> issued h m q" "commit_rotation h m a r = (h', m', res)"
  shows "gm_inv h' m'"
proof -
  have "gm_next_id m' = gm_next_id m" using commit_rotation_unfold [OF assms(3)] by auto
  then show ?thesis
    using commit_rotation_wf [OF assms(1) [unfolded gm_inv_wf] assms(2) [unfolded issued_known] assms(3)] by (simp add: gm_inv_wf)
qed

lemma try_retire_unfold:
  assumes "try_retire h m k = (h', m', res)"
  shows "(map_of (gm_catalog m) k = None \<and> h' = h \<and> m' = m \<and> res = fail Invalid_reference) \<or>
    (\<exists>p e. map_of (gm_catalog m) k = Some p \<and> h' = assign h p (deref h p) \<and> m' = m \<and> res = Inl e) \<or>
    (\<exists>p. map_of (gm_catalog m) k = Some p \<and> res = ok \<and> seg_state (deref h p) = Seg_sealed
       \<and> ss_live_records (seg_stats (deref h p)) = 0
       \<and> h' = assign h p ((deref h p)\<lparr> seg_state := Seg_retired \<rparr>)
       \<and> m' = m\<lparr> gm_catalog := AList.delete k (gm_catalog m), gm_retired_count := gm_retired_count m + 1 \<rparr>)"
  using assms by (auto simp: try_retire_def segment_retire_def split: option.splits if_splits)

lemma try_retire_wf:
  assumes inv: "gm_wf P h m" and run: "try_retire h m k = (h', m', res)"
  shows "gm_wf P h' m'"
  using try_retire_unfold [OF run]
proof (elim disjE exE conjE)
  fix p e assume a: "map_of (gm_catalog m) k = Some p" "h' = assign h p (deref h p)" "m' = m"
  then obtain s where "hp_mem h p = Some s" "seg_state s = Seg_active \<or> seg_state s = Seg_sealed"
    using inv unfolding gm_wf_def by blast
  then show ?thesis unfolding a by (intro gm_wf_assign [OF inv]) (auto simp: deref_def)
next
  fix p assume a: "map_of (gm_catalog m) k = Some p"
    "h' = assign h p ((deref h p)\<lparr> seg_state := Seg_retired \<rparr>)"
    "m' = m\<lparr> gm_catalog := AList.delete k (gm_catalog m), gm_retired_count := gm_retired_count m + 1 \<rparr>"
  have "gm_wf P h (m\<lparr> gm_catalog := AList.delete k (gm_catalog m) \<rparr>)"
    by (rule gm_wf_unregister [OF inv, where A = "- {k}"])
      (use inv in \<open>auto simp: gm_wf_def AList.delete_conv' distinct_delete restrict_map_def fun_eq_iff\<close>)
  then have m': "gm_wf P h m'" by (simp add: a(3) gm_wf_def)
  have "p \<notin> ran (map_of (gm_catalog m'))"
    using inj_onD [OF gm_wf_inj [OF inv], of _ k] a(1)
    by (auto simp: a(3) ran_def AList.delete_conv' split: if_splits)
  moreover have "hp_mem h p \<noteq> None" using inv a(1) unfolding gm_wf_def by fastforce
  ultimately show ?thesis unfolding a(2) by (intro gm_wf_assign [OF m']) simp_all
qed (use inv in simp)

lemma try_retire_inv:
  assumes "gm_inv h m" "try_retire h m k = (h', m', res)"
  shows "gm_inv h' m'"
proof -
  have "gm_next_id m' = gm_next_id m" using try_retire_unfold [OF assms(2)] by auto
  then show ?thesis using try_retire_wf [OF assms(1) [unfolded gm_inv_wf] assms(2)] by (simp add: gm_inv_wf)
qed

section \<open>Reachable managers\<close>

text \<open>
  The manager and its clients: every manager operation, and the operations Workers and vacuum
  apply to a segment they hold.  A non-null \<open>SegmentPtr\<close> points to a segment in the store.  A call
  that throws before it changes the catalog leaves the state as it is and needs no step of its own;
  \<open>throw_at\<close> covers the rollback of \<open>replace_sealed\<close>.
\<close>

inductive gm_step :: "seg_heap \<times> manager \<Rightarrow> seg_heap \<times> manager \<Rightarrow> bool" where
  allocate: "allocate_active u h m w = (h', m', p) \<Longrightarrow> gm_step (h, m) (h', m')"
| prepare: "prepare_segment u h m w = (h', m', r) \<Longrightarrow> gm_step (h, m) (h', m')"
| prepare_rot: "prepare_rotation u h m a w = (h', m', r) \<Longrightarrow> gm_step (h, m) (h', m')"
| rotate: "(\<And>q. b = Some q \<Longrightarrow> hp_mem h q \<noteq> None) \<Longrightarrow> commit_rotation h m a b = (h', m', st) \<Longrightarrow>
    gm_step (h, m) (h', m')"
| replace: "(\<And>p. Some p \<in> set rs \<Longrightarrow> hp_mem h p \<noteq> None) \<Longrightarrow> replace_sealed throw_at h m ks rs = (h', m', r) \<Longrightarrow>
    gm_step (h, m) (h', m')"
| retire: "try_retire h m k = (h', m', st) \<Longrightarrow> gm_step (h, m) (h', m')"
| segment_op: "hp_mem h p = Some s \<Longrightarrow>
    s' = fst (segment_append d s i) \<or> s' = fst (segment_mark_live s ref)
    \<or> s' = fst (segment_mark_dead s ref) \<or> s' = fst (segment_seal s) \<Longrightarrow>
    gm_step (h, m) (assign h p s', m)"


inductive_cases gm_stepE: "gm_step st st'"



















end
