(* ===== verification/Key_Arena.thy ===== *)
theory Key_Arena
  imports Checked_Math
begin

text \<open>
  The bump allocator for long index keys: \<open>src/include/glifistore/index/key_arena.hpp\<close> and
  \<open>src/src/index/key_arena.cpp\<close>.  \<open>resize\<close> of the storage vector fills with zero bytes;
  \<open>reserve\<close> changes only the vector's capacity, which no operation reads, so a successful
  \<open>reserve\<close> leaves the arena as it is.  \<open>arena_data\<close> is the span the code reads and
  \<open>arena_store\<close> the \<open>memcpy\<close> through that span.
\<close>

record key_arena =
  ka_storage :: bytes
  ka_bump :: nat

definition arena_empty :: key_arena where
  "arena_empty = \<lparr> ka_storage = [], ka_bump = 0 \<rparr>"

definition arena_allocate :: "key_arena \<Rightarrow> nat \<Rightarrow> key_arena \<times> u32 result" where
  "arena_allocate a sz =
     (if sz = 0 then (a, Inr 0)
      else if sz > 0xFFFFFFFF then (a, fail Record_too_large)
      else
        (case checked_add (of_nat (ka_bump a) :: u64) (of_nat sz) of
           Inl e \<Rightarrow> (a, Inl e)
         | Inr needed \<Rightarrow>
             if unat needed > 0xFFFFFFFF then (a, fail Arithmetic_overflow)
             else
               let storage = (if unat needed > length (ka_storage a)
                              then ka_storage a @ replicate (unat needed - length (ka_storage a)) 0
                              else ka_storage a)
               in (\<lparr> ka_storage = storage, ka_bump = unat needed \<rparr>, Inr (of_nat (ka_bump a)))))"

definition arena_data :: "key_arena \<Rightarrow> u32 \<Rightarrow> nat \<Rightarrow> bytes" where
  "arena_data a offset sz =
     (if sz = 0 then []
      else
        (case checked_add (ucast offset :: u64) (of_nat sz) of
           Inl _ \<Rightarrow> []
         | Inr end' \<Rightarrow>
             if unat end' > length (ka_storage a) then []
             else sub (ka_storage a) (unat offset) sz))"

definition arena_store :: "key_arena \<Rightarrow> u32 \<Rightarrow> bytes \<Rightarrow> key_arena" where
  "arena_store a offset bs = a\<lparr> ka_storage := blit (ka_storage a) (unat offset) bs \<rparr>"

definition arena_allocated_bytes :: "key_arena \<Rightarrow> nat" where
  "arena_allocated_bytes a = ka_bump a"

definition arena_clear :: "key_arena \<Rightarrow> key_arena" where
  "arena_clear a = arena_empty"

definition arena_reserve :: "key_arena \<Rightarrow> nat \<Rightarrow> status" where
  "arena_reserve a bytes = (if bytes > 0xFFFFFFFF then fail Arithmetic_overflow else ok)"

definition arena_prepare_allocate :: "key_arena \<Rightarrow> nat \<Rightarrow> status" where
  "arena_prepare_allocate a sz =
     bind_result (checked_add (of_nat (ka_bump a) :: u64) (of_nat sz)) (\<lambda>needed.
       arena_reserve a (unat needed))"

section \<open>Allocation\<close>

definition arena_inv :: "key_arena \<Rightarrow> bool" where
  "arena_inv a \<longleftrightarrow> ka_bump a \<le> length (ka_storage a) \<and> ka_bump a \<le> 0xFFFFFFFF"

lemma arena_inv_empty [simp]: "arena_inv arena_empty"
  by (simp add: arena_inv_def arena_empty_def)

text \<open>Storing a key of \<open>n\<close> bytes succeeds exactly when the arena still has an offset for it.\<close>

definition arena_push :: "key_arena \<Rightarrow> bytes \<Rightarrow> key_arena" where
  "arena_push a bs =
     \<lparr> ka_storage = (let s = ka_storage a; n = ka_bump a + length bs in
         blit (if n > length s then s @ replicate (n - length s) 0 else s) (ka_bump a) bs),
       ka_bump = ka_bump a + length bs \<rparr>"

lemma checked_bump:
  assumes "ka_bump a \<le> 0xFFFFFFFF" "n \<le> 0xFFFFFFFF"
  shows "checked_add (of_nat (ka_bump a) :: u64) (of_nat n) = Inr (of_nat (ka_bump a + n))"
    "unat (of_nat (ka_bump a + n) :: u64) = ka_bump a + n"
proof -
  have u: "unat (of_nat (ka_bump a) :: u64) = ka_bump a" "unat (of_nat n :: u64) = n"
    "unat (of_nat (ka_bump a + n) :: u64) = ka_bump a + n"
    using assms by (intro unat_of_nat_64; linarith)+
  show "checked_add (of_nat (ka_bump a) :: u64) (of_nat n) = Inr (of_nat (ka_bump a + n))"
    unfolding checked_add_Inr_iff u ..
  show "unat (of_nat (ka_bump a + n) :: u64) = ka_bump a + n" by (rule u)
qed

lemma arena_allocate_ok:
  assumes "arena_inv a" "0 < n" "n \<le> 0xFFFFFFFF" "ka_bump a + n \<le> 0xFFFFFFFF"
  shows "arena_allocate a n =
    (\<lparr> ka_storage = (if ka_bump a + n > length (ka_storage a)
                     then ka_storage a @ replicate (ka_bump a + n - length (ka_storage a)) 0
                     else ka_storage a),
       ka_bump = ka_bump a + n \<rparr>, Inr (of_nat (ka_bump a)))"
proof -
  have b: "ka_bump a \<le> 0xFFFFFFFF" using assms(1) by (simp add: arena_inv_def)
  show ?thesis
    unfolding arena_allocate_def checked_bump [OF b assms(3)]
    using assms by (simp add: checked_bump(2) [OF b assms(3)] Let_def del: of_nat_add)
qed

lemma arena_allocate_full:
  assumes "arena_inv a" "n \<le> 0xFFFFFFFF" "ka_bump a + n > 0xFFFFFFFF"
  shows "arena_allocate a n = (a, fail Arithmetic_overflow)"
proof -
  have b: "ka_bump a \<le> 0xFFFFFFFF" using assms(1) by (simp add: arena_inv_def)
  then have "n \<noteq> 0" using assms(3) by auto
  then show ?thesis
    unfolding arena_allocate_def checked_bump [OF b assms(2)]
    using assms b by (simp add: checked_bump(2) [OF b assms(2)] del: of_nat_add)
qed

lemma arena_data_in:
  assumes "0 < n" "unat off + n \<le> length (ka_storage a)" "unat off + n \<le> 0xFFFFFFFF"
  shows "arena_data a off n = sub (ka_storage a) (unat off) n"
proof -
  have n: "unat (of_nat n :: u64) = n" by (rule unat_of_nat_64) (use assms in linarith)
  have s: "unat (of_nat (unat off + n) :: u64) = unat off + n"
    by (rule unat_of_nat_64) (use assms in linarith)
  have "checked_add (ucast off :: u64) (of_nat n) = Inr (of_nat (unat off + n))"
    unfolding checked_add_Inr_iff s unat_ucast_u64 n ..
  then show ?thesis unfolding arena_data_def using assms s by simp
qed

lemma arena_push_props:
  assumes "arena_inv a" "ka_bump a + length bs \<le> 0xFFFFFFFF"
  shows "arena_inv (arena_push a bs)" "ka_bump (arena_push a bs) = ka_bump a + length bs"
    "sub (ka_storage (arena_push a bs)) (ka_bump a) (length bs) = bs"
    "p + n \<le> ka_bump a \<Longrightarrow> sub (ka_storage (arena_push a bs)) p n = sub (ka_storage a) p n"
    "length (ka_storage a) \<le> length (ka_storage (arena_push a bs))"
proof -
  let ?s = "ka_storage a" and ?n = "ka_bump a + length bs"
  define t where "t = (if ?n > length ?s then ?s @ replicate (?n - length ?s) 0 else ?s)"
  have t: "?n \<le> length t" "length ?s \<le> length t" "take (length ?s) t = ?s"
    by (auto simp: t_def)
  have p: "arena_push a bs = \<lparr> ka_storage = blit t (ka_bump a) bs, ka_bump = ?n \<rparr>"
    by (simp add: arena_push_def t_def Let_def)
  show "arena_inv (arena_push a bs)" using assms t by (simp add: p arena_inv_def)
  show "ka_bump (arena_push a bs) = ?n" by (simp add: p)
  show "sub (ka_storage (arena_push a bs)) (ka_bump a) (length bs) = bs" using t by (simp add: p sub_blit)
  show "length ?s \<le> length (ka_storage (arena_push a bs))" using t by (simp add: p)
  assume pn: "p + n \<le> ka_bump a"
  have bl: "ka_bump a \<le> length ?s" using assms(1) by (simp add: arena_inv_def)
  have "sub (blit t (ka_bump a) bs) p n = sub t p n" using t pn by (intro sub_blit_frame) simp_all
  also have "\<dots> = sub (take (length ?s) t) p n" using pn bl t(2) by (simp add: sub_def drop_take min_def)
  finally show "sub (ka_storage (arena_push a bs)) p n = sub ?s p n" by (simp add: p t(3))
qed

end
