(* ===== verification/Swiss_Table.thy ===== *)
theory Swiss_Table
  imports Key_Arena Key_Hash Segment
begin

text \<open>
  The production index: \<open>src/include/glifistore/index/swiss_table.hpp\<close>,
  \<open>src/include/glifistore/index/swiss_control_group.hpp\<close> and \<open>src/src/index/swiss_table.cpp\<close>.
  A flat open-addressing table with one control byte per slot, probed in groups of eight.
  Sizes are natural numbers bounded by the \<open>size_t\<close> limit where the code tests it.

  \<open>insert_or_assign\<close> may grow the table, which rebuilds it by calling \<open>insert_or_assign\<close> on a
  new table.  The functions on that cycle take the nested insertion as an argument and
  \<open>insert_fuel\<close> ties the knot; fuel 2 is the real operation, because a rebuilt table has room
  for every entry and never grows while it is filled.  \<open>equal_byte_mask\<close> is the portable
  variant; the SSE2 and NEON variants of the same mask, the floating-point load factors of
  \<open>stats\<close> and memory exhaustion of the vectors are not modelled.
\<close>

section \<open>Control groups\<close>

definition kSwissGroupSize :: nat where "kSwissGroupSize = 8"
definition kSwissEmpty :: byte where "kSwissEmpty = 0x80"
definition kSwissDeleted :: byte where "kSwissDeleted = 0xFE"
definition kSwissInlineKeyBytes :: nat where "kSwissInlineKeyBytes = 24"
definition kSwissMixConstant :: u64 where "kSwissMixConstant = 0x9E3779B97F4A7C15"
definition kHeapArenaCompactDeadThreshold :: nat where "kHeapArenaCompactDeadThreshold = 65536"
definition kSwissMinimumDeletedRebuild :: nat where "kSwissMinimumDeletedRebuild = kSwissGroupSize"
definition kSizeMax :: nat where "kSizeMax = 2 ^ 64 - 1"

definition load_control_group64 :: "bytes \<Rightarrow> nat \<Rightarrow> u64" where
  "load_control_group64 control group_start = get_u64 control group_start"

definition control_byte_at :: "u64 \<Rightarrow> nat \<Rightarrow> byte" where
  "control_byte_at control offset = ucast (drop_bit (offset * 8) control AND 0xFF)"

definition equal_byte_mask :: "bytes \<Rightarrow> nat \<Rightarrow> byte \<Rightarrow> u64" where
  "equal_byte_mask control group_start b =
     (let word = load_control_group64 control group_start in
      foldl (\<lambda>mask index. if control_byte_at word index = b then mask OR push_bit index 1 else mask)
        0 [0..<kSwissGroupSize])"

section \<open>Table state\<close>

datatype key_storage = Inline_key bytes | Heap_key_offset u32

text \<open>Reading a member of the union is reading its bytes.\<close>

fun inline_key :: "key_storage \<Rightarrow> bytes" where
  "inline_key (Inline_key bs) = bs"
| "inline_key (Heap_key_offset offset) = put_u32 (replicate kSwissInlineKeyBytes 0) 0 offset"

fun heap_key_offset :: "key_storage \<Rightarrow> u32" where
  "heap_key_offset (Heap_key_offset offset) = offset"
| "heap_key_offset (Inline_key bs) = get_u32 bs 0"

record slot =
  sl_ref :: record_ref
  sl_key :: key_storage
  sl_key_hash_tag :: u32
  sl_key_size_and_mode :: u32

definition kInlineKeyMask :: u32 where "kInlineKeyMask = push_bit 31 1"

definition default_ref :: record_ref where
  "default_ref = \<lparr> rr_segment_id = 0, rr_offset = 0, rr_size = 0, rr_sequence = 0, rr_generation = 0 \<rparr>"

definition blank_slot :: slot where
  "blank_slot = \<lparr> sl_ref = default_ref, sl_key = Inline_key (replicate kSwissInlineKeyBytes 0),
                  sl_key_hash_tag = 0, sl_key_size_and_mode = 0 \<rparr>"

definition key_size :: "slot \<Rightarrow> nat" where
  "key_size s = unat (sl_key_size_and_mode s AND NOT kInlineKeyMask)"

definition key_is_inline :: "slot \<Rightarrow> bool" where
  "key_is_inline s \<longleftrightarrow> sl_key_size_and_mode s AND kInlineKeyMask \<noteq> 0"

definition set_key_metadata :: "slot \<Rightarrow> u32 \<Rightarrow> bool \<Rightarrow> slot" where
  "set_key_metadata s sz is_inline =
     s\<lparr> sl_key_size_and_mode := sz OR (if is_inline then kInlineKeyMask else 0) \<rparr>"

record swiss_table =
  st_routing :: worker_routing_state
  st_seed :: u64
  st_size :: nat
  st_deleted_count :: nat
  st_capacity :: nat
  st_heap_live_bytes :: nat
  st_heap_dead_bytes :: nat
  st_control :: bytes
  st_slots :: "slot list"
  st_heap_keys :: key_arena
  st_maximum_probe_groups :: nat
  st_rehash_count :: u64
  st_tombstone_rebuild_count :: u64

record mutation_result =
  mr_inserted :: bool
  mr_previous :: "record_ref option"

definition make_swiss_table :: "worker_routing_state \<Rightarrow> u64 \<Rightarrow> swiss_table" where
  "make_swiss_table routing sd =
     \<lparr> st_routing = routing, st_seed = sd, st_size = 0, st_deleted_count = 0,
       st_capacity = kSwissGroupSize, st_heap_live_bytes = 0, st_heap_dead_bytes = 0,
       st_control = replicate kSwissGroupSize kSwissEmpty,
       st_slots = replicate kSwissGroupSize blank_slot, st_heap_keys = arena_empty,
       st_maximum_probe_groups = 0, st_rehash_count = 0, st_tombstone_rebuild_count = 0 \<rparr>"

section \<open>Hashing, probing and keys\<close>

text \<open>The loop starts at eight; a zero capacity, which would never grow, does not occur.\<close>

function normalize_loop :: "nat \<Rightarrow> nat \<Rightarrow> nat result" where
  "normalize_loop minimum_slots capacity =
     (if 0 < capacity \<and> capacity < minimum_slots then
        if capacity > kSizeMax div 2 then fail Arithmetic_overflow
        else normalize_loop minimum_slots (2 * capacity)
      else Inr capacity)"
  by pat_completeness auto

termination by (relation "measure (\<lambda>(m, c). m - c)") auto

declare normalize_loop.simps [simp del]

definition normalize_capacity :: "nat \<Rightarrow> nat result" where
  "normalize_capacity minimum_slots = normalize_loop minimum_slots kSwissGroupSize"

definition mix_hash :: "swiss_table \<Rightarrow> u64 \<Rightarrow> u64" where
  "mix_hash t key_hash =
     (let hash = key_hash XOR st_seed t;
          hash = hash * kSwissMixConstant;
          hash = hash XOR drop_bit 33 hash;
          hash = hash * kSwissMixConstant
      in hash XOR drop_bit 29 hash)"

definition h2 :: "u64 \<Rightarrow> byte" where
  "h2 hash = (let fingerprint = ucast (hash AND 0x7F) in if fingerprint = 0 then 1 else fingerprint)"

definition probe_start :: "swiss_table \<Rightarrow> u64 \<Rightarrow> nat" where
  "probe_start t hash =
     unat (drop_bit 7 hash AND of_nat (st_capacity t div kSwissGroupSize - 1)) * kSwissGroupSize"

definition next_group :: "nat \<Rightarrow> nat \<Rightarrow> nat" where
  "next_group group_start capacity =
     (let next = group_start + kSwissGroupSize in if next \<ge> capacity then next - capacity else next)"

definition effective_occupancy :: "swiss_table \<Rightarrow> nat" where
  "effective_occupancy t = st_size t + st_deleted_count t"

definition maximum_occupancy :: "swiss_table \<Rightarrow> nat" where
  "maximum_occupancy t = st_capacity t - st_capacity t div 8"

definition tombstone_rebuild_beneficial :: "swiss_table \<Rightarrow> bool" where
  "tombstone_rebuild_beneficial t \<longleftrightarrow>
     (let threshold = max kSwissMinimumDeletedRebuild (st_capacity t div 4)
      in st_deleted_count t \<ge> threshold \<and> st_deleted_count t > st_size t)"

definition observe_probe :: "swiss_table \<Rightarrow> nat \<Rightarrow> swiss_table" where
  "observe_probe t groups =
     (if groups > st_maximum_probe_groups t then t\<lparr> st_maximum_probe_groups := groups \<rparr> else t)"

definition slot_key :: "key_arena \<Rightarrow> slot \<Rightarrow> bytes" where
  "slot_key heap_keys s =
     (if key_size s = 0 then []
      else if key_is_inline s then take (key_size s) (inline_key (sl_key s))
      else arena_data heap_keys (heap_key_offset (sl_key s)) (key_size s))"

definition key_equals :: "key_arena \<Rightarrow> slot \<Rightarrow> bytes \<Rightarrow> u64 \<Rightarrow> bool" where
  "key_equals heap_keys s key key_hash \<longleftrightarrow>
     (if key_size s \<noteq> length key \<or> sl_key_hash_tag s \<noteq> ucast key_hash then False
      else if key = [] then True
      else if key_is_inline s then take (length key) (inline_key (sl_key s)) = key
      else
        let heap_key = arena_data heap_keys (heap_key_offset (sl_key s)) (key_size s)
        in length heap_key = length key \<and> heap_key = key)"

section \<open>Lookup\<close>

text \<open>
  One group: \<open>None\<close> when the loop over the offsets ends, \<open>Some r\<close> when it returns \<open>r\<close>.
\<close>

fun find_in_group :: "swiss_table \<Rightarrow> bytes \<Rightarrow> u64 \<Rightarrow> u64 \<Rightarrow> u64 \<Rightarrow> nat \<Rightarrow> nat list \<Rightarrow> nat option option" where
  "find_in_group t key key_hash control_word fingerprint_mask group_start [] = None"
| "find_in_group t key key_hash control_word fingerprint_mask group_start (offset # offsets) =
     (if control_byte_at control_word offset = kSwissEmpty then Some None
      else if fingerprint_mask AND push_bit offset 1 \<noteq> 0
              \<and> key_equals (st_heap_keys t) (st_slots t ! (group_start + offset)) key key_hash
      then Some (Some (group_start + offset))
      else find_in_group t key key_hash control_word fingerprint_mask group_start offsets)"

function find_probe :: "swiss_table \<Rightarrow> bytes \<Rightarrow> u64 \<Rightarrow> byte \<Rightarrow> nat \<Rightarrow> nat \<Rightarrow> nat option \<times> nat" where
  "find_probe t key key_hash fingerprint probe group_start =
     (if probe < st_capacity t then
        (case find_in_group t key key_hash (load_control_group64 (st_control t) group_start)
                (equal_byte_mask (st_control t) group_start fingerprint) group_start [0..<kSwissGroupSize] of
           Some r \<Rightarrow> (r, probe div kSwissGroupSize + 1)
         | None \<Rightarrow> find_probe t key key_hash fingerprint (probe + kSwissGroupSize)
                     (next_group group_start (st_capacity t)))
      else (None, st_capacity t div kSwissGroupSize))"
  by pat_completeness auto

termination
  by (relation "measure (\<lambda>(t, key, kh, fp, probe, g). st_capacity t - probe)")
    (auto simp: kSwissGroupSize_def)

declare find_probe.simps [simp del]

definition find_slot_index :: "swiss_table \<Rightarrow> bytes \<Rightarrow> u64 \<Rightarrow> swiss_table \<times> nat option" where
  "find_slot_index t key key_hash =
     (if st_capacity t = 0 then (t, None)
      else
        let hash = mix_hash t key_hash;
            (index, groups) = find_probe t key key_hash (h2 hash) 0 (probe_start t hash)
        in (observe_probe t groups, index))"

fun insert_in_group :: "swiss_table \<Rightarrow> bytes \<Rightarrow> u64 \<Rightarrow> u64 \<Rightarrow> u64 \<Rightarrow> nat \<Rightarrow> nat option \<Rightarrow> nat list
    \<Rightarrow> nat option + nat" where
  "insert_in_group t key key_hash control_word fingerprint_mask group_start first_deleted [] =
     Inl first_deleted"
| "insert_in_group t key key_hash control_word fingerprint_mask group_start first_deleted (offset # offsets) =
     (let index = group_start + offset;
          control = control_byte_at control_word offset
      in if control = kSwissEmpty then Inr (case first_deleted of Some d \<Rightarrow> d | None \<Rightarrow> index)
         else
           let first_deleted = (if control = kSwissDeleted \<and> first_deleted = None then Some index
                                else first_deleted)
           in if fingerprint_mask AND push_bit offset 1 \<noteq> 0
                 \<and> key_equals (st_heap_keys t) (st_slots t ! index) key key_hash
              then Inr index
              else insert_in_group t key key_hash control_word fingerprint_mask group_start first_deleted
                     offsets)"

function insert_probe :: "swiss_table \<Rightarrow> bytes \<Rightarrow> u64 \<Rightarrow> byte \<Rightarrow> nat \<Rightarrow> nat \<Rightarrow> nat option \<Rightarrow> nat option \<times> nat" where
  "insert_probe t key key_hash fingerprint probe group_start first_deleted =
     (if probe < st_capacity t then
        (case insert_in_group t key key_hash (load_control_group64 (st_control t) group_start)
                (equal_byte_mask (st_control t) group_start fingerprint) group_start first_deleted
                [0..<kSwissGroupSize] of
           Inr index \<Rightarrow> (Some index, probe div kSwissGroupSize + 1)
         | Inl first_deleted \<Rightarrow>
             insert_probe t key key_hash fingerprint (probe + kSwissGroupSize)
               (next_group group_start (st_capacity t)) first_deleted)
      else (None, st_capacity t div kSwissGroupSize))"
  by pat_completeness auto

termination
  by (relation "measure (\<lambda>(t, key, kh, fp, probe, g, fd). st_capacity t - probe)")
    (auto simp: kSwissGroupSize_def)

declare insert_probe.simps [simp del]

section \<open>Keys in slots\<close>

definition set_key :: "swiss_table \<Rightarrow> nat \<Rightarrow> bytes \<Rightarrow> u64 \<Rightarrow> swiss_table \<times> status" where
  "set_key t index key key_hash =
     (if length key \<ge> unat kInlineKeyMask then (t, fail Invalid_argument)
      else
        let sz = of_nat (length key) :: u32;
            slot = (st_slots t ! index)\<lparr> sl_key_hash_tag := ucast key_hash \<rparr>
        in if length key \<le> kSwissInlineKeyBytes then
             let slot = set_key_metadata slot sz True;
                 slot = slot\<lparr> sl_key := Inline_key (blit (replicate kSwissInlineKeyBytes 0) 0 key) \<rparr>
             in (t\<lparr> st_slots := (st_slots t)[index := slot] \<rparr>, ok)
           else
             let slot = set_key_metadata slot sz False in
             (case arena_allocate (st_heap_keys t) (length key) of
                (arena, Inl e) \<Rightarrow>
                  (t\<lparr> st_heap_keys := arena, st_slots := (st_slots t)[index := blank_slot] \<rparr>, Inl e)
              | (arena, Inr offset) \<Rightarrow>
                  let slot = slot\<lparr> sl_key := Heap_key_offset offset \<rparr> in
                  if length (arena_data arena offset (length key)) \<noteq> length key
                  then (t\<lparr> st_heap_keys := arena, st_slots := (st_slots t)[index := blank_slot] \<rparr>,
                        fail Corrupted_data)
                  else (t\<lparr> st_heap_keys := arena_store arena offset key,
                           st_slots := (st_slots t)[index := slot],
                           st_heap_live_bytes := st_heap_live_bytes t + length key \<rparr>, ok)))"

definition occupied :: "byte \<Rightarrow> bool" where
  "occupied c \<longleftrightarrow> \<not> (c = kSwissEmpty \<or> c = kSwissDeleted)"

definition on_heap :: "slot \<Rightarrow> bool" where
  "on_heap s \<longleftrightarrow> \<not> key_is_inline s \<and> key_size s > 0"

text \<open>The second loop of \<open>compact_heap_keys\<close>: copy the live heap keys to the new arena.\<close>

fun compact_loop :: "swiss_table \<Rightarrow> nat list \<Rightarrow> key_arena \<Rightarrow> u32 list \<Rightarrow> (key_arena \<times> u32 list) result" where
  "compact_loop t [] compacted new_offsets = Inr (compacted, new_offsets)"
| "compact_loop t (index # rest) compacted new_offsets =
     (let s = st_slots t ! index in
      if \<not> occupied (st_control t ! index) \<or> key_is_inline s \<or> key_size s = 0
      then compact_loop t rest compacted new_offsets
      else
        let source = arena_data (st_heap_keys t) (heap_key_offset (sl_key s)) (key_size s) in
        if length source \<noteq> key_size s then fail Corrupted_data
        else
          (case arena_allocate compacted (key_size s) of
             (_, Inl e) \<Rightarrow> Inl e
           | (compacted, Inr offset) \<Rightarrow>
               if length (arena_data compacted offset (key_size s)) \<noteq> key_size s then fail Corrupted_data
               else compact_loop t rest (arena_store compacted offset source) (new_offsets[index := offset])))"

definition compact_heap_keys :: "swiss_table \<Rightarrow> swiss_table \<times> status" where
  "compact_heap_keys t =
     (let n = length (st_slots t);
          heap_bytes = sum_list (map (\<lambda>index.
            if occupied (st_control t ! index) \<and> on_heap (st_slots t ! index)
            then key_size (st_slots t ! index) else 0) [0..<n])
      in case arena_reserve arena_empty heap_bytes of
           Inl e \<Rightarrow> (t, Inl e)
         | Inr _ \<Rightarrow>
             (case compact_loop t [0..<n] arena_empty (replicate n 0) of
                Inl e \<Rightarrow> (t, Inl e)
              | Inr (compacted, new_offsets) \<Rightarrow>
                  let slots = map (\<lambda>index.
                        let s = st_slots t ! index in
                        if occupied (st_control t ! index) \<and> on_heap s
                        then s\<lparr> sl_key := Heap_key_offset (new_offsets ! index) \<rparr> else s) [0..<n]
                  in (t\<lparr> st_slots := slots, st_heap_keys := compacted, st_heap_dead_bytes := 0,
                         st_heap_live_bytes := arena_allocated_bytes compacted \<rparr>, ok)))"

definition maybe_compact_heap_keys :: "swiss_table \<Rightarrow> swiss_table \<times> status" where
  "maybe_compact_heap_keys t =
     (if st_heap_dead_bytes t = 0 then (t, ok)
      else if st_heap_live_bytes t = 0 then
        (t\<lparr> st_heap_keys := arena_clear (st_heap_keys t), st_heap_dead_bytes := 0 \<rparr>, ok)
      else if st_heap_dead_bytes t < kHeapArenaCompactDeadThreshold
              \<or> st_heap_dead_bytes t < st_heap_live_bytes t
      then (t, ok)
      else compact_heap_keys t)"

definition clear_slot :: "swiss_table \<Rightarrow> nat \<Rightarrow> swiss_table" where
  "clear_slot t index =
     (let s = st_slots t ! index;
          t = (if on_heap s
               then t\<lparr> st_heap_live_bytes := (if st_heap_live_bytes t \<ge> key_size s
                                              then st_heap_live_bytes t - key_size s else 0),
                       st_heap_dead_bytes := st_heap_dead_bytes t + key_size s \<rparr>
               else t)
      in t\<lparr> st_control := (st_control t)[index := kSwissDeleted],
            st_slots := (st_slots t)[index := blank_slot],
            st_deleted_count := st_deleted_count t + 1 \<rparr>)"

section \<open>Growing and inserting\<close>

type_synonym insertion = "swiss_table \<Rightarrow> hashed_key \<Rightarrow> record_ref \<Rightarrow> swiss_table \<times> mutation_result result"

fun rehash_loop :: "insertion \<Rightarrow> swiss_table \<Rightarrow> nat list \<Rightarrow> swiss_table \<Rightarrow> swiss_table result" where
  "rehash_loop ins t [] rebuilt = Inr rebuilt"
| "rehash_loop ins t (index # rest) rebuilt =
     (if \<not> occupied (st_control t ! index) then rehash_loop ins t rest rebuilt
      else
        let key = slot_key (st_heap_keys t) (st_slots t ! index) in
        (case ins rebuilt \<lparr> hk_key = key, hk_hash = hash_key_routing key (st_routing t) \<rparr>
                (sl_ref (st_slots t ! index)) of
           (_, Inl e) \<Rightarrow> Inl e
         | (rebuilt, Inr inserted) \<Rightarrow>
             if \<not> mr_inserted inserted then fail Corrupted_data
             else rehash_loop ins t rest rebuilt))"

definition rehash :: "insertion \<Rightarrow> swiss_table \<Rightarrow> nat \<Rightarrow> bool \<Rightarrow> swiss_table \<times> status" where
  "rehash ins t new_capacity force_same_capacity =
     (case normalize_capacity new_capacity of
        Inl e \<Rightarrow> (t, Inl e)
      | Inr normalized \<Rightarrow>
          if normalized = st_capacity t \<and> \<not> force_same_capacity then (t, ok)
          else if st_size t > normalized - normalized div 8 then (t, fail Invalid_argument)
          else
            let rebuilt = (make_swiss_table (st_routing t) (st_seed t))
                  \<lparr> st_capacity := normalized, st_size := 0, st_deleted_count := 0,
                    st_control := replicate normalized kSwissEmpty,
                    st_slots := replicate normalized blank_slot \<rparr>
            in case arena_reserve (st_heap_keys rebuilt) (st_heap_live_bytes t) of
                 Inl e \<Rightarrow> (t, Inl e)
               | Inr _ \<Rightarrow>
                   (case rehash_loop ins t [0..<st_capacity t] rebuilt of
                      Inl e \<Rightarrow> (t, Inl e)
                    | Inr rebuilt \<Rightarrow>
                        let same_capacity = (normalized = st_capacity t) in
                        (t\<lparr> st_capacity := normalized, st_size := st_size rebuilt, st_deleted_count := 0,
                            st_heap_live_bytes := st_heap_live_bytes rebuilt, st_heap_dead_bytes := 0,
                            st_control := st_control rebuilt, st_slots := st_slots rebuilt,
                            st_heap_keys := st_heap_keys rebuilt,
                            st_maximum_probe_groups := max (st_maximum_probe_groups t)
                                                           (st_maximum_probe_groups rebuilt),
                            st_rehash_count := st_rehash_count t + 1,
                            st_tombstone_rebuild_count := (if same_capacity
                                                           then st_tombstone_rebuild_count t + 1
                                                           else st_tombstone_rebuild_count t) \<rparr>, ok)))"

definition grow_if_needed :: "insertion \<Rightarrow> swiss_table \<Rightarrow> swiss_table \<times> status" where
  "grow_if_needed ins t =
     (if st_capacity t = 0 then (t, ok)
      else if st_size t > st_capacity t \<or> st_deleted_count t > st_capacity t - st_size t
      then (t, fail Corrupted_data)
      else if tombstone_rebuild_beneficial t then rehash ins t (st_capacity t) True
      else if effective_occupancy t < maximum_occupancy t then (t, ok)
      else if st_size t < maximum_occupancy t \<and> st_deleted_count t \<noteq> 0
      then rehash ins t (st_capacity t) True
      else if st_capacity t > kSizeMax div 2 then (t, fail Arithmetic_overflow)
      else rehash ins t (2 * st_capacity t) False)"

definition find_insert_index :: "insertion \<Rightarrow> swiss_table \<Rightarrow> bytes \<Rightarrow> u64 \<Rightarrow> u64 \<Rightarrow> swiss_table \<times> nat result" where
  "find_insert_index ins t key key_hash mixed_hash =
     (case grow_if_needed ins t of
        (t, Inl e) \<Rightarrow> (t, Inl e)
      | (t, Inr _) \<Rightarrow>
          let (index, groups) = insert_probe t key key_hash (h2 mixed_hash) 0 (probe_start t mixed_hash) None;
              t = observe_probe t groups
          in (t, case index of None \<Rightarrow> fail Corrupted_data | Some i \<Rightarrow> Inr i))"

definition insert_step :: "insertion \<Rightarrow> insertion" where
  "insert_step ins t key ref =
     (if length (hk_key key) \<ge> unat kInlineKeyMask then (t, fail Invalid_argument)
      else
        let mixed_hash = mix_hash t (hk_hash key) in
        (case find_insert_index ins t (hk_key key) (hk_hash key) mixed_hash of
           (t, Inl e) \<Rightarrow> (t, Inl e)
         | (t, Inr index) \<Rightarrow>
             let previous_control = st_control t ! index in
             if \<not> occupied previous_control then
               (case set_key t index (hk_key key) (hk_hash key) of
                  (t, Inl e) \<Rightarrow> (t, Inl e)
                | (t, Inr _) \<Rightarrow>
                    (t\<lparr> st_slots := (st_slots t)[index := (st_slots t ! index)\<lparr> sl_ref := ref \<rparr>],
                        st_control := (st_control t)[index := h2 mixed_hash],
                        st_deleted_count := (if previous_control = kSwissDeleted
                                             then st_deleted_count t - 1 else st_deleted_count t),
                        st_size := st_size t + 1 \<rparr>,
                     Inr \<lparr> mr_inserted = True, mr_previous = None \<rparr>))
             else
               (t\<lparr> st_slots := (st_slots t)[index := (st_slots t ! index)\<lparr> sl_ref := ref \<rparr>] \<rparr>,
                Inr \<lparr> mr_inserted = False, mr_previous = Some (sl_ref (st_slots t ! index)) \<rparr>)))"

primrec insert_fuel :: "nat \<Rightarrow> insertion" where
  "insert_fuel 0 t key ref = (t, fail Internal_error)"
| "insert_fuel (Suc n) t key ref = insert_step (insert_fuel n) t key ref"

definition insert_or_assign :: insertion where
  "insert_or_assign = insert_fuel 2"

definition hashed :: "swiss_table \<Rightarrow> bytes \<Rightarrow> hashed_key" where
  "hashed t key = \<lparr> hk_key = key, hk_hash = hash_key_routing key (st_routing t) \<rparr>"

definition swiss_find :: "swiss_table \<Rightarrow> hashed_key \<Rightarrow> swiss_table \<times> record_ref option" where
  "swiss_find t key =
     (let (t, index) = find_slot_index t (hk_key key) (hk_hash key)
      in (t, map_option (\<lambda>i. sl_ref (st_slots t ! i)) index))"

definition erase_no_compact :: "swiss_table \<Rightarrow> hashed_key \<Rightarrow> swiss_table \<times> mutation_result" where
  "erase_no_compact t key =
     (case find_slot_index t (hk_key key) (hk_hash key) of
        (t, None) \<Rightarrow> (t, \<lparr> mr_inserted = False, mr_previous = None \<rparr>)
      | (t, Some index) \<Rightarrow>
          let previous = sl_ref (st_slots t ! index);
              t = clear_slot t index
          in (t\<lparr> st_size := st_size t - 1 \<rparr>, \<lparr> mr_inserted = False, mr_previous = Some previous \<rparr>))"

definition swiss_erase :: "swiss_table \<Rightarrow> hashed_key \<Rightarrow> swiss_table \<times> mutation_result" where
  "swiss_erase t key =
     (case erase_no_compact t key of
        (t, result) \<Rightarrow>
          (if mr_previous result \<noteq> None then fst (maybe_compact_heap_keys t) else t, result))"

definition prepare_insert :: "swiss_table \<Rightarrow> hashed_key \<Rightarrow> swiss_table \<times> status" where
  "prepare_insert t key =
     (if length (hk_key key) \<ge> unat kInlineKeyMask then (t, fail Invalid_argument)
      else
        (case find_slot_index t (hk_key key) (hk_hash key) of
           (t, Some _) \<Rightarrow> (t, ok)
         | (t, None) \<Rightarrow>
             if st_size t = kSizeMax then (t, fail Arithmetic_overflow)
             else
               (case grow_if_needed (insert_fuel 1) t of
                  (t, Inl e) \<Rightarrow> (t, Inl e)
                | (t, Inr _) \<Rightarrow>
                    (t, if length (hk_key key) > kSwissInlineKeyBytes
                        then arena_prepare_allocate (st_heap_keys t) (length (hk_key key)) else ok))))"

definition reserve :: "swiss_table \<Rightarrow> nat \<Rightarrow> swiss_table \<times> status" where
  "reserve t count =
     (if st_size t > st_capacity t \<or> st_deleted_count t > st_capacity t - st_size t
      then (t, fail Corrupted_data)
      else
        let extra = count div 7 + (if count mod 7 = 0 then 0 else 1) in
        if extra > kSizeMax - count then (t, fail Arithmetic_overflow)
        else
          let minimum = count + extra in
          (case normalize_capacity (max minimum kSwissGroupSize) of
             Inl e \<Rightarrow> (t, Inl e)
           | Inr needed \<Rightarrow>
               if st_capacity t = 0 then
                 (t\<lparr> st_capacity := needed, st_control := replicate needed kSwissEmpty,
                     st_slots := replicate needed blank_slot \<rparr>, ok)
               else if needed > st_capacity t then rehash (insert_fuel 1) t needed False
               else if count > st_size t then
                 let additional = count - st_size t;
                     occupancy = effective_occupancy t;
                     may_exhaust_empty = (occupancy > maximum_occupancy t
                                          \<or> additional > maximum_occupancy t - occupancy)
                 in if may_exhaust_empty \<or> tombstone_rebuild_beneficial t
                    then rehash (insert_fuel 1) t (st_capacity t) True else (t, ok)
               else (t, ok)))"

definition prepare_batch_insert :: "swiss_table \<Rightarrow> nat \<Rightarrow> nat \<Rightarrow> swiss_table \<times> status" where
  "prepare_batch_insert t additional_entries additional_heap_key_bytes =
     (if additional_entries > kSizeMax - st_size t then (t, fail Arithmetic_overflow)
      else
        (case reserve t (st_size t + additional_entries) of
           (t, Inl e) \<Rightarrow> (t, Inl e)
         | (t, Inr _) \<Rightarrow> (t, arena_prepare_allocate (st_heap_keys t) additional_heap_key_bytes)))"

definition swiss_entries :: "swiss_table \<Rightarrow> (bytes \<times> record_ref) list" where
  "swiss_entries t =
     map (\<lambda>i. (slot_key (st_heap_keys t) (st_slots t ! i), sl_ref (st_slots t ! i)))
       (filter (\<lambda>i. occupied (st_control t ! i)) [0..<st_capacity t])"

definition clone_empty :: "swiss_table \<Rightarrow> swiss_table" where
  "clone_empty t = make_swiss_table (st_routing t) (st_seed t)"

end
