(* ===== verification/Swiss_Probe.thy ===== *)
theory Swiss_Probe
  imports Swiss_Table
begin

text \<open>
  What the two probe loops of \<open>swiss_table.cpp\<close> compute.  The loops walk the table group by
  group; the lemmas describe them as a walk over the single cells
  \<open>(start + d) mod capacity\<close>, which is how the invariant of the table is stated.
\<close>

section \<open>Control groups\<close>

lemma control_byte_at_load:
  assumes "o' < 8"
  shows "control_byte_at (load_control_group64 c g) o' = c ! (g + o')"
proof -
  have "control_byte_at w o' = byte_of_word w o'" for w
    by (simp add: control_byte_at_def byte_of_word_def)
  moreover have "byte_of_word (get_le 8 c g :: u64) o' = c ! (g + o')"
  proof (rule bit_word_eqI)
    fix k :: nat assume k: "k < LENGTH(8)"
    then have "(o' * 8 + k) div 8 = o'" "(o' * 8 + k) mod 8 = k" "o' * 8 + k < 64" using assms by simp_all
    then show "bit (byte_of_word (get_le 8 c g :: u64) o') k = bit (c ! (g + o')) k"
      using k by (simp add: bit_byte_of_word bit_get_le)
  qed
  ultimately show ?thesis by (simp add: load_control_group64_def le_defs)
qed

lemma bit_mask_fold:
  "bit (foldl (\<lambda>mask index. if P index then mask OR push_bit index (1 :: u64) else mask) m [0..<n]) k
     \<longleftrightarrow> bit m k \<or> (k < n \<and> k < 64 \<and> P k)"
  by (induction n) (auto simp: bit_simps less_Suc_eq)

lemma equal_byte_mask_bit:
  assumes "k < 8"
  shows "equal_byte_mask c g b AND 2 ^ k = 0 \<longleftrightarrow> c ! (g + k) \<noteq> b"
proof -
  have "bit (equal_byte_mask c g b) k \<longleftrightarrow> c ! (g + k) = b"
    using assms by (simp add: equal_byte_mask_def Let_def bit_mask_fold kSwissGroupSize_def
        control_byte_at_load)
  then show ?thesis by (simp add: and_exp_eq_0_iff_not_bit)
qed

section \<open>One group\<close>

definition matches :: "swiss_table \<Rightarrow> bytes \<Rightarrow> u64 \<Rightarrow> byte \<Rightarrow> nat \<Rightarrow> bool" where
  "matches t key kh fp i \<longleftrightarrow> st_control t ! i = fp \<and> key_equals (st_heap_keys t) (st_slots t ! i) key kh"

text \<open>A cell the search passes: not empty and not the key.\<close>

definition passed :: "swiss_table \<Rightarrow> bytes \<Rightarrow> u64 \<Rightarrow> byte \<Rightarrow> nat \<Rightarrow> bool" where
  "passed t key kh fp i \<longleftrightarrow> st_control t ! i \<noteq> kSwissEmpty \<and> \<not> matches t key kh fp i"

lemma find_in_group_cases:
  assumes "\<forall>o' \<in> set offs. o' < 8"
  shows "case find_in_group t key kh (load_control_group64 (st_control t) g)
           (equal_byte_mask (st_control t) g fp) g offs of
      None \<Rightarrow> \<forall>o' \<in> set offs. passed t key kh fp (g + o')
    | Some x \<Rightarrow> \<exists>pre o' post. offs = pre @ o' # post \<and> (\<forall>q \<in> set pre. passed t key kh fp (g + q))
        \<and> \<not> passed t key kh fp (g + o')
        \<and> x = (if st_control t ! (g + o') = kSwissEmpty then None else Some (g + o'))"
  using assms
proof (induction offs)
  case (Cons a offs)
  then have a: "a < 8" by simp
  show ?case
  proof (cases "passed t key kh fp (g + a)")
    case True
    then have step: "find_in_group t key kh (load_control_group64 (st_control t) g)
        (equal_byte_mask (st_control t) g fp) g (a # offs)
      = find_in_group t key kh (load_control_group64 (st_control t) g)
        (equal_byte_mask (st_control t) g fp) g offs"
      using a by (auto simp: control_byte_at_load equal_byte_mask_bit passed_def matches_def)
    show ?thesis
      using Cons True unfolding step
      by (auto split: option.splits) (metis append_Cons set_ConsD)+
  next
    case False
    then have step: "find_in_group t key kh (load_control_group64 (st_control t) g)
        (equal_byte_mask (st_control t) g fp) g (a # offs)
      = Some (if st_control t ! (g + a) = kSwissEmpty then None else Some (g + a))"
      using a by (auto simp: control_byte_at_load equal_byte_mask_bit passed_def matches_def)
    show ?thesis
      unfolding step option.case
      by (rule exI [of _ "[]"], rule exI [of _ a], rule exI [of _ offs]) (simp add: False)
  qed
qed simp

lemma upt_split:
  assumes "[0..<n] = pre @ x # post"
  shows "x < n" "set pre = {0..<x}"
proof -
  have "length pre < n" using arg_cong [OF assms, of length] by simp
  then have x: "x = length pre" using arg_cong [OF assms, of "\<lambda>xs. xs ! length pre"] by simp
  show "x < n" using x \<open>length pre < n\<close> by simp
  have "pre = take x [0..<n]" using assms x by simp
  then show "set pre = {0..<x}" using \<open>x < n\<close> by (simp add: take_upt)
qed

section \<open>Walking the table\<close>

definition cell :: "swiss_table \<Rightarrow> nat \<Rightarrow> nat \<Rightarrow> nat" where
  "cell t start d = (start + d) mod st_capacity t"

definition group_capacity :: "nat \<Rightarrow> bool" where
  "group_capacity n \<longleftrightarrow> (\<exists>m. n = 8 * 2 ^ m) \<and> n \<le> kSizeMax"

lemma group_capacity_pos: "group_capacity n \<Longrightarrow> 8 \<le> n" "group_capacity n \<Longrightarrow> 8 dvd n"
  by (auto simp: group_capacity_def)

lemma cell_less: "0 < st_capacity t \<Longrightarrow> cell t start d < st_capacity t"
  by (simp add: cell_def)

lemma cell_group:
  assumes "8 dvd start" "8 dvd st_capacity t" "8 dvd probe" "0 < st_capacity t" "o' < 8"
  shows "cell t start probe + o' = cell t start (probe + o')"
proof -
  let ?c = "st_capacity t"
  have dv: "8 dvd (start + probe) mod ?c" using assms by (simp add: dvd_mod)
  have "(start + probe) mod ?c + o' < ?c"
  proof -
    obtain k l where k: "(start + probe) mod ?c = 8 * k" "?c = 8 * l" using dv assms(2) by (auto elim!: dvdE)
    have "8 * k < 8 * l" using assms(4) k by (metis mod_less_divisor)
    then have "k < l" by simp
    then have "8 * k + 8 \<le> 8 * l" by linarith
    then show ?thesis using k assms(5) by linarith
  qed
  then have "((start + probe) mod ?c + o') mod ?c = (start + probe) mod ?c + o'" by simp
  then show ?thesis by (simp add: cell_def mod_add_left_eq add.assoc)
qed

lemma next_group_cell:
  assumes "0 < st_capacity t" "8 \<le> st_capacity t"
  shows "next_group (cell t start probe) (st_capacity t) = cell t start (probe + 8)"
proof -
  let ?c = "st_capacity t" and ?g = "(start + probe) mod st_capacity t"
  have g: "?g < ?c" using assms by simp
  have "(start + (probe + 8)) mod ?c = (?g + 8) mod ?c" by (simp add: mod_add_left_eq add.assoc)
  also have "\<dots> = (if ?g + 8 \<ge> ?c then ?g + 8 - ?c else ?g + 8)"
  proof (cases "?g + 8 \<ge> ?c")
    case True
    have "?g + 8 - ?c < ?c" using g assms(2) by linarith
    then show ?thesis using True by (simp add: le_mod_geq)
  qed simp
  finally show ?thesis by (simp add: next_group_def cell_def kSwissGroupSize_def Let_def)
qed

definition clear_run :: "swiss_table \<Rightarrow> bytes \<Rightarrow> u64 \<Rightarrow> byte \<Rightarrow> nat \<Rightarrow> nat \<Rightarrow> nat \<Rightarrow> bool" where
  "clear_run t key kh fp start a b \<longleftrightarrow> (\<forall>e. a \<le> e \<and> e < b \<longrightarrow> passed t key kh fp (cell t start e))"

lemma clear_run_refl [simp]: "clear_run t key kh fp start a a"
  by (auto simp: clear_run_def)

lemma clear_run_join:
  "clear_run t key kh fp start a b \<Longrightarrow> clear_run t key kh fp start b c \<Longrightarrow> clear_run t key kh fp start a c"
  unfolding clear_run_def by (metis not_le)

lemma clear_run_group:
  assumes "\<And>q. q < n \<Longrightarrow> passed t key kh fp (cell t start (probe + q))"
  shows "clear_run t key kh fp start probe (probe + n)"
  unfolding clear_run_def
proof (intro allI impI)
  fix e assume "probe \<le> e \<and> e < probe + n"
  then have "e - probe < n" "probe + (e - probe) = e" by linarith+
  then show "passed t key kh fp (cell t start e)" using assms by metis
qed

lemma find_probe_walk:
  assumes "8 dvd start" "group_capacity (st_capacity t)" "8 dvd probe" "probe \<le> st_capacity t"
    and "fst (find_probe t key kh fp probe (cell t start probe)) = r"
  shows "\<exists>d. probe \<le> d \<and> d \<le> st_capacity t \<and> clear_run t key kh fp start probe d
       \<and> (case r of
            Some i \<Rightarrow> d < st_capacity t \<and> i = cell t start d \<and> matches t key kh fp i
                      \<and> st_control t ! i \<noteq> kSwissEmpty
          | None \<Rightarrow> d = st_capacity t \<or> st_control t ! cell t start d = kSwissEmpty)"
  using assms
proof (induction "st_capacity t - probe" arbitrary: probe rule: less_induct)
  case less
  note cap = group_capacity_pos [OF less.prems(2)]
  have pos: "0 < st_capacity t" using cap(1) by simp
  let ?g = "cell t start probe"
  show ?case
  proof (cases "probe < st_capacity t")
    case False
    then have "probe = st_capacity t" "r = None"
      using less.prems(4,5) by (simp_all add: find_probe.simps)
    then show ?thesis by (intro exI [of _ probe]) simp
  next
    case True
    have cell: "?g + o' = cell t start (probe + o')" if "o' < 8" for o'
      using cell_group [OF less.prems(1) cap(2) less.prems(3) pos that] .
    note grp = find_in_group_cases [where offs = "[0..<8]" and t = t and key = key and kh = kh and g = ?g and fp = fp]
    show ?thesis
    proof (cases "find_in_group t key kh (load_control_group64 (st_control t) ?g)
        (equal_byte_mask (st_control t) ?g fp) ?g [0..<8]")
      case None
      have pr: "probe + 8 \<le> st_capacity t"
        using True less.prems(3) cap(2) by (auto elim!: dvdE)
      have dec: "st_capacity t - (probe + 8) < st_capacity t - probe" and dv: "8 dvd probe + 8"
        using True less.prems(3) by (linarith, simp)
      have run: "clear_run t key kh fp start probe (probe + 8)"
        by (rule clear_run_group) (use grp None cell in simp)
      have rec: "fst (find_probe t key kh fp (probe + 8) (cell t start (probe + 8))) = r"
        using less.prems(5) True None next_group_cell [OF pos cap(1), of start probe]
        by (simp add: find_probe.simps [of t key kh fp probe] kSwissGroupSize_def)
      from less.hyps [of "probe + 8", OF dec less.prems(1,2) dv pr rec] obtain d
        where "probe + 8 \<le> d" "d \<le> st_capacity t" "clear_run t key kh fp start (probe + 8) d"
          "case r of Some i \<Rightarrow> d < st_capacity t \<and> i = cell t start d \<and> matches t key kh fp i
                      \<and> st_control t ! i \<noteq> kSwissEmpty
            | None \<Rightarrow> d = st_capacity t \<or> st_control t ! cell t start d = kSwissEmpty"
        by blast
      then show ?thesis using clear_run_join [OF run] by (intro exI [of _ d]) simp
    next
      case (Some x)
      from grp Some obtain pre o' post where sp: "[0..<8] = pre @ o' # post"
        "\<forall>q \<in> set pre. passed t key kh fp (?g + q)" "\<not> passed t key kh fp (?g + o')"
        "x = (if st_control t ! (?g + o') = kSwissEmpty then None else Some (?g + o'))"
        by auto
      note up = upt_split [OF sp(1)]
      have rx: "r = x" using less.prems(5) True Some by (simp add: find_probe.simps kSwissGroupSize_def)
      have lt: "probe + o' < st_capacity t"
        using True less.prems(3) cap(2) up(1) by (auto elim!: dvdE)
      have run: "clear_run t key kh fp start probe (probe + o')"
        by (rule clear_run_group) (use sp(2) up cell in \<open>simp add: up(2)\<close>)
      show ?thesis
        using sp(3,4) lt run unfolding rx cell [OF up(1)]
        by (intro exI [of _ "probe + o'"]) (auto simp: passed_def)
    qed
  qed
qed

section \<open>The probe of an insertion\<close>

lemma insert_in_group_cases:
  assumes "\<forall>o' \<in> set offs. o' < 8"
  shows "case insert_in_group t key kh (load_control_group64 (st_control t) g)
           (equal_byte_mask (st_control t) g fp) g fd offs of
      Inl fd' \<Rightarrow> (\<forall>o' \<in> set offs. passed t key kh fp (g + o'))
        \<and> (fd' = fd \<or> (\<exists>o' \<in> set offs. fd' = Some (g + o') \<and> st_control t ! (g + o') = kSwissDeleted))
    | Inr i \<Rightarrow> \<exists>pre o' post. offs = pre @ o' # post \<and> (\<forall>q \<in> set pre. passed t key kh fp (g + q))
        \<and> \<not> passed t key kh fp (g + o')
        \<and> (if st_control t ! (g + o') = kSwissEmpty
            then i = g + o' \<or> fd = Some i
                 \<or> (\<exists>q \<in> set pre. i = g + q \<and> st_control t ! i = kSwissDeleted)
            else i = g + o')"
  using assms
proof (induction offs arbitrary: fd)
  case (Cons a offs)
  then have a: "a < 8" by simp
  let ?f = "\<lambda>fd offs. insert_in_group t key kh (load_control_group64 (st_control t) g)
        (equal_byte_mask (st_control t) g fp) g fd offs"
  show ?case
  proof (cases "passed t key kh fp (g + a)")
    case True
    define fd1 where "fd1 = (if st_control t ! (g + a) = kSwissDeleted \<and> fd = None then Some (g + a) else fd)"
    have step: "?f fd (a # offs) = ?f fd1 offs"
      using a True by (auto simp: control_byte_at_load equal_byte_mask_bit passed_def matches_def fd1_def Let_def)
    have fd1: "fd1 = fd \<or> fd1 = Some (g + a) \<and> st_control t ! (g + a) = kSwissDeleted" by (simp add: fd1_def)
    have IH: "case ?f fd1 offs of
      Inl fd' \<Rightarrow> (\<forall>o' \<in> set offs. passed t key kh fp (g + o'))
        \<and> (fd' = fd1 \<or> (\<exists>o' \<in> set offs. fd' = Some (g + o') \<and> st_control t ! (g + o') = kSwissDeleted))
    | Inr i \<Rightarrow> \<exists>pre o' post. offs = pre @ o' # post \<and> (\<forall>q \<in> set pre. passed t key kh fp (g + q))
        \<and> \<not> passed t key kh fp (g + o')
        \<and> (if st_control t ! (g + o') = kSwissEmpty
            then i = g + o' \<or> fd1 = Some i
                 \<or> (\<exists>q \<in> set pre. i = g + q \<and> st_control t ! i = kSwissDeleted)
            else i = g + o')"
      using Cons.IH [of fd1] Cons.prems by simp
    show ?thesis
    proof (cases "?f fd1 offs")
      case (Inl fd')
      then show ?thesis using IH True fd1 unfolding step Inl by auto
    next
      case (Inr i)
      with IH obtain pre o' post where w: "offs = pre @ o' # post" "\<forall>q \<in> set pre. passed t key kh fp (g + q)"
        "\<not> passed t key kh fp (g + o')"
        "if st_control t ! (g + o') = kSwissEmpty
            then i = g + o' \<or> fd1 = Some i \<or> (\<exists>q \<in> set pre. i = g + q \<and> st_control t ! i = kSwissDeleted)
            else i = g + o'"
        by auto
      show ?thesis
        unfolding step Inr sum.case
        by (rule exI [of _ "a # pre"], rule exI [of _ o'], rule exI [of _ post])
          (use w True fd1 in \<open>auto split: if_splits\<close>)
    qed
  next
    case False
    then have step: "?f fd (a # offs) =
        Inr (if st_control t ! (g + a) = kSwissEmpty then (case fd of Some d \<Rightarrow> d | None \<Rightarrow> g + a) else g + a)"
      using a by (auto simp: control_byte_at_load equal_byte_mask_bit passed_def matches_def Let_def)
    show ?thesis
      unfolding step sum.case
      by (rule exI [of _ "[]"], rule exI [of _ a], rule exI [of _ offs]) (auto simp: False split: option.split)
  qed
qed simp

text \<open>The first tombstone seen so far is a deleted cell of the walk.\<close>

definition tombstone_seen :: "swiss_table \<Rightarrow> nat \<Rightarrow> nat \<Rightarrow> nat option \<Rightarrow> bool" where
  "tombstone_seen t start d fd \<longleftrightarrow>
     (\<forall>i. fd = Some i \<longrightarrow> (\<exists>e < d. i = cell t start e \<and> st_control t ! i = kSwissDeleted))"

lemma insert_probe_walk:
  assumes "8 dvd start" "group_capacity (st_capacity t)" "8 dvd probe" "probe \<le> st_capacity t"
    and "tombstone_seen t start probe fd"
    and "fst (insert_probe t key kh fp probe (cell t start probe) fd) = r"
  shows "\<exists>d. probe \<le> d \<and> d \<le> st_capacity t \<and> clear_run t key kh fp start probe d
       \<and> (case r of
            None \<Rightarrow> d = st_capacity t
          | Some i \<Rightarrow> d < st_capacity t \<and> \<not> passed t key kh fp (cell t start d)
              \<and> (if st_control t ! cell t start d = kSwissEmpty
                  then i = cell t start d \<or> (\<exists>e < d. i = cell t start e \<and> st_control t ! i = kSwissDeleted)
                  else i = cell t start d))"
  using assms
proof (induction "st_capacity t - probe" arbitrary: probe fd rule: less_induct)
  case less
  note cap = group_capacity_pos [OF less.prems(2)]
  have pos: "0 < st_capacity t" using cap(1) by simp
  let ?g = "cell t start probe"
  show ?case
  proof (cases "probe < st_capacity t")
    case False
    then have "probe = st_capacity t" "r = None"
      using less.prems(4,6) by (simp_all add: insert_probe.simps)
    then show ?thesis by (intro exI [of _ probe]) simp
  next
    case True
    have cell: "?g + o' = cell t start (probe + o')" if "o' < 8" for o'
      using cell_group [OF less.prems(1) cap(2) less.prems(3) pos that] .
    note grp = insert_in_group_cases [where offs = "[0..<8]" and t = t and key = key and kh = kh and g = ?g
        and fp = fp and fd = fd]
    show ?thesis
    proof (cases "insert_in_group t key kh (load_control_group64 (st_control t) ?g)
        (equal_byte_mask (st_control t) ?g fp) ?g fd [0..<8]")
      case (Inl fd')
      have pr: "probe + 8 \<le> st_capacity t"
        using True less.prems(3) cap(2) by (auto elim!: dvdE)
      have dec: "st_capacity t - (probe + 8) < st_capacity t - probe" and dv: "8 dvd probe + 8"
        using True less.prems(3) by (linarith, simp)
      have run: "clear_run t key kh fp start probe (probe + 8)"
        by (rule clear_run_group) (use grp Inl cell in simp)
      have seen: "tombstone_seen t start (probe + 8) fd'"
        unfolding tombstone_seen_def
      proof (intro allI impI)
        fix i assume i: "fd' = Some i"
        have "fd' = fd \<or> (\<exists>o' < 8. fd' = Some (?g + o') \<and> st_control t ! (?g + o') = kSwissDeleted)"
          using grp Inl by auto
        then show "\<exists>e < probe + 8. i = cell t start e \<and> st_control t ! i = kSwissDeleted"
        proof (elim disjE exE conjE)
          assume "fd' = fd"
          then obtain e where "e < probe" "i = cell t start e" "st_control t ! i = kSwissDeleted"
            using less.prems(5) i unfolding tombstone_seen_def by blast
          then show ?thesis by (intro exI [of _ e]) simp
        next
          fix o' assume "o' < 8" "fd' = Some (?g + o')" "st_control t ! (?g + o') = kSwissDeleted"
          then show ?thesis using i cell by (intro exI [of _ "probe + o'"]) simp
        qed
      qed
      have rec: "fst (insert_probe t key kh fp (probe + 8) (cell t start (probe + 8)) fd') = r"
        using less.prems(6) True Inl next_group_cell [OF pos cap(1), of start probe]
        by (simp add: insert_probe.simps [of t key kh fp probe] kSwissGroupSize_def)
      from less.hyps [of "probe + 8" fd', OF dec less.prems(1,2) dv pr seen rec]
      obtain d where "probe + 8 \<le> d" "d \<le> st_capacity t" "clear_run t key kh fp start (probe + 8) d"
          "case r of
            None \<Rightarrow> d = st_capacity t
          | Some i \<Rightarrow> d < st_capacity t \<and> \<not> passed t key kh fp (cell t start d)
              \<and> (if st_control t ! cell t start d = kSwissEmpty
                  then i = cell t start d \<or> (\<exists>e < d. i = cell t start e \<and> st_control t ! i = kSwissDeleted)
                  else i = cell t start d)"
        by blast
      then show ?thesis using clear_run_join [OF run] by (intro exI [of _ d]) simp
    next
      case (Inr i)
      from grp Inr obtain pre o' post where sp: "[0..<8] = pre @ o' # post"
        "\<forall>q \<in> set pre. passed t key kh fp (?g + q)" "\<not> passed t key kh fp (?g + o')"
        "if st_control t ! (?g + o') = kSwissEmpty
          then i = ?g + o' \<or> fd = Some i \<or> (\<exists>q \<in> set pre. i = ?g + q \<and> st_control t ! i = kSwissDeleted)
          else i = ?g + o'"
        by auto
      note up = upt_split [OF sp(1)]
      have rx: "r = Some i" using less.prems(6) True Inr by (simp add: insert_probe.simps kSwissGroupSize_def)
      have lt: "probe + o' < st_capacity t"
        using True less.prems(3) cap(2) up(1) by (auto elim!: dvdE)
      have run: "clear_run t key kh fp start probe (probe + o')"
        by (rule clear_run_group) (use sp(2) up cell in \<open>simp add: up(2)\<close>)
      have dead: "\<exists>e < probe + o'. i = cell t start e \<and> st_control t ! i = kSwissDeleted"
        if "fd = Some i \<or> (\<exists>q \<in> set pre. i = ?g + q \<and> st_control t ! i = kSwissDeleted)"
      proof (use that in \<open>elim disjE bexE conjE\<close>)
        assume "fd = Some i"
        then obtain e where "e < probe" "i = cell t start e" "st_control t ! i = kSwissDeleted"
          using less.prems(5) unfolding tombstone_seen_def by blast
        then show ?thesis by (intro exI [of _ e]) simp
      next
        fix q assume "q \<in> set pre" "i = ?g + q" "st_control t ! i = kSwissDeleted"
        then show ?thesis using up cell [of q] by (intro exI [of _ "probe + q"]) simp
      qed
      show ?thesis
        unfolding rx using sp(3,4) lt run dead unfolding cell [OF up(1)]
        by (intro exI [of _ "probe + o'"]) (auto split: if_splits)
    qed
  qed
qed

end
