(* ===== verification/Swiss_Inv.thy ===== *)
theory Swiss_Inv
  imports Swiss_Probe
begin

text \<open>
  The invariant of the Swiss table of \<open>src/src/index/swiss_table.cpp\<close> and the map it stands for.
  Every live cell is reachable from the home group of its key without crossing an empty cell,
  the counters count what they name, at least one cell in eight is empty, and the key arena is
  divided into live and dead bytes.
\<close>

section \<open>Cells\<close>

definition full :: "swiss_table \<Rightarrow> nat \<Rightarrow> bool" where
  "full t i \<longleftrightarrow> i < st_capacity t \<and> occupied (st_control t ! i)"

definition live :: "swiss_table \<Rightarrow> nat set" where
  "live t = {i. full t i}"

definition dead :: "swiss_table \<Rightarrow> nat set" where
  "dead t = {i. i < st_capacity t \<and> st_control t ! i = kSwissDeleted}"

definition skey :: "swiss_table \<Rightarrow> nat \<Rightarrow> bytes" where
  "skey t i = slot_key (st_heap_keys t) (st_slots t ! i)"

definition mixed :: "swiss_table \<Rightarrow> bytes \<Rightarrow> u64" where
  "mixed t key = mix_hash t (hash_key_routing key (st_routing t))"

definition home :: "swiss_table \<Rightarrow> bytes \<Rightarrow> nat" where
  "home t key = probe_start t (mixed t key)"

definition fpr :: "swiss_table \<Rightarrow> bytes \<Rightarrow> byte" where
  "fpr t key = h2 (mixed t key)"

definition reach :: "swiss_table \<Rightarrow> bytes \<Rightarrow> nat \<Rightarrow> bool" where
  "reach t key i \<longleftrightarrow> (\<exists>d < st_capacity t. i = cell t (home t key) d
     \<and> (\<forall>e < d. st_control t ! cell t (home t key) e \<noteq> kSwissEmpty))"

definition heap_part :: "slot \<Rightarrow> nat" where
  "heap_part s = (if on_heap s then key_size s else 0)"

definition slot_ok :: "swiss_table \<Rightarrow> nat \<Rightarrow> bool" where
  "slot_ok t i \<longleftrightarrow>
     (let s = st_slots t ! i in
      length (skey t i) = key_size s \<and> key_is_inline s = (key_size s \<le> kSwissInlineKeyBytes)
      \<and> sl_key_hash_tag s = ucast (hash_key_routing (skey t i) (st_routing t))
      \<and> st_control t ! i = fpr t (skey t i)
      \<and> (on_heap s \<longrightarrow> unat (heap_key_offset (sl_key s)) + key_size s \<le> ka_bump (st_heap_keys t)))"

definition table_inv :: "swiss_table \<Rightarrow> bool" where
  "table_inv t \<longleftrightarrow>
     group_capacity (st_capacity t) \<and> length (st_control t) = st_capacity t
     \<and> length (st_slots t) = st_capacity t \<and> arena_inv (st_heap_keys t)
     \<and> st_size t = card (live t) \<and> st_deleted_count t = card (dead t)
     \<and> effective_occupancy t \<le> maximum_occupancy t
     \<and> (\<forall>i \<in> live t. slot_ok t i \<and> reach t (skey t i) i) \<and> inj_on (skey t) (live t)
     \<and> st_heap_live_bytes t = (\<Sum>i \<in> live t. heap_part (st_slots t ! i))
     \<and> st_heap_live_bytes t + st_heap_dead_bytes t = ka_bump (st_heap_keys t)"

lemma table_invD:
  assumes "table_inv t"
  shows "group_capacity (st_capacity t)" "length (st_control t) = st_capacity t"
    "length (st_slots t) = st_capacity t" "arena_inv (st_heap_keys t)"
    "st_size t = card (live t)" "st_deleted_count t = card (dead t)"
    "effective_occupancy t \<le> maximum_occupancy t"
    "i \<in> live t \<Longrightarrow> slot_ok t i" "i \<in> live t \<Longrightarrow> reach t (skey t i) i" "inj_on (skey t) (live t)"
    "st_heap_live_bytes t = (\<Sum>i \<in> live t. heap_part (st_slots t ! i))"
    "st_heap_live_bytes t + st_heap_dead_bytes t = ka_bump (st_heap_keys t)"
    "8 \<le> st_capacity t" "8 dvd st_capacity t"
  using assms group_capacity_pos [of "st_capacity t"] unfolding table_inv_def by auto

text \<open>What the table stands for: the map of its entries.\<close>

definition tab :: "swiss_table \<Rightarrow> bytes \<Rightarrow> record_ref option" where
  "tab t = map_of (swiss_entries t)"

lemma live_finite [simp]: "finite (live t)" "finite (dead t)"
  by (rule finite_subset [of _ "{..<st_capacity t}"]; auto simp: live_def full_def dead_def)+

lemma set_swiss_entries:
  "set (swiss_entries t) = (\<lambda>i. (skey t i, sl_ref (st_slots t ! i))) ` live t"
  by (auto simp: swiss_entries_def live_def full_def skey_def)

lemma distinct_swiss_entries:
  assumes "inj_on (skey t) (live t)"
  shows "distinct (map fst (swiss_entries t))"
proof -
  have "set (filter (\<lambda>i. occupied (st_control t ! i)) [0..<st_capacity t]) = live t"
    by (auto simp: live_def full_def)
  moreover have "map fst (swiss_entries t) = map (skey t) (filter (\<lambda>i. occupied (st_control t ! i)) [0..<st_capacity t])"
    by (simp add: swiss_entries_def skey_def comp_def)
  ultimately show ?thesis using assms by (simp add: distinct_map)
qed

lemma tab_eq_Some:
  assumes "inj_on (skey t) (live t)"
  shows "tab t k = Some r \<longleftrightarrow> (\<exists>i \<in> live t. skey t i = k \<and> sl_ref (st_slots t ! i) = r)"
  using map_of_eq_Some_iff [OF distinct_swiss_entries [OF assms]]
  by (auto simp: tab_def set_swiss_entries)

lemma tab_eq_None:
  assumes "inj_on (skey t) (live t)"
  shows "tab t k = None \<longleftrightarrow> (\<forall>i \<in> live t. skey t i \<noteq> k)"
  using tab_eq_Some [OF assms] by (metis not_None_eq)

lemma length_swiss_entries: "length (swiss_entries t) = card (live t)"
proof -
  let ?xs = "filter (\<lambda>i. occupied (st_control t ! i)) [0..<st_capacity t]"
  have "set ?xs = live t" by (auto simp: live_def full_def)
  then have "length ?xs = card (live t)" using distinct_card [of ?xs] by simp
  then show ?thesis by (simp add: swiss_entries_def)
qed

section \<open>Hash arithmetic\<close>

lemma h2_live: "h2 h \<noteq> kSwissEmpty" "h2 h \<noteq> kSwissDeleted"
proof -
  have b: "\<not> bit (h2 h) 7"
    by (auto simp: h2_def Let_def bit_simps)
  show "h2 h \<noteq> kSwissEmpty" using b by (auto simp: kSwissEmpty_def)
  show "h2 h \<noteq> kSwissDeleted" using b by (auto simp: kSwissDeleted_def)
qed

lemma fpr_occupied [simp]: "occupied (fpr t k)"
  by (simp add: occupied_def fpr_def h2_live)

lemma fpr_marks [simp]: "fpr t k \<noteq> kSwissEmpty" "fpr t k \<noteq> kSwissDeleted"
  by (simp_all add: fpr_def h2_live)

lemma occupied_marks [simp]: "\<not> occupied kSwissEmpty" "\<not> occupied kSwissDeleted" "kSwissEmpty \<noteq> kSwissDeleted"
  by (simp_all add: occupied_def kSwissEmpty_def kSwissDeleted_def)

lemma home_group:
  assumes "group_capacity (st_capacity t)"
  shows "8 dvd home t k" "home t k < st_capacity t"
proof -
  let ?c = "st_capacity t div 8 - 1"
  have c: "8 \<le> st_capacity t" "8 dvd st_capacity t" using group_capacity_pos [OF assms] by auto
  have "?c < 18446744073709551616"
    using assms div_le_dividend [of "st_capacity t" 8] by (auto simp: group_capacity_def kSizeMax_def)
  then have u: "unat (of_nat ?c :: u64) = ?c" by (intro unat_of_nat_64) simp
  define g where "g = unat (drop_bit 7 (mixed t k) AND of_nat ?c :: u64)"
  have "g \<le> unat (of_nat ?c :: u64)"
    unfolding g_def by (simp add: word_and_le1 word_le_nat_alt [symmetric])
  then have "g < st_capacity t div 8" using u c(1) by linarith
  moreover have "home t k = g * 8" by (simp add: home_def probe_start_def kSwissGroupSize_def g_def)
  ultimately show "home t k < st_capacity t" using c(2) by (auto elim!: dvdE)
  show "8 dvd home t k" by (simp add: home_def probe_start_def kSwissGroupSize_def)
qed

lemma cell_home [simp]: "group_capacity (st_capacity t) \<Longrightarrow> cell t (home t k) 0 = home t k"
  by (simp add: cell_def home_group)

lemma cell_onto:
  assumes "start < st_capacity t" "j < st_capacity t"
  shows "\<exists>d < st_capacity t. cell t start d = j"
proof (cases "start \<le> j")
  case True
  then show ?thesis using assms by (intro exI [of _ "j - start"]) (simp add: cell_def)
next
  case False
  then show ?thesis using assms by (intro exI [of _ "j + st_capacity t - start"]) (simp add: cell_def)
qed

lemma key_equals_iff:
  "key_equals h s key kh \<longleftrightarrow> key_size s = length key \<and> sl_key_hash_tag s = ucast kh \<and> slot_key h s = key"
  by (auto simp: key_equals_def slot_key_def Let_def)

lemma matches_iff:
  assumes "table_inv t" "i < st_capacity t"
  shows "matches t k (hash_key_routing k (st_routing t)) (fpr t k) i \<longleftrightarrow> full t i \<and> skey t i = k"
proof
  assume m: "matches t k (hash_key_routing k (st_routing t)) (fpr t k) i"
  then show "full t i \<and> skey t i = k" using assms(2)
    by (auto simp: matches_def full_def key_equals_iff skey_def)
next
  assume f: "full t i \<and> skey t i = k"
  then have "slot_ok t i" using table_invD(8) [OF assms(1)] by (simp add: live_def)
  then show "matches t k (hash_key_routing k (st_routing t)) (fpr t k) i"
    using f by (auto simp: slot_ok_def matches_def key_equals_iff skey_def Let_def)
qed

end
