(* ===== verification/Swiss_Map.thy ===== *)
theory Swiss_Map
  imports Swiss_Inv
begin

text \<open>
  The operations of the Swiss table of \<open>src/src/index/swiss_table.cpp\<close> against the map the table
  stands for: lookup and the insertion probe, the three changes of a cell (a new reference in a
  live cell, a key put into a free cell, a live cell cleared), and the statistics, which no
  operation reads.
\<close>

section \<open>Lookup\<close>

lemma absent_from_walk:
  assumes inv: "table_inv t"
    and run: "clear_run t k (hash_key_routing k (st_routing t)) (fpr t k) (home t k) 0 d"
    and d: "d = st_capacity t \<or> st_control t ! cell t (home t k) d = kSwissEmpty"
    and j: "j \<in> live t"
  shows "skey t j \<noteq> k"
proof
  assume k: "skey t j = k"
  obtain e where e: "e < st_capacity t" "j = cell t (home t k) e"
    "\<forall>e' < e. st_control t ! cell t (home t k) e' \<noteq> kSwissEmpty"
    using table_invD(9) [OF inv j] k unfolding reach_def by auto
  have "full t j" using j by (simp add: live_def)
  show False
  proof (cases "e < d")
    case True
    then have "passed t k (hash_key_routing k (st_routing t)) (fpr t k) j"
      using run e(2) by (simp add: clear_run_def)
    then show False
      using matches_iff [OF inv, of j k] \<open>full t j\<close> k by (simp add: passed_def full_def)
  next
    case False
    then have c: "st_control t ! cell t (home t k) d = kSwissEmpty" using d e(1) by auto
    then have "e \<le> d" using e(3) by (metis not_le)
    then have "d = e" using False by simp
    then show False using c e(2) \<open>full t j\<close> by (simp add: full_def)
  qed
qed

definition hashed_for :: "swiss_table \<Rightarrow> hashed_key \<Rightarrow> bool" where
  "hashed_for t key \<longleftrightarrow> hk_hash key = hash_key_routing (hk_key key) (st_routing t)"

lemma find_slot_index_eq:
  assumes "table_inv t" "kh = hash_key_routing k (st_routing t)"
  obtains g where "find_slot_index t k kh = (observe_probe t g, None)" "\<forall>i \<in> live t. skey t i \<noteq> k"
  | g i where "find_slot_index t k kh = (observe_probe t g, Some i)" "i \<in> live t" "skey t i = k"
proof -
  note I = table_invD [OF assms(1)]
  obtain r g where p: "find_probe t k kh (fpr t k) 0 (cell t (home t k) 0) = (r, g)" by fastforce
  have f: "find_slot_index t k kh = (observe_probe t g, r)"
    using I(13) p cell_home [OF I(1), of k]
    by (auto simp: find_slot_index_def Let_def assms(2) mixed_def [symmetric] fpr_def [symmetric]
        home_def [symmetric])
  from find_probe_walk [OF home_group(1) [OF I(1)] I(1), of 0 k kh "fpr t k" k r] p
  obtain d where d: "clear_run t k kh (fpr t k) (home t k) 0 d" "d \<le> st_capacity t"
    "case r of Some i \<Rightarrow> d < st_capacity t \<and> i = cell t (home t k) d \<and> matches t k kh (fpr t k) i
                        \<and> st_control t ! i \<noteq> kSwissEmpty
       | None \<Rightarrow> d = st_capacity t \<or> st_control t ! cell t (home t k) d = kSwissEmpty"
    by auto
  show ?thesis
  proof (cases r)
    case None
    then show ?thesis using that(1) f absent_from_walk [OF assms(1)] d assms(2) by auto
  next
    case (Some i)
    then have "i < st_capacity t" "matches t k kh (fpr t k) i" using d(3) cell_less [of t] by auto
    then show ?thesis using that(2) f Some matches_iff [OF assms(1)] assms(2) by (auto simp: live_def)
  qed
qed

section \<open>Statistics\<close>

text \<open>
  The fields the notions of the invariant depend on.  \<open>frame\<close> fixes how keys hash, \<open>core\<close> the
  whole content; the statistics counters are in neither.
\<close>

definition frame :: "swiss_table \<Rightarrow> worker_routing_state \<times> u64 \<times> nat" where
  "frame t = (st_routing t, st_seed t, st_capacity t)"

definition core where
  "core t = (frame t, st_control t, st_slots t, st_heap_keys t, st_size t, st_deleted_count t,
             st_heap_live_bytes t, st_heap_dead_bytes t)"

lemma frame_eqs:
  assumes "frame t' = frame t"
  shows "mixed t' = mixed t" "home t' = home t" "fpr t' = fpr t" "cell t' = cell t"
    "maximum_occupancy t' = maximum_occupancy t"
  using assms
  by (auto simp: frame_def mixed_def home_def fpr_def cell_def mix_hash_def probe_start_def
      maximum_occupancy_def fun_eq_iff)

lemma core_eqs:
  assumes "core t' = core t"
  shows "live t' = live t" "dead t' = dead t" "skey t' = skey t" "reach t' = reach t"
    "slot_ok t' = slot_ok t" "table_inv t' = table_inv t" "tab t' = tab t"
proof -
  have f: "frame t' = frame t" and c: "st_control t' = st_control t" "st_slots t' = st_slots t"
    "st_heap_keys t' = st_heap_keys t" "st_size t' = st_size t" "st_deleted_count t' = st_deleted_count t"
    "st_heap_live_bytes t' = st_heap_live_bytes t" "st_heap_dead_bytes t' = st_heap_dead_bytes t"
    "st_capacity t' = st_capacity t" "st_routing t' = st_routing t"
    using assms by (simp_all add: core_def frame_def)
  note fr = frame_eqs [OF f]
  show l: "live t' = live t" and d: "dead t' = dead t" and s: "skey t' = skey t"
    and r: "reach t' = reach t" and "tab t' = tab t"
    by (auto simp: live_def full_def dead_def skey_def reach_def c fr fun_eq_iff tab_def swiss_entries_def)
  show o': "slot_ok t' = slot_ok t" by (simp add: slot_ok_def c fr s fun_eq_iff)
  show "table_inv t' = table_inv t"
    by (simp add: table_inv_def c fr l d s r o' effective_occupancy_def)
qed

lemma core_observe_probe [simp]: "core (observe_probe t g) = core t"
  by (simp add: observe_probe_def core_def frame_def)

lemmas observe_probe_core [simp] = core_eqs [OF core_observe_probe]

lemma observe_probe_fields [simp]:
  "st_routing (observe_probe t g) = st_routing t" "st_seed (observe_probe t g) = st_seed t"
  "st_size (observe_probe t g) = st_size t" "st_deleted_count (observe_probe t g) = st_deleted_count t"
  "st_capacity (observe_probe t g) = st_capacity t" "st_control (observe_probe t g) = st_control t"
  "st_slots (observe_probe t g) = st_slots t" "st_heap_keys (observe_probe t g) = st_heap_keys t"
  "st_heap_live_bytes (observe_probe t g) = st_heap_live_bytes t"
  "st_heap_dead_bytes (observe_probe t g) = st_heap_dead_bytes t"
  "st_rehash_count (observe_probe t g) = st_rehash_count t"
  by (simp_all add: observe_probe_def)

lemma swiss_find_tab:
  assumes "table_inv t" "hashed_for t key"
  shows "snd (swiss_find t key) = tab t (hk_key key)"
    "\<exists>g. fst (swiss_find t key) = observe_probe t g"
proof -
  note inj = table_invD(10) [OF assms(1)]
  have "snd (swiss_find t key) = tab t (hk_key key) \<and> (\<exists>g. fst (swiss_find t key) = observe_probe t g)"
    using assms(2)
    by (cases rule: find_slot_index_eq [OF assms(1), of "hk_hash key" "hk_key key"])
      (auto simp: hashed_for_def swiss_find_def tab_eq_None [OF inj] tab_eq_Some [OF inj]
        intro!: tab_eq_Some [OF inj, THEN iffD2, symmetric] tab_eq_None [OF inj, THEN iffD2, symmetric])
  then show "snd (swiss_find t key) = tab t (hk_key key)"
    "\<exists>g. fst (swiss_find t key) = observe_probe t g" by simp_all
qed

section \<open>The insertion probe\<close>

lemma some_empty:
  assumes "table_inv t"
  shows "\<exists>j < st_capacity t. st_control t ! j = kSwissEmpty"
proof (rule ccontr)
  note I = table_invD [OF assms]
  assume "\<not> ?thesis"
  then have "{..<st_capacity t} \<subseteq> live t \<union> dead t" by (auto simp: live_def full_def dead_def occupied_def)
  then have "st_capacity t \<le> card (live t \<union> dead t)"
    using card_mono [of "live t \<union> dead t" "{..<st_capacity t}"] by simp
  also have "\<dots> \<le> card (live t) + card (dead t)" by (rule card_Un_le)
  also have "\<dots> \<le> st_capacity t - st_capacity t div 8"
    using I(5-7) by (simp add: effective_occupancy_def maximum_occupancy_def)
  finally show False using I(13) by simp
qed

lemma insert_probe_eq:
  assumes "table_inv t" "kh = hash_key_routing k (st_routing t)"
  obtains (hit) i g where "insert_probe t k kh (fpr t k) 0 (home t k) None = (Some i, g)" "i \<in> live t" "skey t i = k"
  | (free) i g where "insert_probe t k kh (fpr t k) 0 (home t k) None = (Some i, g)"
      "i < st_capacity t" "\<not> occupied (st_control t ! i)" "reach t k i" "\<forall>j \<in> live t. skey t j \<noteq> k"
proof -
  note I = table_invD [OF assms(1)]
  have pos: "0 < st_capacity t" using I(13) by simp
  obtain r g where p: "insert_probe t k kh (fpr t k) 0 (home t k) None = (r, g)" by fastforce
  have ts: "tombstone_seen t (home t k) 0 None" by (simp add: tombstone_seen_def)
  have f: "fst (insert_probe t k kh (fpr t k) 0 (cell t (home t k) 0) None) = r" using p cell_home [OF I(1)] by simp
  from insert_probe_walk [OF home_group(1) [OF I(1)] I(1) _ _ ts f]
  obtain d where d: "d \<le> st_capacity t" "clear_run t k kh (fpr t k) (home t k) 0 d"
    "case r of
       None \<Rightarrow> d = st_capacity t
     | Some i \<Rightarrow> d < st_capacity t \<and> \<not> passed t k kh (fpr t k) (cell t (home t k) d)
         \<and> (if st_control t ! cell t (home t k) d = kSwissEmpty
             then i = cell t (home t k) d
                  \<or> (\<exists>e < d. i = cell t (home t k) e \<and> st_control t ! i = kSwissDeleted)
             else i = cell t (home t k) d)"
    by auto
  show ?thesis
  proof (cases r)
    case None
    obtain j where "j < st_capacity t" "st_control t ! j = kSwissEmpty" using some_empty [OF assms(1)] by blast
    moreover obtain e where "e < st_capacity t" "cell t (home t k) e = j"
      using cell_onto [OF home_group(2) [OF I(1)] \<open>j < st_capacity t\<close>] by blast
    ultimately show ?thesis using d None by (auto simp: clear_run_def passed_def)
  next
    case (Some i)
    let ?c = "cell t (home t k) d"
    show ?thesis
    proof (cases "st_control t ! ?c = kSwissEmpty")
      case False
      then have "i = ?c" "matches t k kh (fpr t k) ?c" using d(3) Some by (auto simp: passed_def)
      then show ?thesis
        using matches_iff [OF assms(1) cell_less [OF pos]] p Some assms(2) hit by (auto simp: live_def)
    next
      case True
      have absent: "\<forall>j \<in> live t. skey t j \<noteq> k"
        using absent_from_walk [OF assms(1)] d(2) True assms(2) by auto
      have "i = ?c \<or> (\<exists>e < d. i = cell t (home t k) e \<and> st_control t ! i = kSwissDeleted)"
        using d(3) Some True by simp
      then obtain e where e: "e \<le> d" "i = cell t (home t k) e" "\<not> occupied (st_control t ! i)"
        using True by (metis le_refl less_imp_le occupied_marks(1,2))
      have "reach t k i"
        unfolding reach_def using e d by (intro exI [of _ e]) (auto simp: clear_run_def passed_def Some)
      then show ?thesis using free p Some e cell_less [OF pos] absent by auto
    qed
  qed
qed

section \<open>Changes of one cell\<close>

lemma reach_mono:
  assumes "reach t k j" "frame t' = frame t"
    and "\<And>c. c < st_capacity t \<Longrightarrow> st_control t' ! c = kSwissEmpty \<Longrightarrow> st_control t ! c = kSwissEmpty"
  shows "reach t' k j"
proof -
  have cap: "st_capacity t' = st_capacity t" using assms(2) by (simp add: frame_def)
  obtain d where d: "d < st_capacity t" "j = cell t (home t k) d"
    "\<forall>e < d. st_control t ! cell t (home t k) e \<noteq> kSwissEmpty"
    using assms(1) unfolding reach_def by blast
  moreover have "cell t s e < st_capacity t" for s e using d(1) by (intro cell_less) simp
  ultimately show ?thesis
    unfolding reach_def frame_eqs [OF assms(2)] cap using assms(3) by blast
qed

text \<open>A slot that holds key \<open>k\<close> in an arena.\<close>

definition holds_key :: "key_arena \<Rightarrow> worker_routing_state \<Rightarrow> slot \<Rightarrow> bytes \<Rightarrow> bool" where
  "holds_key h r s k \<longleftrightarrow>
     slot_key h s = k \<and> key_size s = length k \<and> key_is_inline s = (length k \<le> kSwissInlineKeyBytes)
     \<and> sl_key_hash_tag s = ucast (hash_key_routing k r)
     \<and> (on_heap s \<longrightarrow> unat (heap_key_offset (sl_key s)) + key_size s \<le> ka_bump h)"

lemma slot_ok_holds_key:
  "slot_ok t i \<longleftrightarrow> holds_key (st_heap_keys t) (st_routing t) (st_slots t ! i) (skey t i)
     \<and> st_control t ! i = fpr t (skey t i)"
  by (auto simp: slot_ok_def holds_key_def skey_def Let_def)

lemma put_cell:
  assumes inv: "table_inv t" and i: "i < st_capacity t" "\<not> occupied (st_control t ! i)" "reach t k i"
    and absent: "\<forall>j \<in> live t. skey t j \<noteq> k"
    and fr: "frame t' = frame t" and ctrl: "st_control t' = (st_control t)[i := fpr t k]"
    and slots: "st_slots t' = (st_slots t)[i := s]"
    and s: "holds_key (st_heap_keys t') (st_routing t) s k"
    and arena: "arena_inv (st_heap_keys t')"
      "\<And>j. j \<in> live t \<Longrightarrow> holds_key (st_heap_keys t') (st_routing t) (st_slots t ! j) (skey t j)"
    and room: "effective_occupancy t < maximum_occupancy t"
    and counts: "st_size t' = st_size t + 1"
      "st_deleted_count t' = (if st_control t ! i = kSwissDeleted then st_deleted_count t - 1 else st_deleted_count t)"
      "st_heap_live_bytes t' = st_heap_live_bytes t + heap_part s"
      "st_heap_live_bytes t' + st_heap_dead_bytes t' = ka_bump (st_heap_keys t')"
  shows "table_inv t' \<and> tab t' = (tab t)(k \<mapsto> sl_ref s)"
proof -
  note I = table_invD [OF inv]
  note F = frame_eqs [OF fr]
  have cap: "st_capacity t' = st_capacity t" "st_routing t' = st_routing t" using fr by (simp_all add: frame_def)
  have il: "i < length (st_control t)" "i < length (st_slots t)" using i(1) I(2,3) by simp_all
  have ni: "i \<notin> live t" using i(2) by (simp add: live_def full_def)
  have live: "live t' = insert i (live t)"
    using i(1) il by (auto simp: live_def full_def cap ctrl nth_update split: if_splits)
  have dead: "dead t' = dead t - {i}"
    using il by (auto simp: dead_def cap ctrl nth_update split: if_splits)
  have ne: "j \<noteq> i" if "j \<in> live t" for j using that ni by auto
  have slot_old: "st_slots t' ! j = st_slots t ! j" if "j \<in> live t" for j using ne [OF that] by (simp add: slots)
  have slot_new: "st_slots t' ! i = s" using il by (simp add: slots)
  have key_old: "skey t' j = skey t j" if "j \<in> live t" for j
    using arena(2) [OF that] by (simp add: skey_def slot_old [OF that] holds_key_def)
  have key_new: "skey t' i = k" using s by (simp add: skey_def slot_new holds_key_def)
  have ctrl_i: "st_control t' ! i = fpr t k" using il by (simp add: ctrl)
  have rm: "reach t' k' j" if "reach t k' j" for k' j
    by (rule reach_mono [OF that fr]) (auto simp: ctrl nth_update split: if_splits)
  have ok: "slot_ok t' j \<and> reach t' (skey t' j) j" if "j \<in> live t'" for j
  proof (cases "j = i")
    case True
    then show ?thesis using s rm i(3) by (simp add: slot_ok_holds_key key_new slot_new cap ctrl_i F)
  next
    case False
    then have j: "j \<in> live t" using that live by simp
    then have "st_control t ! j = fpr t (skey t j)" using I(8) by (simp add: slot_ok_holds_key)
    then show ?thesis
      using arena(2) [OF j] False rm I(9) [OF j]
      by (simp add: slot_ok_holds_key key_old [OF j] slot_old [OF j] cap F ctrl)
  qed
  have inj: "inj_on (skey t') (live t')"
    using I(10) absent key_old key_new ni unfolding live inj_on_def by (metis insert_iff)
  have "i \<in> dead t \<longleftrightarrow> st_control t ! i = kSwissDeleted" using i(1) by (simp add: dead_def)
  then have dc: "st_deleted_count t' = card (dead t')" "st_deleted_count t' \<le> st_deleted_count t"
    by (simp_all add: counts(2) dead I(6))
  have hp: "st_heap_live_bytes t' = (\<Sum>j \<in> live t'. heap_part (st_slots t' ! j))"
    using ni by (simp add: live counts(3) I(11) slot_new slot_old cong: sum.cong)
  have occ: "effective_occupancy t' \<le> maximum_occupancy t'"
    using room dc(2) by (simp add: effective_occupancy_def counts(1) F)
  have "table_inv t'"
    unfolding table_inv_def using I(1-3) arena(1) dc(1) ok inj hp counts(1,4) occ ni
    by (simp add: cap ctrl slots live I(5))
  moreover have "tab t' = (tab t)(k \<mapsto> sl_ref s)"
  proof (rule map_le_antisym)
    have *: "tab t' k' = Some r \<longleftrightarrow> ((tab t)(k \<mapsto> sl_ref s)) k' = Some r" for k' r
    proof -
      have "tab t' k' = Some r \<longleftrightarrow>
          (k' = k \<and> r = sl_ref s) \<or> (\<exists>j \<in> live t. skey t j = k' \<and> sl_ref (st_slots t ! j) = r)"
        unfolding tab_eq_Some [OF inj] live using key_old slot_old by (auto simp: key_new slot_new)
      then show ?thesis using absent by (auto simp: tab_eq_Some [OF I(10)])
    qed
    show "tab t' \<subseteq>\<^sub>m (tab t)(k \<mapsto> sl_ref s)" "(tab t)(k \<mapsto> sl_ref s) \<subseteq>\<^sub>m tab t'"
      using * by (auto simp: map_le_def dom_def) metis+
  qed
  ultimately show ?thesis ..
qed

text \<open>The cells stay as they are; slots may move their key bytes and change their reference.\<close>

lemma same_cells:
  assumes inv: "table_inv t" and fr: "frame t' = frame t" and ctrl: "st_control t' = st_control t"
    and len: "length (st_slots t') = st_capacity t" and arena: "arena_inv (st_heap_keys t')"
    and slots: "\<And>j. j \<in> live t \<Longrightarrow> holds_key (st_heap_keys t') (st_routing t) (st_slots t' ! j) (skey t j)"
      "\<And>j. j \<in> live t \<Longrightarrow> heap_part (st_slots t' ! j) = heap_part (st_slots t ! j)"
    and counts: "st_size t' = st_size t" "st_deleted_count t' = st_deleted_count t"
      "st_heap_live_bytes t' = st_heap_live_bytes t"
      "st_heap_live_bytes t' + st_heap_dead_bytes t' = ka_bump (st_heap_keys t')"
  shows "table_inv t'" "tab t' k = Some r \<longleftrightarrow> (\<exists>j \<in> live t. skey t j = k \<and> sl_ref (st_slots t' ! j) = r)"
proof -
  note I = table_invD [OF inv]
  note F = frame_eqs [OF fr]
  have cap: "st_capacity t' = st_capacity t" "st_routing t' = st_routing t" using fr by (simp_all add: frame_def)
  have live: "live t' = live t" and dead: "dead t' = dead t" and reach: "reach t' = reach t"
    by (auto simp: live_def full_def dead_def reach_def cap ctrl F fun_eq_iff)
  have key: "skey t' j = skey t j" if "j \<in> live t" for j
    using slots(1) [OF that] by (simp add: skey_def holds_key_def)
  have inj: "inj_on (skey t') (live t')" using I(10) key by (simp add: live inj_on_def)
  have ok: "slot_ok t' j \<and> reach t' (skey t' j) j" if "j \<in> live t" for j
    using slots(1) [OF that] I(8,9) [OF that] by (simp add: slot_ok_holds_key key [OF that] cap ctrl F reach)
  show "table_inv t'"
    unfolding table_inv_def live dead
    using I(1,2,5-7,11) len arena ok inj counts slots(2)
    by (simp add: cap ctrl live F effective_occupancy_def cong: sum.cong)
  show "tab t' k = Some r \<longleftrightarrow> (\<exists>j \<in> live t. skey t j = k \<and> sl_ref (st_slots t' ! j) = r)"
    unfolding tab_eq_Some [OF inj] live using key by auto
qed

lemma sl_ref_key [simp]:
  "key_size (s\<lparr> sl_ref := r \<rparr>) = key_size s" "key_is_inline (s\<lparr> sl_ref := r \<rparr>) = key_is_inline s"
  "on_heap (s\<lparr> sl_ref := r \<rparr>) = on_heap s" "heap_part (s\<lparr> sl_ref := r \<rparr>) = heap_part s"
  "slot_key h (s\<lparr> sl_ref := r \<rparr>) = slot_key h s" "holds_key h w (s\<lparr> sl_ref := r \<rparr>) k = holds_key h w s k"
  by (simp_all add: key_size_def key_is_inline_def on_heap_def heap_part_def slot_key_def holds_key_def)

lemma live_holds_key:
  assumes "table_inv t" "j \<in> live t"
  shows "holds_key (st_heap_keys t) (st_routing t) (st_slots t ! j) (skey t j)"
  using table_invD(8) [OF assms] by (simp add: slot_ok_holds_key)

lemma assign_cell:
  assumes inv: "table_inv t" and i: "i \<in> live t"
    and t': "t' = t\<lparr> st_slots := (st_slots t)[i := (st_slots t ! i)\<lparr> sl_ref := ref \<rparr>] \<rparr>"
  shows "table_inv t' \<and> tab t' = (tab t)(skey t i \<mapsto> ref) \<and> frame t' = frame t"
proof -
  note I = table_invD [OF inv]
  have il: "i < length (st_slots t)" using i I(3) by (simp add: live_def full_def)
  have fr: "frame t' = frame t" by (simp add: t' frame_def)
  have sl: "st_slots t' ! j = (if j = i then (st_slots t ! i)\<lparr> sl_ref := ref \<rparr> else st_slots t ! j)" for j
    using il by (auto simp: t' nth_update)
  have h: "holds_key (st_heap_keys t') (st_routing t) (st_slots t' ! j) (skey t j)"
    "heap_part (st_slots t' ! j) = heap_part (st_slots t ! j)" if "j \<in> live t" for j
    using live_holds_key [OF inv that] il by (auto simp: t' nth_update)
  note sc = same_cells [OF inv fr _ _ _ h]
  have "table_inv t'"
    by (rule sc) (use I in \<open>simp_all add: t'\<close>)
  moreover have "tab t' k = Some r \<longleftrightarrow> ((tab t)(skey t i \<mapsto> ref)) k = Some r" for k r
  proof -
    have "tab t' k = Some r \<longleftrightarrow> (\<exists>j \<in> live t. skey t j = k \<and> sl_ref (st_slots t' ! j) = r)"
      by (rule sc) (use I in \<open>simp_all add: t'\<close>)
    then show ?thesis using i I(10) by (auto simp: sl tab_eq_Some [OF I(10)] dest: inj_onD)
  qed
  then have "tab t' = (tab t)(skey t i \<mapsto> ref)" by (metis ext option.exhaust)
  ultimately show ?thesis using fr by blast
qed

lemma clear_cell:
  assumes inv: "table_inv t" and i: "i \<in> live t"
    and t': "t' = (let t1 = clear_slot t i in t1\<lparr> st_size := st_size t1 - 1 \<rparr>)"
  shows "table_inv t' \<and> tab t' = (tab t)(skey t i := None) \<and> frame t' = frame t"
proof -
  note I = table_invD [OF inv]
  let ?s = "st_slots t ! i"
  have ib: "i < st_capacity t" "i < length (st_slots t)" "i < length (st_control t)"
    "occupied (st_control t ! i)" using i I(2,3) by (simp_all add: live_def full_def)
  have le: "heap_part ?s \<le> st_heap_live_bytes t"
    unfolding I(11) using i by (intro member_le_sum) simp_all
  have ctrl: "st_control t' = (st_control t)[i := kSwissDeleted]"
    and slots: "st_slots t' = (st_slots t)[i := blank_slot]"
    and heap: "st_heap_keys t' = st_heap_keys t" and fr: "frame t' = frame t"
    and cnt: "st_size t' = st_size t - 1" "st_deleted_count t' = st_deleted_count t + 1"
      "st_heap_live_bytes t' = st_heap_live_bytes t - heap_part ?s"
      "st_heap_dead_bytes t' = st_heap_dead_bytes t + heap_part ?s"
    using le by (auto simp: t' clear_slot_def Let_def frame_def heap_part_def)
  note F = frame_eqs [OF fr]
  have cap: "st_capacity t' = st_capacity t" "st_routing t' = st_routing t" using fr by (simp_all add: frame_def)
  have live: "live t' = live t - {i}"
    using ib by (auto simp: live_def full_def cap ctrl nth_update split: if_splits)
  have dead: "dead t' = insert i (dead t)"
    using ib by (auto simp: dead_def cap ctrl nth_update split: if_splits)
  have nd: "i \<notin> dead t" using ib by (auto simp: dead_def)
  have slot: "st_slots t' ! j = st_slots t ! j" "skey t' j = skey t j" "st_control t' ! j = st_control t ! j"
    if "j \<noteq> i" for j using that by (simp_all add: slots heap skey_def ctrl)
  have rm: "reach t' k' j" if "reach t k' j" for k' j
    by (rule reach_mono [OF that fr]) (auto simp: ctrl nth_update occupied_marks(3) [symmetric] split: if_splits)
  have ok: "slot_ok t' j \<and> reach t' (skey t' j) j" if "j \<in> live t'" for j
    using that I(8,9) [of j] rm slot [of j] by (auto simp: live slot_ok_holds_key heap cap F)
  have inj: "inj_on (skey t') (live t')" using I(10) by (auto simp: live inj_on_def slot)
  have sum: "st_heap_live_bytes t' = (\<Sum>j \<in> live t'. heap_part (st_slots t' ! j))"
  proof -
    have "(\<Sum>j \<in> live t'. heap_part (st_slots t' ! j)) = (\<Sum>j \<in> live t - {i}. heap_part (st_slots t ! j))"
      by (rule sum.cong) (auto simp: live slot)
    then show ?thesis using i by (simp add: cnt(3) I(11) sum_diff1_nat)
  qed
  have pos: "0 < card (live t)" using i by (auto simp: card_gt_0_iff)
  have "table_inv t'"
    unfolding table_inv_def
    using I(1-4,7) ok inj sum i nd I(5,6) pos le I(12)
    by (simp add: cap ctrl slots live dead heap cnt F effective_occupancy_def)
  moreover have "tab t' k = Some r \<longleftrightarrow> ((tab t)(skey t i := None)) k = Some r" for k r
    unfolding tab_eq_Some [OF inj] live using slot i I(10)
    by (auto simp: tab_eq_Some [OF I(10)] dest: inj_onD)
  then have "tab t' = (tab t)(skey t i := None)" by (metis ext option.exhaust)
  ultimately show ?thesis using fr by blast
qed

end
