(* ===== verification/Swiss_Ops.thy ===== *)
theory Swiss_Ops
  imports Swiss_Map
begin

text \<open>
  The mutations of the Swiss table of \<open>src/src/index/swiss_table.cpp\<close>: storing a key in a slot,
  inserting into a table with room, rebuilding, growing, erasing and compacting the key arena.
  Each keeps the invariant and is the corresponding update of the map; the rebuild shows that the
  nested insertions never grow the table again, so the fuel of \<open>insert_or_assign\<close> is enough.
\<close>

section \<open>Storing a key\<close>

lemma bit_kInlineKeyMask: "bit kInlineKeyMask n \<longleftrightarrow> n = 31"
  unfolding kInlineKeyMask_def by (auto simp only: bit_push_bit_iff bit_1_iff) simp_all

lemma metadata_bits:
  assumes "n < 2147483648"
  shows "unat ((of_nat n OR kInlineKeyMask :: u32) AND NOT kInlineKeyMask) = n"
    "(of_nat n OR kInlineKeyMask :: u32) AND kInlineKeyMask \<noteq> 0"
    "unat ((of_nat n :: u32) AND NOT kInlineKeyMask) = n" "(of_nat n :: u32) AND kInlineKeyMask = 0"
proof -
  have b: "\<not> bit (of_nat n :: u32) 31"
  proof
    assume "bit (of_nat n :: u32) 31"
    then have "bit (unat (of_nat n :: u32)) 31" by (simp add: bit_unsigned_iff)
    then have "odd (n div 2147483648)" using assms by (simp add: unat_of_nat_32 bit_iff_odd)
    then show False using assms by simp
  qed
  have "(of_nat n OR kInlineKeyMask :: u32) AND NOT kInlineKeyMask = of_nat n"
    "(of_nat n :: u32) AND NOT kInlineKeyMask = of_nat n"
    using b by (auto intro!: bit_word_eqI simp: bit_simps bit_kInlineKeyMask)
  then show "unat ((of_nat n OR kInlineKeyMask :: u32) AND NOT kInlineKeyMask) = n"
    "unat ((of_nat n :: u32) AND NOT kInlineKeyMask) = n"
    using assms by (simp_all add: unat_of_nat_32)
  have "bit ((of_nat n OR kInlineKeyMask :: u32) AND kInlineKeyMask) 31"
    by (simp add: bit_simps bit_kInlineKeyMask)
  then show "(of_nat n OR kInlineKeyMask :: u32) AND kInlineKeyMask \<noteq> 0" by auto
  show "(of_nat n :: u32) AND kInlineKeyMask = 0"
    using b by (auto intro!: bit_word_eqI simp: bit_simps bit_kInlineKeyMask)
qed

lemma unat_mask_31 [simp]: "unat kInlineKeyMask = 2147483648"
  by (simp add: kInlineKeyMask_def)

lemma holds_key_push:
  assumes "arena_inv h" "ka_bump h + length k \<le> 0xFFFFFFFF" "holds_key h w s k'"
  shows "holds_key (arena_push h k) w s k'"
proof (cases "on_heap s")
  case True
  note P = arena_push_props [OF assms(1,2)]
  let ?o = "unat (heap_key_offset (sl_key s))"
  have b: "?o + key_size s \<le> ka_bump h" "0 < key_size s" "ka_bump h \<le> length (ka_storage h)"
    using assms(1,3) True by (auto simp: holds_key_def on_heap_def arena_inv_def)
  have "arena_data (arena_push h k) (heap_key_offset (sl_key s)) (key_size s)
      = arena_data h (heap_key_offset (sl_key s)) (key_size s)"
    using b P(4) [of ?o "key_size s"] P(5) assms(2) by (simp add: arena_data_in)
  then show ?thesis using assms(3) True b P(2) by (auto simp: holds_key_def slot_key_def on_heap_def)
next
  case False
  then show ?thesis using assms(3) by (auto simp: holds_key_def slot_key_def on_heap_def)
qed

lemma arena_allocate_push:
  assumes "arena_inv h" "0 < length k" "ka_bump h + length k \<le> 0xFFFFFFFF"
  shows "\<exists>a. arena_allocate h (length k) = (a, Inr (of_nat (ka_bump h)))
      \<and> length (arena_data a (of_nat (ka_bump h)) (length k)) = length k
      \<and> arena_store a (of_nat (ka_bump h)) k = arena_push h k"
proof -
  let ?s = "if ka_bump h + length k > length (ka_storage h)
     then ka_storage h @ replicate (ka_bump h + length k - length (ka_storage h)) 0 else ka_storage h"
  let ?a = "\<lparr> ka_storage = ?s, ka_bump = ka_bump h + length k \<rparr>"
  have u: "unat (of_nat (ka_bump h) :: u32) = ka_bump h" by (rule unat_of_nat_32) (use assms in linarith)
  have ls: "ka_bump h + length k \<le> length ?s" by simp
  have "arena_data ?a (of_nat (ka_bump h)) (length k) = sub ?s (ka_bump h) (length k)"
    using arena_data_in [of "length k" "of_nat (ka_bump h)" ?a] u ls assms by simp
  moreover have "arena_allocate h (length k) = (?a, Inr (of_nat (ka_bump h)))"
    using assms by (intro arena_allocate_ok) simp_all
  moreover have "arena_store ?a (of_nat (ka_bump h)) k = arena_push h k"
    by (simp add: arena_store_def arena_push_def u Let_def)
  ultimately show ?thesis using ls by (intro exI [of _ ?a]) (simp only: length_sub)
qed

text \<open>What a successful \<open>set_key\<close> does to slot, arena and live bytes.\<close>

lemma set_key_ok:
  assumes h: "arena_inv (st_heap_keys t)" and k: "length k < 2147483648"
    "length k \<le> 24 \<or> ka_bump (st_heap_keys t) + length k \<le> 0xFFFFFFFF"
    and kh: "kh = hash_key_routing k (st_routing t)"
  obtains s h' where
    "set_key t i k kh = (t\<lparr> st_heap_keys := h', st_slots := (st_slots t)[i := s],
       st_heap_live_bytes := st_heap_live_bytes t + heap_part s \<rparr>, ok)"
    "holds_key h' (st_routing t) s k" "arena_inv h'" "ka_bump h' = ka_bump (st_heap_keys t) + heap_part s"
    "heap_part s = (if length k \<le> 24 then 0 else length k)"
    "\<And>s' k'. holds_key (st_heap_keys t) (st_routing t) s' k' \<Longrightarrow> holds_key h' (st_routing t) s' k'"
proof (cases "length k \<le> 24")
  case True
  let ?s = "(st_slots t ! i)\<lparr> sl_key_hash_tag := ucast kh, sl_key_size_and_mode := of_nat (length k) OR kInlineKeyMask,
    sl_key := Inline_key (blit (replicate 24 0) 0 k) \<rparr>"
  have m: "key_size ?s = length k" "key_is_inline ?s"
    using metadata_bits [OF k(1)] by (simp_all add: key_size_def key_is_inline_def)
  have "take (length k) (blit (replicate 24 0) 0 k) = k" by (simp add: blit_def)
  then have "slot_key (st_heap_keys t) ?s = k" using m by (simp add: slot_key_def)
  then have "holds_key (st_heap_keys t) (st_routing t) ?s k" using m kh True by (simp add: holds_key_def on_heap_def kSwissInlineKeyBytes_def)
  moreover have "heap_part ?s = 0" using m by (simp add: heap_part_def on_heap_def)
  moreover have "set_key t i k kh = (t\<lparr> st_slots := (st_slots t)[i := ?s] \<rparr>, ok)"
    using True k(1) by (simp add: set_key_def set_key_metadata_def Let_def kSwissInlineKeyBytes_def)
  ultimately show ?thesis using that [of ?s "st_heap_keys t"] h True by simp
next
  case False
  let ?h = "st_heap_keys t"
  let ?s = "(st_slots t ! i)\<lparr> sl_key_hash_tag := ucast kh, sl_key_size_and_mode := of_nat (length k),
    sl_key := Heap_key_offset (of_nat (ka_bump ?h)) \<rparr>"
  have b: "ka_bump ?h + length k \<le> 0xFFFFFFFF" using False k(2) by simp
  note P = arena_push_props [OF h b]
  have u: "unat (of_nat (ka_bump ?h) :: u32) = ka_bump ?h" by (rule unat_of_nat_32) (use b in linarith)
  have m: "key_size ?s = length k" "\<not> key_is_inline ?s"
    using metadata_bits [OF k(1)] by (simp_all add: key_size_def key_is_inline_def)
  have "slot_key (arena_push ?h k) ?s = k"
    using m False P(1,2,3) u b arena_data_in [of "length k" "of_nat (ka_bump ?h)" "arena_push ?h k"]
    by (auto simp: slot_key_def arena_inv_def)
  then have hk: "holds_key (arena_push ?h k) (st_routing t) ?s k" using m kh u P(2) False
    by (simp add: holds_key_def kSwissInlineKeyBytes_def)
  have hp: "heap_part ?s = length k" using m False by (auto simp: heap_part_def on_heap_def)
  obtain a where a: "arena_allocate ?h (length k) = (a, Inr (of_nat (ka_bump ?h)))"
    "length (arena_data a (of_nat (ka_bump ?h)) (length k)) = length k"
    "arena_store a (of_nat (ka_bump ?h)) k = arena_push ?h k"
    using arena_allocate_push [OF h _ b] False by fastforce
  have "set_key t i k kh = (t\<lparr> st_heap_keys := arena_push ?h k, st_slots := (st_slots t)[i := ?s],
      st_heap_live_bytes := st_heap_live_bytes t + length k \<rparr>, ok)"
    using False k(1) a by (simp add: set_key_def set_key_metadata_def Let_def kSwissInlineKeyBytes_def)
  then show ?thesis
    using that [of ?s "arena_push ?h k"] hk hp P(1,2) False holds_key_push [OF h b] by simp
qed

lemma set_key_full:
  assumes "arena_inv (st_heap_keys t)" "24 < length k" "length k < 2147483648"
    "0xFFFFFFFF < ka_bump (st_heap_keys t) + length k"
  shows "set_key t i k kh = (t\<lparr> st_slots := (st_slots t)[i := blank_slot] \<rparr>, fail Arithmetic_overflow)"
proof -
  have "arena_allocate (st_heap_keys t) (length k) = (st_heap_keys t, fail Arithmetic_overflow)"
    using assms by (intro arena_allocate_full) simp_all
  then show ?thesis using assms(2,3)
    by (simp add: set_key_def set_key_metadata_def Let_def kSwissInlineKeyBytes_def)
qed

section \<open>Counters as functions of the map\<close>

definition key_heap :: "bytes \<Rightarrow> nat" where
  "key_heap k = (if length k \<le> kSwissInlineKeyBytes then 0 else length k)"

lemma key_heap_simps [simp]: "length k \<le> 24 \<Longrightarrow> key_heap k = 0" "24 < length k \<Longrightarrow> key_heap k = length k"
  by (simp_all add: key_heap_def kSwissInlineKeyBytes_def)

lemma holds_key_heap_part: "holds_key h w s k \<Longrightarrow> heap_part s = key_heap k"
  by (auto simp: holds_key_def heap_part_def on_heap_def key_heap_def)

lemma dom_tab: "inj_on (skey t) (live t) \<Longrightarrow> dom (tab t) = skey t ` live t"
  using tab_eq_Some [of t] by (auto simp: dom_def)

lemma size_tab: "table_inv t \<Longrightarrow> st_size t = card (dom (tab t))"
  using table_invD(5,10) [of t] by (simp add: dom_tab card_image)

lemma heap_live_tab:
  assumes "table_inv t"
  shows "st_heap_live_bytes t = (\<Sum>k \<in> dom (tab t). key_heap k)"
proof -
  have "(\<Sum>i \<in> live t. heap_part (st_slots t ! i)) = (\<Sum>i \<in> live t. key_heap (skey t i))"
    by (rule sum.cong [OF refl], rule holds_key_heap_part, rule live_holds_key [OF assms])
  then show ?thesis using table_invD(10,11) [OF assms] by (simp add: dom_tab sum.reindex)
qed

lemma finite_dom_tab [simp]: "finite (dom (tab t))"
  by (simp add: tab_def finite_dom_map_of)

lemma bump_tab:
  "table_inv t \<Longrightarrow> ka_bump (st_heap_keys t) = (\<Sum>k \<in> dom (tab t). key_heap k) + st_heap_dead_bytes t"
  using table_invD(12) [of t] heap_live_tab [of t] by simp

section \<open>Inserting into a table with room\<close>

text \<open>The key needs no arena space, or the arena still has an offset for it.\<close>

definition arena_fits :: "swiss_table \<Rightarrow> bytes \<Rightarrow> bool" where
  "arena_fits t k \<longleftrightarrow> tab t k \<noteq> None \<or> length k \<le> 24 \<or> ka_bump (st_heap_keys t) + length k \<le> 0xFFFFFFFF"

lemma mix_hash_frame: "frame t' = frame t \<Longrightarrow> mix_hash t' = mix_hash t"
  by (auto simp: frame_def mix_hash_def fun_eq_iff)

lemma insert_placed:
  assumes inv: "table_inv t" and room: "effective_occupancy t < maximum_occupancy t"
    and key: "length k < 2147483648" "kh = hash_key_routing k (st_routing t)"
    and grow: "grow_if_needed ins t0 = (t, ok)" and mix: "mix_hash t0 kh = mix_hash t kh"
    and run: "insert_step ins t0 \<lparr> hk_key = k, hk_hash = kh \<rparr> ref = (t', res)"
  shows "table_inv t' \<and> frame t' = frame t \<and> st_heap_dead_bytes t' = st_heap_dead_bytes t
    \<and> st_deleted_count t' \<le> st_deleted_count t \<and> st_rehash_count t' = st_rehash_count t
    \<and> (if arena_fits t k
        then res = Inr \<lparr> mr_inserted = (tab t k = None), mr_previous = tab t k \<rparr> \<and> tab t' = (tab t)(k \<mapsto> ref)
        else res = fail Arithmetic_overflow \<and> tab t' = tab t)"
proof -
  note I = table_invD [OF inv]
  have mx: "mix_hash t kh = mixed t k" by (simp add: mixed_def key(2))
  have fp: "h2 (mix_hash t kh) = fpr t k" "probe_start t (mix_hash t kh) = home t k"
    by (simp_all add: fpr_def home_def mx)
  show ?thesis
  proof (cases rule: insert_probe_eq [OF inv key(2), case_names hit free])
    case (hit i g)
    let ?t = "observe_probe t g"
    have oi: "occupied (st_control t ! i)" using hit(2) by (simp add: live_def full_def)
    have tk: "tab t k = Some (sl_ref (st_slots t ! i))" using hit(2,3) tab_eq_Some [OF I(10)] by blast
    have r: "t' = ?t\<lparr> st_slots := (st_slots ?t)[i := (st_slots ?t ! i)\<lparr> sl_ref := ref \<rparr>] \<rparr>"
      "res = Inr \<lparr> mr_inserted = False, mr_previous = tab t k \<rparr>"
      using run hit(1) grow mix oi key(1) fp tk
      by (simp_all add: insert_step_def find_insert_index_def Let_def)
    have "table_inv t' \<and> tab t' = (tab ?t)(skey ?t i \<mapsto> ref) \<and> frame t' = frame ?t"
      by (rule assign_cell [OF _ _ r(1)]) (use inv hit(2) in simp_all)
    then show ?thesis using r hit(3) tk
      by (simp add: arena_fits_def observe_probe_fields) (simp add: frame_def)
  next
    case (free i g)
    let ?t = "observe_probe t g"
    have tk: "tab t k = None" using free(5) tab_eq_None [OF I(10)] by blast
    show ?thesis
    proof (cases "arena_fits t k")
      case True
      have ai: "arena_inv (st_heap_keys ?t)" using I(4) by simp
      have fits: "length k \<le> 24 \<or> ka_bump (st_heap_keys ?t) + length k \<le> 0xFFFFFFFF"
        using True tk by (simp add: arena_fits_def)
      have khe: "kh = hash_key_routing k (st_routing ?t)" using key(2) by simp
      obtain s h where s: "set_key ?t i k kh = (?t\<lparr> st_heap_keys := h, st_slots := (st_slots ?t)[i := s],
           st_heap_live_bytes := st_heap_live_bytes ?t + heap_part s \<rparr>, ok)"
        "holds_key h (st_routing t) s k" "arena_inv h" "ka_bump h = ka_bump (st_heap_keys t) + heap_part s"
        "\<And>s' k'. holds_key (st_heap_keys t) (st_routing t) s' k' \<Longrightarrow> holds_key h (st_routing t) s' k'"
        using set_key_ok [OF ai key(1) fits khe, of i] by (metis observe_probe_fields(1,8))
      let ?s = "s\<lparr> sl_ref := ref \<rparr>"
      have il: "i < length (st_slots t)" using free(2) I(3) by simp
      have r: "t' = ?t\<lparr> st_heap_keys := h, st_slots := (st_slots t)[i := ?s],
           st_heap_live_bytes := st_heap_live_bytes t + heap_part s,
           st_control := (st_control t)[i := fpr t k],
           st_deleted_count := (if st_control t ! i = kSwissDeleted then st_deleted_count t - 1
                                else st_deleted_count t),
           st_size := st_size t + 1 \<rparr>"
        "res = Inr \<lparr> mr_inserted = True, mr_previous = None \<rparr>"
        using run free(1,3) grow mix key(1) fp s(1) il
        by (auto simp: insert_step_def find_insert_index_def Let_def)
      have fr: "frame t' = frame t" by (simp add: r frame_def)
      have "table_inv t' \<and> tab t' = (tab t)(k \<mapsto> sl_ref ?s)"
        by (rule put_cell [OF inv free(2-5) fr, where s = ?s])
          (use s I(12) room live_holds_key [OF inv] in \<open>simp_all add: r\<close>)
      then show ?thesis using True fr tk r by simp
    next
      case False
      then have nf: "24 < length k" "0xFFFFFFFF < ka_bump (st_heap_keys ?t) + length k"
        by (auto simp: arena_fits_def)
      have ai: "arena_inv (st_heap_keys ?t)" using I(4) by simp
      have r: "t' = ?t\<lparr> st_slots := (st_slots ?t)[i := blank_slot] \<rparr>" "res = fail Arithmetic_overflow"
        using run free(1,3) grow mix key(1) fp set_key_full [OF ai nf(1) key(1) nf(2)]
        by (simp_all add: insert_step_def find_insert_index_def Let_def)
      have ni: "j \<noteq> i" if "j \<in> live t" for j using that free(3) by (auto simp: live_def full_def)
      have fr: "frame t' = frame t" by (simp add: r frame_def)
      have h: "holds_key (st_heap_keys t') (st_routing t) (st_slots t' ! j) (skey t j)"
        "heap_part (st_slots t' ! j) = heap_part (st_slots t ! j)"
        "sl_ref (st_slots t' ! j) = sl_ref (st_slots t ! j)" if "j \<in> live t" for j
        using live_holds_key [OF inv that] ni [OF that] by (simp_all add: r)
      note sc = same_cells [OF inv fr _ _ _ h(1,2)]
      have "table_inv t'" by (rule sc) (use I in \<open>simp_all add: r\<close>)
      moreover have "tab t' k' = Some x \<longleftrightarrow> tab t k' = Some x" for k' x
      proof -
        have "tab t' k' = Some x \<longleftrightarrow> (\<exists>j \<in> live t. skey t j = k' \<and> sl_ref (st_slots t' ! j) = x)"
          by (rule sc) (use I in \<open>simp_all add: r\<close>)
        then show ?thesis using h(3) by (auto simp: tab_eq_Some [OF I(10)])
      qed
      then have "tab t' = tab t" by (metis ext option.exhaust)
      ultimately show ?thesis using False fr by (simp add: r)
    qed
  qed
qed

end
