(* ===== verification/Swiss_Rehash.thy ===== *)
theory Swiss_Rehash
  imports Swiss_Ops
begin

text \<open>
  Rebuilding and growing the Swiss table of \<open>src/src/index/swiss_table.cpp\<close>.  A rebuild inserts
  the live entries into an empty table that is large enough for all of them: none of these
  insertions fails or grows the table, whatever fuel they are given, and the map is kept.
\<close>

section \<open>Capacities\<close>

lemma normalize_loop_Inr:
  "normalize_loop n c = Inr c' \<Longrightarrow> group_capacity c \<Longrightarrow> group_capacity c' \<and> n \<le> c' \<and> c \<le> c'"
proof (induction n c rule: normalize_loop.induct)
  case (1 n c)
  have pos: "0 < c" using group_capacity_pos [OF 1(3)] by simp
  show ?case
  proof (cases "c < n")
    case True
    then have le: "\<not> c > kSizeMax div 2" and rec: "normalize_loop n (2 * c) = Inr c'"
      using 1(2) pos by (auto simp: normalize_loop.simps [of n c] split: if_splits)
    obtain m where "c = 8 * 2 ^ m" using 1(3) by (auto simp: group_capacity_def)
    then have "group_capacity (2 * c)"
      using le unfolding group_capacity_def by (intro conjI exI [of _ "Suc m"]) simp_all
    then have "group_capacity c' \<and> n \<le> c' \<and> 2 * c \<le> c'" using 1(1) pos True le rec by simp
    then show ?thesis by simp
  next
    case False
    then show ?thesis using 1(2,3) by (simp add: normalize_loop.simps)
  qed
qed

lemma group_capacity_8: "group_capacity 8"
  by (auto simp: group_capacity_def kSizeMax_def intro: exI [of _ 0])

lemma normalize_capacity_Inr:
  "normalize_capacity n = Inr c \<Longrightarrow> group_capacity c \<and> n \<le> c"
  using normalize_loop_Inr [OF _ group_capacity_8] by (auto simp: normalize_capacity_def kSwissGroupSize_def)

lemma normalize_loop_power:
  assumes "8 * 2 ^ m \<le> kSizeMax" "j \<le> m"
  shows "normalize_loop (8 * 2 ^ m) (8 * 2 ^ j) = Inr (8 * 2 ^ m)"
  using assms(2)
proof (induction "m - j" arbitrary: j)
  case 0
  then show ?case by (simp add: normalize_loop.simps)
next
  case (Suc d)
  then have lt: "j < m" "Suc j \<le> m" "d = m - Suc j" by simp_all
  have "(2 :: nat) ^ Suc j \<le> 2 ^ m" by (rule power_increasing) (use lt in simp_all)
  then have "\<not> 8 * 2 ^ j > kSizeMax div 2" "(8 :: nat) * 2 ^ j < 8 * 2 ^ m"
    using assms(1) lt by auto
  then show ?case using Suc(1) [OF lt(3) lt(2)] by (simp add: normalize_loop.simps [of _ "8 * 2 ^ j"])
qed

lemma normalize_capacity_id:
  assumes "group_capacity c"
  shows "normalize_capacity c = Inr c"
proof -
  obtain m where "c = 8 * 2 ^ m" "c \<le> kSizeMax" using assms by (auto simp: group_capacity_def)
  then show ?thesis using normalize_loop_power [of m 0] by (simp add: normalize_capacity_def kSwissGroupSize_def)
qed

lemma group_capacity_double:
  assumes "group_capacity c" "c \<le> kSizeMax div 2"
  shows "group_capacity (2 * c)"
proof -
  obtain m where "c = 8 * 2 ^ m" using assms by (auto simp: group_capacity_def)
  then show ?thesis using assms(2) unfolding group_capacity_def by (intro conjI exI [of _ "Suc m"]) simp_all
qed

section \<open>The empty table\<close>

definition empty_table :: "worker_routing_state \<Rightarrow> u64 \<Rightarrow> nat \<Rightarrow> swiss_table" where
  "empty_table r sd c = (make_swiss_table r sd)
     \<lparr> st_capacity := c, st_size := 0, st_deleted_count := 0,
       st_control := replicate c kSwissEmpty, st_slots := replicate c blank_slot \<rparr>"

lemma empty_table:
  assumes "group_capacity c"
  shows "table_inv (empty_table r sd c)" "tab (empty_table r sd c) = Map.empty"
    "frame (empty_table r sd c) = (r, sd, c)" "st_deleted_count (empty_table r sd c) = 0"
    "st_heap_dead_bytes (empty_table r sd c) = 0"
proof -
  let ?t = "empty_table r sd c"
  have l: "live ?t = {}" "dead ?t = {}"
    by (auto simp: empty_table_def live_def full_def dead_def)
  show "table_inv ?t" using assms l
    by (simp add: table_inv_def effective_occupancy_def)
      (simp add: empty_table_def make_swiss_table_def arena_empty_def arena_inv_def)
  have "swiss_entries ?t = []" using length_swiss_entries [of ?t] l by simp
  then show "tab ?t = Map.empty" by (simp add: tab_def)
qed (simp_all add: empty_table_def make_swiss_table_def frame_def)

section \<open>Insertions that do not grow\<close>

lemma insert_step_grow_cong:
  "grow_if_needed ins t = grow_if_needed ins' t \<Longrightarrow> insert_step ins t = insert_step ins' t"
  by (simp add: insert_step_def find_insert_index_def fun_eq_iff)

lemma counters_bounded:
  assumes "table_inv t"
  shows "\<not> st_size t > st_capacity t" "\<not> st_deleted_count t > st_capacity t - st_size t"
  using table_invD(7) [OF assms] by (simp_all add: effective_occupancy_def maximum_occupancy_def)

lemma not_beneficial: "st_deleted_count t = 0 \<Longrightarrow> \<not> tombstone_rebuild_beneficial t"
  by (simp add: tombstone_rebuild_beneficial_def kSwissMinimumDeletedRebuild_def kSwissGroupSize_def)

lemma grow_not_needed:
  assumes "table_inv t" "\<not> tombstone_rebuild_beneficial t" "effective_occupancy t < maximum_occupancy t"
  shows "grow_if_needed ins t = (t, ok)"
  using counters_bounded [OF assms(1)] assms(2,3) by (simp add: grow_if_needed_def)

lemma key_size_bound: "key_size s < 2147483648"
proof -
  have "sl_key_size_and_mode s AND NOT kInlineKeyMask = take_bit 31 (sl_key_size_and_mode s)"
    by (rule bit_word_eqI) (auto simp: bit_simps bit_kInlineKeyMask)
  then show ?thesis unfolding key_size_def
    using take_bit_nat_less_exp [of 31 "unat (sl_key_size_and_mode s)"] by (simp add: unsigned_take_bit_eq)
qed

declare insert_fuel.simps [simp del]

section \<open>Rebuilding\<close>

text \<open>A table that is being filled from \<open>t\<close>.\<close>

definition filling :: "swiss_table \<Rightarrow> nat \<Rightarrow> swiss_table \<Rightarrow> bool" where
  "filling t c rb \<longleftrightarrow> table_inv rb \<and> frame rb = (st_routing t, st_seed t, c) \<and> st_deleted_count rb = 0
     \<and> st_heap_dead_bytes rb = 0 \<and> tab rb \<subseteq>\<^sub>m tab t"

lemma fill_one:
  assumes inv: "table_inv t" and fill: "filling t c rb" and room: "st_size t \<le> c - c div 8"
    and i: "i \<in> live t" and new: "tab rb (skey t i) = None"
  shows "\<exists>rb'. (\<forall>n. insert_fuel (Suc n) rb
           \<lparr> hk_key = skey t i, hk_hash = hash_key_routing (skey t i) (st_routing t) \<rparr> (sl_ref (st_slots t ! i))
         = (rb', Inr \<lparr> mr_inserted = True, mr_previous = None \<rparr>))
      \<and> filling t c rb' \<and> tab rb' = (tab rb)(skey t i \<mapsto> sl_ref (st_slots t ! i))"
proof -
  let ?k = "skey t i" and ?r = "sl_ref (st_slots t ! i)"
  let ?key = "\<lparr> hk_key = ?k, hk_hash = hash_key_routing ?k (st_routing t) \<rparr>"
  note I = table_invD [OF inv]
  have rb: "table_inv rb" "frame rb = (st_routing t, st_seed t, c)" "st_deleted_count rb = 0"
    "st_heap_dead_bytes rb = 0" "tab rb \<subseteq>\<^sub>m tab t" using fill by (simp_all add: filling_def)
  have cap: "st_capacity rb = c" "st_routing rb = st_routing t" using rb(2) by (simp_all add: frame_def)
  have tk: "tab t ?k = Some ?r" using i tab_eq_Some [OF I(10)] by blast
  have sub: "insert ?k (dom (tab rb)) \<subseteq> dom (tab t)"
    using tk rb(5) by (auto simp: map_le_implies_dom_le dest: map_le_implies_dom_le [THEN subsetD])
  have nin: "?k \<notin> dom (tab rb)" using new by auto
  have "Suc (card (dom (tab rb))) \<le> st_size t"
    using card_mono [OF _ sub] nin by (simp add: size_tab [OF inv])
  then have occ: "effective_occupancy rb < maximum_occupancy rb"
    using room by (simp add: effective_occupancy_def maximum_occupancy_def size_tab [OF rb(1)] rb(3) cap)
  have "key_heap ?k + (\<Sum>k \<in> dom (tab rb). key_heap k) \<le> (\<Sum>k \<in> dom (tab t). key_heap k)"
    using sum_mono2 [OF _ sub, of key_heap] nin by simp
  then have "ka_bump (st_heap_keys rb) + key_heap ?k \<le> 0xFFFFFFFF"
    using bump_tab [OF rb(1)] rb(4) bump_tab [OF inv] I(4) by (simp add: arena_inv_def)
  then have fits: "arena_fits rb ?k" by (cases "length ?k \<le> 24") (simp_all add: arena_fits_def)
  have len: "length ?k < 2147483648"
    using I(8) [OF i] key_size_bound [of "st_slots t ! i"] by (simp add: slot_ok_def Let_def)
  have grow: "grow_if_needed ins rb = (rb, ok)" for ins by (rule grow_not_needed [OF rb(1) not_beneficial [OF rb(3)] occ])
  obtain rb' res where one: "insert_step (insert_fuel 0) rb ?key ?r = (rb', res)" by fastforce
  have all: "insert_fuel (Suc n) rb ?key ?r = (rb', res)" for n
    using one insert_step_grow_cong [of "insert_fuel n" rb "insert_fuel 0"] by (simp add: grow insert_fuel.simps)
  have "table_inv rb' \<and> frame rb' = frame rb \<and> st_heap_dead_bytes rb' = st_heap_dead_bytes rb
    \<and> st_deleted_count rb' \<le> st_deleted_count rb \<and> st_rehash_count rb' = st_rehash_count rb
    \<and> (if arena_fits rb ?k
        then res = Inr \<lparr> mr_inserted = (tab rb ?k = None), mr_previous = tab rb ?k \<rparr> \<and> tab rb' = (tab rb)(?k \<mapsto> ?r)
        else res = fail Arithmetic_overflow \<and> tab rb' = tab rb)"
    by (rule insert_placed [OF rb(1) occ len _ grow refl one]) (simp add: cap)
  then have r: "table_inv rb'" "frame rb' = frame rb" "st_heap_dead_bytes rb' = 0" "st_deleted_count rb' = 0"
    "res = Inr \<lparr> mr_inserted = True, mr_previous = None \<rparr>" "tab rb' = (tab rb)(?k \<mapsto> ?r)"
    using fits new rb(3,4) by simp_all
  have "tab rb' \<subseteq>\<^sub>m tab t" using rb(5) tk by (auto simp: r(6) map_le_def)
  then show ?thesis using all r rb(2) by (intro exI [of _ rb']) (simp add: filling_def)
qed

lemma rehash_loop_ok:
  assumes "table_inv t" "filling t c rb" "st_size t \<le> c - c div 8"
    and "distinct idxs" "set idxs \<subseteq> {..<st_capacity t}" "\<forall>i \<in> live t \<inter> set idxs. tab rb (skey t i) = None"
  shows "\<exists>rb'. (\<forall>n. rehash_loop (insert_fuel (Suc n)) t idxs rb = Inr rb') \<and> filling t c rb'
     \<and> dom (tab rb') = dom (tab rb) \<union> skey t ` (live t \<inter> set idxs)"
  using assms(2,4-6)
proof (induction idxs arbitrary: rb)
  case (Cons i idxs)
  show ?case
  proof (cases "occupied (st_control t ! i)")
    case False
    then have "live t \<inter> set (i # idxs) = live t \<inter> set idxs" by (auto simp: live_def full_def)
    then show ?thesis using Cons False by simp
  next
    case True
    then have i: "i \<in> live t" using Cons.prems(3) by (simp add: live_def full_def)
    obtain rb1 where r1: "\<And>n. insert_fuel (Suc n) rb
           \<lparr> hk_key = skey t i, hk_hash = hash_key_routing (skey t i) (st_routing t) \<rparr> (sl_ref (st_slots t ! i))
         = (rb1, Inr \<lparr> mr_inserted = True, mr_previous = None \<rparr>)"
      "filling t c rb1" "tab rb1 = (tab rb)(skey t i \<mapsto> sl_ref (st_slots t ! i))"
      using fill_one [OF assms(1) Cons.prems(1) assms(3) i] Cons.prems(4) i by auto
    have "tab rb1 (skey t j) = None" if "j \<in> live t \<inter> set idxs" for j
    proof -
      have "j \<noteq> i" using that Cons.prems(2) by auto
      then have "skey t j \<noteq> skey t i" using that i table_invD(10) [OF assms(1)] by (auto dest: inj_onD)
      then show ?thesis using that Cons.prems(4) by (simp add: r1(3))
    qed
    then have "\<exists>rb'. (\<forall>n. rehash_loop (insert_fuel (Suc n)) t idxs rb1 = Inr rb') \<and> filling t c rb'
        \<and> dom (tab rb') = dom (tab rb1) \<union> skey t ` (live t \<inter> set idxs)"
      by (intro Cons.IH [OF r1(2)] ballI) (use Cons.prems(2,3) in simp_all)
    then obtain rb' where r2: "\<And>n. rehash_loop (insert_fuel (Suc n)) t idxs rb1 = Inr rb'"
      "filling t c rb'" "dom (tab rb') = dom (tab rb1) \<union> skey t ` (live t \<inter> set idxs)"
      by blast
    have "rehash_loop (insert_fuel (Suc n)) t (i # idxs) rb = Inr rb'" for n
      using True r1(1) [of n] r2(1) [of n] by (simp add: Let_def skey_def)
    then show ?thesis using r2(2,3) i r1(3) by (intro exI [of _ rb']) auto
  qed
qed auto

lemma rehash_ok:
  assumes inv: "table_inv t" and norm: "normalize_capacity n = Inr c" and room: "st_size t \<le> c - c div 8"
  shows "\<exists>t'. (\<forall>m. rehash (insert_fuel (Suc m)) t n f = (t', ok)) \<and> table_inv t' \<and> tab t' = tab t
    \<and> st_routing t' = st_routing t \<and> st_seed t' = st_seed t
    \<and> (if c = st_capacity t \<and> \<not> f then t' = t
        else st_capacity t' = c \<and> st_deleted_count t' = 0 \<and> st_heap_dead_bytes t' = 0)"
proof (cases "c = st_capacity t \<and> \<not> f")
  case True
  then show ?thesis using inv norm by (intro exI [of _ t]) (simp add: rehash_def)
next
  case False
  note I = table_invD [OF inv]
  have gc: "group_capacity c" using normalize_capacity_Inr [OF norm] by simp
  note E = empty_table [OF gc, of "st_routing t" "st_seed t"]
  let ?rb = "empty_table (st_routing t) (st_seed t) c"
  have fill: "filling t c ?rb" using E by (simp add: filling_def)
  obtain rb where rb: "\<And>m. rehash_loop (insert_fuel (Suc m)) t [0..<st_capacity t] ?rb = Inr rb" "filling t c rb"
    "dom (tab rb) = skey t ` (live t \<inter> {0..<st_capacity t})"
    using rehash_loop_ok [OF inv fill room, of "[0..<st_capacity t]"] E(2) by (auto simp: atLeast0LessThan)
  have "live t \<inter> {0..<st_capacity t} = live t" by (auto simp: live_def full_def)
  then have "dom (tab rb) = dom (tab t)" using rb(3) dom_tab [OF I(10)] by simp
  then have tabs: "tab rb = tab t" using rb(2) unfolding filling_def map_le_def by (metis domIff ext)
  have res: "\<exists>e. arena_reserve (st_heap_keys ?rb) (st_heap_live_bytes t) = Inr e"
    using I(4,12) by (simp add: arena_reserve_def arena_inv_def)
  let ?t = "t\<lparr> st_capacity := c, st_size := st_size rb, st_deleted_count := 0,
      st_heap_live_bytes := st_heap_live_bytes rb, st_heap_dead_bytes := 0,
      st_control := st_control rb, st_slots := st_slots rb, st_heap_keys := st_heap_keys rb,
      st_maximum_probe_groups := max (st_maximum_probe_groups t) (st_maximum_probe_groups rb),
      st_rehash_count := st_rehash_count t + 1,
      st_tombstone_rebuild_count := (if c = st_capacity t then st_tombstone_rebuild_count t + 1
                                     else st_tombstone_rebuild_count t) \<rparr>"
  have "rehash (insert_fuel (Suc m)) t n f = (?t, ok)" for m
    using False norm room res rb(1) [of m]
    by (auto simp: rehash_def Let_def empty_table_def [symmetric])
  moreover have "core ?t = core rb" using rb(2) by (simp add: core_def frame_def filling_def)
  ultimately show ?thesis
    unfolding if_not_P [OF False]
    using core_eqs(6,7) [of ?t rb] rb(2) tabs by (intro exI [of _ ?t]) (simp add: filling_def)
qed

section \<open>Growing\<close>

lemma grow_ok:
  assumes inv: "table_inv t"
  shows "\<exists>t' r. (\<forall>m. grow_if_needed (insert_fuel (Suc m)) t = (t', r)) \<and> table_inv t' \<and> tab t' = tab t
    \<and> st_routing t' = st_routing t \<and> st_seed t' = st_seed t \<and> st_heap_dead_bytes t' \<le> st_heap_dead_bytes t
    \<and> (r = ok \<and> effective_occupancy t' < maximum_occupancy t' \<and> \<not> tombstone_rebuild_beneficial t'
       \<or> r = fail Arithmetic_overflow \<and> t' = t \<and> kSizeMax div 2 < st_capacity t)"
proof -
  note I = table_invD [OF inv]
  let ?c = "st_capacity t"
  have occ: "st_size t + st_deleted_count t \<le> ?c - ?c div 8"
    using I(7) by (simp add: effective_occupancy_def maximum_occupancy_def)
  have same: ?thesis
    if g: "\<And>ins. grow_if_needed ins t = rehash ins t ?c True" and lt: "st_size t < ?c - ?c div 8"
  proof -
    obtain t' where t': "\<forall>m. rehash (insert_fuel (Suc m)) t ?c True = (t', ok)" "table_inv t'" "tab t' = tab t"
      "st_routing t' = st_routing t" "st_seed t' = st_seed t" "st_capacity t' = ?c" "st_deleted_count t' = 0"
      "st_heap_dead_bytes t' = 0"
      using rehash_ok [OF inv normalize_capacity_id [OF I(1)] less_imp_le [OF lt], of True] by auto
    have "effective_occupancy t' < maximum_occupancy t'"
      using lt t' by (simp add: effective_occupancy_def maximum_occupancy_def size_tab inv)
    then show ?thesis using t' g not_beneficial [of t'] by auto
  qed
  consider (rebuild) "tombstone_rebuild_beneficial t"
    | (room) "\<not> tombstone_rebuild_beneficial t" "effective_occupancy t < maximum_occupancy t"
    | (purge) "\<not> tombstone_rebuild_beneficial t" "\<not> effective_occupancy t < maximum_occupancy t"
        "st_size t < maximum_occupancy t \<and> st_deleted_count t \<noteq> 0"
    | (double) "\<not> tombstone_rebuild_beneficial t" "\<not> effective_occupancy t < maximum_occupancy t"
        "\<not> (st_size t < maximum_occupancy t \<and> st_deleted_count t \<noteq> 0)"
    by blast
  then show ?thesis
  proof cases
    case rebuild
    have "st_size t < st_deleted_count t" using rebuild by (simp add: tombstone_rebuild_beneficial_def Let_def)
    then show ?thesis using same rebuild counters_bounded [OF inv] I(13) occ by (simp add: grow_if_needed_def)
  next
    case room
    then show ?thesis using counters_bounded [OF inv] inv
      by (intro exI [of _ t] exI [of _ ok]) (simp add: grow_if_needed_def)
  next
    case purge
    then show ?thesis using same counters_bounded [OF inv] I(13) by (simp add: grow_if_needed_def maximum_occupancy_def)
  next
    case double
    show ?thesis
    proof (cases "?c > kSizeMax div 2")
      case True
      then show ?thesis using double counters_bounded [OF inv] inv I(13)
        by (intro exI [of _ t] exI [of _ "fail Arithmetic_overflow"]) (auto simp: grow_if_needed_def)
    next
      case False
      have g: "grow_if_needed ins t = rehash ins t (2 * ?c) False" for ins
        using False double counters_bounded [OF inv] I(13) by (auto simp: grow_if_needed_def)
      have gc: "group_capacity (2 * ?c)" using False group_capacity_double [OF I(1)] by simp
      obtain l where "?c = 8 * l" using I(14) by (rule dvdE)
      then have lt: "st_size t < 2 * ?c - 2 * ?c div 8" using occ I(13) by simp
      obtain t' where t': "\<forall>m. rehash (insert_fuel (Suc m)) t (2 * ?c) False = (t', ok)" "table_inv t'"
        "tab t' = tab t" "st_routing t' = st_routing t" "st_seed t' = st_seed t" "st_capacity t' = 2 * ?c"
        "st_deleted_count t' = 0" "st_heap_dead_bytes t' = 0"
        using rehash_ok [OF inv normalize_capacity_id [OF gc] less_imp_le [OF lt], of False] I(13) by auto
      have "effective_occupancy t' < maximum_occupancy t'"
        using lt t' by (simp add: effective_occupancy_def maximum_occupancy_def size_tab inv)
      then show ?thesis using t' g not_beneficial [of t'] by auto
    qed
  qed
qed

end
