(* ===== verification/Swiss_Index.thy ===== *)
theory Swiss_Index
  imports Swiss_Rehash
begin

text \<open>
  The index partition: the operations of \<open>src/src/index/swiss_table.cpp\<close> that
  \<open>src/src/index/index.cpp\<close> passes on, as updates of a map, for every reachable table.
\<close>

section \<open>Compacting the key arena\<close>

lemma holds_key_moved:
  assumes "holds_key h w s k" "on_heap s" "arena_inv h'"
    "unat off + key_size s \<le> ka_bump h'" "sub (ka_storage h') (unat off) (key_size s) = k"
  shows "holds_key h' w (s\<lparr> sl_key := Heap_key_offset off \<rparr>) k"
proof -
  let ?s = "s\<lparr> sl_key := Heap_key_offset off \<rparr>"
  have m: "key_size ?s = key_size s" "key_is_inline ?s = key_is_inline s" "on_heap ?s"
    using assms(2) by (simp_all add: key_size_def key_is_inline_def on_heap_def)
  have "arena_data h' off (key_size s) = k"
    using assms(2-5) arena_data_in [of "key_size s" off h'] by (simp add: on_heap_def arena_inv_def)
  then show ?thesis using assms m by (simp add: holds_key_def slot_key_def on_heap_def)
qed

lemma holds_key_inline:
  "holds_key h w s k \<Longrightarrow> \<not> on_heap s \<Longrightarrow> holds_key h' w s k"
  by (auto simp: holds_key_def slot_key_def on_heap_def)

text \<open>The loop has stored the key of slot \<open>j\<close> at the offset it recorded.\<close>

definition moved :: "swiss_table \<Rightarrow> key_arena \<Rightarrow> u32 list \<Rightarrow> nat \<Rightarrow> bool" where
  "moved t c offs j \<longleftrightarrow> unat (offs ! j) + key_size (st_slots t ! j) \<le> ka_bump c
     \<and> sub (ka_storage c) (unat (offs ! j)) (key_size (st_slots t ! j)) = skey t j"

lemma moved_push:
  assumes "moved t c offs j" "arena_inv c" "ka_bump c + length k \<le> 0xFFFFFFFF"
  shows "moved t (arena_push c k) offs j"
  using assms(1) arena_push_props(2,4) [OF assms(2,3)] by (simp add: moved_def)

lemma compact_loop_ok:
  assumes inv: "table_inv t"
    and "arena_inv c" "length offs = st_capacity t" "distinct idxs" "set idxs \<subseteq> {..<st_capacity t}"
      "ka_bump c + (\<Sum>i \<in> live t \<inter> set idxs. heap_part (st_slots t ! i)) \<le> 0xFFFFFFFF"
      "\<forall>j \<in> D. j \<notin> set idxs \<and> moved t c offs j"
  shows "\<exists>c' offs'. compact_loop t idxs c offs = Inr (c', offs') \<and> arena_inv c'
     \<and> ka_bump c' = ka_bump c + (\<Sum>i \<in> live t \<inter> set idxs. heap_part (st_slots t ! i))
     \<and> (\<forall>j \<in> D \<union> {i \<in> live t \<inter> set idxs. on_heap (st_slots t ! i)}. moved t c' offs' j)"
  using assms(2-)
proof (induction idxs arbitrary: c offs D)
  case Nil
  then show ?case by simp
next
  case (Cons i idxs)
  let ?s = "st_slots t ! i" and ?n = "key_size (st_slots t ! i)"
  show ?case
  proof (cases "i \<in> live t \<and> on_heap ?s")
    case False
    have "live t \<inter> set (i # idxs) = (if i \<in> live t then insert i (live t \<inter> set idxs) else live t \<inter> set idxs)"
      by auto
    then have s: "(\<Sum>j \<in> live t \<inter> set (i # idxs). heap_part (st_slots t ! j))
        = (\<Sum>j \<in> live t \<inter> set idxs. heap_part (st_slots t ! j))"
      "{j \<in> live t \<inter> set (i # idxs). on_heap (st_slots t ! j)} = {j \<in> live t \<inter> set idxs. on_heap (st_slots t ! j)}"
      using False Cons.prems(3) by (auto simp: heap_part_def)
    have "\<not> occupied (st_control t ! i) \<or> key_is_inline ?s \<or> ?n = 0"
      using False Cons.prems(4) by (auto simp: live_def full_def on_heap_def)
    then have "compact_loop t (i # idxs) c offs = compact_loop t idxs c offs" by (simp add: Let_def)
    then show ?thesis
      unfolding s using Cons.IH [OF Cons.prems(1,2), of D] Cons.prems(3-6) s(1) by auto
  next
    case True
    note I = table_invD [OF inv]
    have i: "i < st_capacity t" "occupied (st_control t ! i)" using True by (simp_all add: live_def full_def)
    have hk: "holds_key (st_heap_keys t) (st_routing t) ?s (skey t i)" using live_holds_key [OF inv] True by simp
    have n: "length (skey t i) = ?n" "0 < ?n" "\<not> key_is_inline ?s" using hk True by (simp_all add: holds_key_def on_heap_def)
    have src: "arena_data (st_heap_keys t) (heap_key_offset (sl_key ?s)) ?n = skey t i"
      using n by (simp add: skey_def slot_key_def)
    have ins: "live t \<inter> set (i # idxs) = insert i (live t \<inter> set idxs)" "i \<notin> live t \<inter> set idxs"
      using True Cons.prems(3) by auto
    have sum: "(\<Sum>j \<in> live t \<inter> set (i # idxs). heap_part (st_slots t ! j))
        = ?n + (\<Sum>j \<in> live t \<inter> set idxs. heap_part (st_slots t ! j))"
      using ins True by (simp add: heap_part_def)
    have fit: "ka_bump c + length (skey t i) \<le> 0xFFFFFFFF" using Cons.prems(5) n(1) unfolding sum by linarith
    note P = arena_push_props [OF Cons.prems(1) fit]
    let ?o = "of_nat (ka_bump c) :: u32"
    obtain a where a: "arena_allocate c ?n = (a, Inr ?o)" "length (arena_data a ?o ?n) = ?n"
      "arena_store a ?o (skey t i) = arena_push c (skey t i)"
      using arena_allocate_push [OF Cons.prems(1) _ fit] n by auto
    have u: "unat ?o = ka_bump c" by (rule unat_of_nat_32) (use fit in linarith)
    have step: "compact_loop t (i # idxs) c offs = compact_loop t idxs (arena_push c (skey t i)) (offs[i := ?o])"
      using i n src a by (simp add: Let_def)
    have "\<forall>j \<in> insert i D. j \<notin> set idxs \<and> moved t (arena_push c (skey t i)) (offs[i := ?o]) j"
    proof
      fix j assume j: "j \<in> insert i D"
      show "j \<notin> set idxs \<and> moved t (arena_push c (skey t i)) (offs[i := ?o]) j"
      proof (cases "j = i")
        case True
        then show ?thesis using Cons.prems(2,3) i(1) u n(1) P(2,3) by (simp add: moved_def)
      next
        case False
        then have "j \<notin> set idxs" "moved t c offs j" using j Cons.prems(6) by auto
        then show ?thesis using moved_push [OF _ Cons.prems(1) fit] False by (simp add: moved_def)
      qed
    qed
    moreover have "ka_bump (arena_push c (skey t i)) + (\<Sum>j \<in> live t \<inter> set idxs. heap_part (st_slots t ! j))
        \<le> 0xFFFFFFFF"
      using Cons.prems(5) P(2) n(1) unfolding sum by linarith
    ultimately have "\<exists>c' offs'. compact_loop t idxs (arena_push c (skey t i)) (offs[i := ?o]) = Inr (c', offs')
        \<and> arena_inv c' \<and> ka_bump c' = ka_bump (arena_push c (skey t i))
             + (\<Sum>j \<in> live t \<inter> set idxs. heap_part (st_slots t ! j))
        \<and> (\<forall>j \<in> insert i D \<union> {j \<in> live t \<inter> set idxs. on_heap (st_slots t ! j)}. moved t c' offs' j)"
      using Cons.prems(2-4) by (intro Cons.IH P(1)) simp_all
    then show ?thesis unfolding step sum by (auto simp: P(2) n(1))
  qed
qed

lemma compact_heap_keys_ok:
  assumes inv: "table_inv t" and run: "compact_heap_keys t = (t', r)"
  shows "r = ok" "table_inv t'" "tab t' = tab t" "frame t' = frame t" "st_heap_dead_bytes t' = 0"
proof -
  note I = table_invD [OF inv]
  have li: "live t \<inter> set [0..<st_capacity t] = live t" "live t \<inter> {0..<st_capacity t} = live t"
    by (auto simp: live_def full_def)
  have "sum_list (map (\<lambda>index. if occupied (st_control t ! index) \<and> on_heap (st_slots t ! index)
      then key_size (st_slots t ! index) else 0) [0..<st_capacity t]) = st_heap_live_bytes t"
  proof -
    have "(\<Sum>i \<in> {0..<st_capacity t}. if occupied (st_control t ! i) \<and> on_heap (st_slots t ! i)
        then key_size (st_slots t ! i) else 0) = (\<Sum>i \<in> live t. heap_part (st_slots t ! i))"
      by (rule sum.mono_neutral_cong_right) (auto simp: live_def full_def heap_part_def)
    then show ?thesis by (simp add: I(11) interv_sum_list_conv_sum_set_nat)
  qed
  moreover have "\<exists>e. arena_reserve arena_empty (st_heap_live_bytes t) = Inr e"
    using I(4,12) by (simp add: arena_reserve_def arena_inv_def)
  moreover have "\<exists>c offs. compact_loop t [0..<st_capacity t] arena_empty (replicate (st_capacity t) 0) = Inr (c, offs)
     \<and> arena_inv c \<and> ka_bump c = ka_bump arena_empty + (\<Sum>i \<in> live t \<inter> set [0..<st_capacity t]. heap_part (st_slots t ! i))
     \<and> (\<forall>j \<in> {} \<union> {i \<in> live t \<inter> set [0..<st_capacity t]. on_heap (st_slots t ! i)}. moved t c offs j)"
    by (rule compact_loop_ok [OF inv])
      (use I(4,11,12) in \<open>auto simp: li(2) arena_empty_def arena_inv_def\<close>)
  then obtain c offs where c: "compact_loop t [0..<st_capacity t] arena_empty (replicate (st_capacity t) 0) = Inr (c, offs)"
    "arena_inv c" "ka_bump c = st_heap_live_bytes t" "\<And>j. j \<in> live t \<Longrightarrow> on_heap (st_slots t ! j) \<Longrightarrow> moved t c offs j"
    unfolding li I(11) by (auto simp: arena_empty_def)
  let ?slots = "map (\<lambda>index. let s = st_slots t ! index in
      if occupied (st_control t ! index) \<and> on_heap s
      then s\<lparr> sl_key := Heap_key_offset (offs ! index) \<rparr> else s) [0..<st_capacity t]"
  have t': "t' = t\<lparr> st_slots := ?slots, st_heap_keys := c, st_heap_dead_bytes := 0,
      st_heap_live_bytes := st_heap_live_bytes t \<rparr>" "r = ok"
    using run c(1,3) I(3) calculation
    by (auto simp: compact_heap_keys_def Let_def arena_allocated_bytes_def)
  have fr: "frame t' = frame t" by (simp add: t' frame_def)
  have hc: "st_heap_keys t' = c" by (simp add: t')
  have sl: "st_slots t' ! j = (if on_heap (st_slots t ! j) then (st_slots t ! j)\<lparr> sl_key := Heap_key_offset (offs ! j) \<rparr>
      else st_slots t ! j)" if "j \<in> live t" for j
    using that by (simp add: t' live_def full_def Let_def)
  have h: "holds_key (st_heap_keys t') (st_routing t) (st_slots t' ! j) (skey t j)"
    "sl_ref (st_slots t' ! j) = sl_ref (st_slots t ! j)" if "j \<in> live t" for j
  proof -
    show "holds_key (st_heap_keys t') (st_routing t) (st_slots t' ! j) (skey t j)"
    proof (cases "on_heap (st_slots t ! j)")
      case True
      then show ?thesis
        using holds_key_moved [OF live_holds_key [OF inv that] True c(2), of "offs ! j"] c(4) [OF that True]
        by (simp add: sl [OF that] hc moved_def)
    next
      case False
      then show ?thesis using holds_key_inline [OF live_holds_key [OF inv that]] by (simp add: sl [OF that] hc)
    qed
    show "sl_ref (st_slots t' ! j) = sl_ref (st_slots t ! j)" by (simp add: sl [OF that])
  qed
  have hp: "heap_part (st_slots t' ! j) = heap_part (st_slots t ! j)" if "j \<in> live t" for j
    using h(1) [OF that] live_holds_key [OF inv that] by (simp add: holds_key_heap_part)
  note sc = same_cells [OF inv fr _ _ _ h(1) hp]
  show "r = ok" "frame t' = frame t" "st_heap_dead_bytes t' = 0" using t' fr by simp_all
  show "table_inv t'" by (rule sc) (use I(3) c in \<open>simp_all add: t'\<close>)
  have "tab t' k = Some x \<longleftrightarrow> tab t k = Some x" for k x
  proof -
    have "tab t' k = Some x \<longleftrightarrow> (\<exists>j \<in> live t. skey t j = k \<and> sl_ref (st_slots t' ! j) = x)"
      by (rule sc) (use I(3) c in \<open>simp_all add: t'\<close>)
    then show ?thesis using h(2) by (auto simp: tab_eq_Some [OF I(10)])
  qed
  then show "tab t' = tab t" by (metis ext option.exhaust)
qed

lemma maybe_compact_ok:
  assumes inv: "table_inv t" and run: "maybe_compact_heap_keys t = (t', r)"
  shows "r = ok \<and> table_inv t' \<and> tab t' = tab t \<and> frame t' = frame t"
proof (cases "st_heap_dead_bytes t \<noteq> 0 \<and> st_heap_live_bytes t = 0")
  case True
  note I = table_invD [OF inv]
  have t': "t' = t\<lparr> st_heap_keys := arena_empty, st_heap_dead_bytes := 0 \<rparr>" "r = ok"
    using True run by (auto simp: maybe_compact_heap_keys_def arena_clear_def)
  have z: "heap_part (st_slots t ! j) = 0" if "j \<in> live t" for j
    using True I(11) that by (simp add: sum_eq_0_iff)
  have h: "holds_key (st_heap_keys t') (st_routing t) (st_slots t' ! j) (skey t j)"
    "heap_part (st_slots t' ! j) = heap_part (st_slots t ! j)" if "j \<in> live t" for j
  proof -
    have "\<not> on_heap (st_slots t ! j)" using z [OF that] by (auto simp: heap_part_def on_heap_def split: if_splits)
    then show "holds_key (st_heap_keys t') (st_routing t) (st_slots t' ! j) (skey t j)"
      using holds_key_inline [OF live_holds_key [OF inv that]] by (simp add: t')
  qed (simp add: t')
  have fr: "frame t' = frame t" by (simp add: t' frame_def)
  note sc = same_cells [OF inv fr _ _ _ h]
  have "table_inv t'" by (rule sc) (use I(3) True in \<open>simp_all add: t' arena_empty_def arena_inv_def\<close>)
  moreover have "tab t' k = Some x \<longleftrightarrow> tab t k = Some x" for k x
  proof -
    have "tab t' k = Some x \<longleftrightarrow> (\<exists>j \<in> live t. skey t j = k \<and> sl_ref (st_slots t' ! j) = x)"
      by (rule sc) (use I(3) True in \<open>simp_all add: t' arena_empty_def arena_inv_def\<close>)
    then show ?thesis by (simp add: tab_eq_Some [OF I(10)] t')
  qed
  then have "tab t' = tab t" by (metis ext option.exhaust)
  ultimately show ?thesis using t'(2) fr by blast
next
  case False
  then have "maybe_compact_heap_keys t = (t, ok) \<or> maybe_compact_heap_keys t = compact_heap_keys t"
    by (cases "st_heap_dead_bytes t = 0") (simp_all add: maybe_compact_heap_keys_def)
  then show ?thesis
  proof
    assume "maybe_compact_heap_keys t = compact_heap_keys t"
    then have "compact_heap_keys t = (t', r)" using run by simp
    from compact_heap_keys_ok(1-4) [OF inv this] show ?thesis by blast
  qed (use run inv in simp)
qed

section \<open>The operations as updates of the map\<close>

lemma swiss_erase_ok:
  assumes inv: "table_inv t" and key: "hashed_for t key"
  shows "erase_no_compact t key = (t1, r1) \<Longrightarrow>
      table_inv t1 \<and> tab t1 = (tab t)(hk_key key := None) \<and> frame t1 = frame t
      \<and> r1 = \<lparr> mr_inserted = False, mr_previous = tab t (hk_key key) \<rparr>"
    and "swiss_erase t key = (t2, r2) \<Longrightarrow>
      table_inv t2 \<and> tab t2 = (tab t)(hk_key key := None) \<and> frame t2 = frame t
      \<and> r2 = \<lparr> mr_inserted = False, mr_previous = tab t (hk_key key) \<rparr>"
proof -
  let ?k = "hk_key key"
  note I = table_invD [OF inv]
  have kh: "hk_hash key = hash_key_routing ?k (st_routing t)" using key by (simp add: hashed_for_def)
  have E: "table_inv t1 \<and> tab t1 = (tab t)(?k := None) \<and> frame t1 = frame t
      \<and> r1 = \<lparr> mr_inserted = False, mr_previous = tab t ?k \<rparr>" if run: "erase_no_compact t key = (t1, r1)" for t1 r1
  proof (cases rule: find_slot_index_eq [OF inv kh, case_names miss hit])
    case (miss g)
    then have "tab t ?k = None" using tab_eq_None [OF I(10)] by blast
    moreover from this have "(tab t)(?k := None) = tab t" by (metis fun_upd_triv)
    ultimately show ?thesis using run miss(1) inv by (auto simp: erase_no_compact_def frame_def)
  next
    case (hit g i)
    let ?t = "observe_probe t g"
    have r: "t1 = (let t1 = clear_slot ?t i in t1\<lparr> st_size := st_size t1 - 1 \<rparr>)"
      "r1 = \<lparr> mr_inserted = False, mr_previous = Some (sl_ref (st_slots t ! i)) \<rparr>"
      using run hit(1) by (auto simp: erase_no_compact_def Let_def)
    have "table_inv t1 \<and> tab t1 = (tab ?t)(skey ?t i := None) \<and> frame t1 = frame ?t"
      by (rule clear_cell [OF _ _ r(1)]) (use inv hit(2) in simp_all)
    moreover have "tab t ?k = Some (sl_ref (st_slots t ! i))" using hit(2,3) tab_eq_Some [OF I(10)] by blast
    ultimately show ?thesis using r(2) hit(3) by (simp add: frame_def)
  qed
  then show "erase_no_compact t key = (t1, r1) \<Longrightarrow>
      table_inv t1 \<and> tab t1 = (tab t)(?k := None) \<and> frame t1 = frame t
      \<and> r1 = \<lparr> mr_inserted = False, mr_previous = tab t ?k \<rparr>" .
  show "table_inv t2 \<and> tab t2 = (tab t)(?k := None) \<and> frame t2 = frame t
      \<and> r2 = \<lparr> mr_inserted = False, mr_previous = tab t ?k \<rparr>" if "swiss_erase t key = (t2, r2)"
  proof -
    obtain t1 where e: "erase_no_compact t key = (t1, r2)"
      "t2 = (if mr_previous r2 \<noteq> None then fst (maybe_compact_heap_keys t1) else t1)"
      using \<open>swiss_erase t key = (t2, r2)\<close> by (auto simp: swiss_erase_def split: prod.splits)
    obtain t3 r3 where m: "maybe_compact_heap_keys t1 = (t3, r3)" by fastforce
    show ?thesis using E [OF e(1)] maybe_compact_ok [OF _ m] e(2) m by auto
  qed
qed

lemma arena_fits_shrunk:
  assumes "table_inv t" "table_inv t'" "tab t' = tab t" "st_heap_dead_bytes t' \<le> st_heap_dead_bytes t"
    "arena_fits t k"
  shows "arena_fits t' k"
  using assms bump_tab [of t] bump_tab [of t'] by (auto simp: arena_fits_def)

lemma insert_fuel_any:
  assumes "table_inv t"
  shows "insert_fuel (Suc (Suc n)) t key ref = insert_or_assign t key ref"
proof -
  have "grow_if_needed (insert_fuel (Suc n)) t = grow_if_needed (insert_fuel (Suc 0)) t"
    using grow_ok [OF assms] by metis
  then show ?thesis
    using insert_step_grow_cong [of "insert_fuel (Suc n)" t "insert_fuel (Suc 0)"]
    by (simp add: insert_or_assign_def insert_fuel.simps numeral_2_eq_2)
qed

lemma insert_or_assign_ok:
  assumes inv: "table_inv t" and key: "hashed_for t key"
    and run: "insert_or_assign t key ref = (t', res)"
  shows "table_inv t' \<and> st_routing t' = st_routing t \<and> st_seed t' = st_seed t
    \<and> (case res of
         Inr m \<Rightarrow> m = \<lparr> mr_inserted = (tab t (hk_key key) = None), mr_previous = tab t (hk_key key) \<rparr>
                   \<and> tab t' = (tab t)(hk_key key \<mapsto> ref)
       | Inl e \<Rightarrow> tab t' = tab t
           \<and> (e = Invalid_argument \<and> 2147483648 \<le> length (hk_key key)
              \<or> e = Arithmetic_overflow \<and> (\<not> arena_fits t (hk_key key) \<or> kSizeMax div 2 < st_capacity t)))"
proof (cases "length (hk_key key) < 2147483648")
  case False
  then show ?thesis
    using run inv by (auto simp: insert_or_assign_def insert_fuel.simps numeral_2_eq_2 insert_step_def)
next
  case True
  let ?k = "hk_key key" and ?h = "hk_hash key" and ?ins = "insert_fuel (Suc 0)"
  have step: "insert_step ?ins t \<lparr> hk_key = ?k, hk_hash = ?h \<rparr> ref = (t', res)"
    using run by (cases key) (simp add: insert_or_assign_def insert_fuel.simps numeral_2_eq_2)
  obtain t1 r where g: "grow_if_needed ?ins t = (t1, r)" "table_inv t1" "tab t1 = tab t"
    "st_routing t1 = st_routing t" "st_seed t1 = st_seed t" "st_heap_dead_bytes t1 \<le> st_heap_dead_bytes t"
    "r = ok \<and> effective_occupancy t1 < maximum_occupancy t1 \<and> \<not> tombstone_rebuild_beneficial t1
       \<or> r = fail Arithmetic_overflow \<and> t1 = t \<and> kSizeMax div 2 < st_capacity t"
    using grow_ok [OF inv] by metis
  show ?thesis
  proof (cases "r = ok")
    case False
    then show ?thesis using g(1,7) step True inv by (auto simp: insert_step_def find_insert_index_def)
  next
    case rok: True
    have room: "effective_occupancy t1 < maximum_occupancy t1" using g(7) rok by auto
    have kh: "?h = hash_key_routing ?k (st_routing t1)" using key g(4) by (simp add: hashed_for_def)
    have mix: "mix_hash t ?h = mix_hash t1 ?h" using g(5) by (simp add: mix_hash_def)
    from insert_placed [OF g(2) room True kh _ mix step] g(1) rok
    have "table_inv t' \<and> frame t' = frame t1
      \<and> (if arena_fits t1 ?k
          then res = Inr \<lparr> mr_inserted = (tab t1 ?k = None), mr_previous = tab t1 ?k \<rparr>
               \<and> tab t' = (tab t1)(?k \<mapsto> ref)
          else res = fail Arithmetic_overflow \<and> tab t' = tab t1)" by blast
    moreover have "arena_fits t ?k \<Longrightarrow> arena_fits t1 ?k"
      by (rule arena_fits_shrunk [OF inv g(2,3,6)])
    ultimately show ?thesis using g(3-5) by (auto simp: frame_def split: if_splits)
  qed
qed

section \<open>Reservations\<close>

lemma rehash_larger:
  assumes inv: "table_inv t" and c: "normalize_capacity n = Inr c" "st_capacity t \<le> c"
  shows "st_size t \<le> c - c div 8"
proof -
  obtain a b where "st_capacity t = 8 * a" "c = 8 * b"
    using table_invD(14) [OF inv] group_capacity_pos(2) normalize_capacity_Inr [OF c(1)] by (meson dvdE)
  then show ?thesis using table_invD(7) [OF inv] c(2) by (simp add: effective_occupancy_def maximum_occupancy_def)
qed

lemma normalize_loop_error: "normalize_loop n c = Inl e \<Longrightarrow> e = Arithmetic_overflow"
  by (induction n c rule: normalize_loop.induct)
    (subst (asm) normalize_loop.simps, auto split: if_splits)

lemma normalize_loop_total: "n \<le> Suc (kSizeMax div 2) \<Longrightarrow> \<exists>c'. normalize_loop n c = Inr c'"
  by (induction n c rule: normalize_loop.induct) (subst normalize_loop.simps, auto)

lemma reserve_overflows:
  fixes n :: nat
  defines "extra \<equiv> n div 7 + (if n mod 7 = 0 then 0 else 1)"
  shows "extra > kSizeMax - n \<Longrightarrow> 2 ^ 60 < n"
    "normalize_capacity (max (n + extra) kSwissGroupSize) = Inl e \<Longrightarrow> 2 ^ 60 < n"
proof -
  have z: "kSizeMax = 18446744073709551615" by (simp add: kSizeMax_def)
  have e: "extra \<le> n + 1" by (auto simp: extra_def intro: le_SucI)
  show "extra > kSizeMax - n \<Longrightarrow> 2 ^ 60 < n" using e unfolding z by simp
  assume "normalize_capacity (max (n + extra) kSwissGroupSize) = Inl e"
  then have "\<not> max (n + extra) kSwissGroupSize \<le> Suc (kSizeMax div 2)"
    unfolding normalize_capacity_def by (metis Inl_Inr_False normalize_loop_total)
  then show "2 ^ 60 < n" using e unfolding z kSwissGroupSize_def by simp
qed

text \<open>Room for \<open>e\<close> more entries without a rebuild.\<close>

definition has_room :: "swiss_table \<Rightarrow> nat \<Rightarrow> bool" where
  "has_room t e \<longleftrightarrow> effective_occupancy t + e \<le> maximum_occupancy t \<and> \<not> tombstone_rebuild_beneficial t"

lemma room_after_rehash:
  assumes "table_inv t'" "tab t' = tab t" "table_inv t" "st_deleted_count t' = 0"
    and m: "count + (count div 7 + (if count mod 7 = 0 then 0 else 1)) \<le> st_capacity t'"
    and "st_size t \<le> count"
  shows "has_room t' (count - st_size t)"
proof -
  obtain l where l: "st_capacity t' = 8 * l" using table_invD(14) [OF assms(1)] by (rule dvdE)
  have s: "st_size t' = st_size t" using size_tab assms(1-3) by metis
  have "count \<le> 7 * l"
  proof (rule ccontr)
    assume "\<not> count \<le> 7 * l"
    then have "7 * l + 1 \<le> count" by simp
    moreover define q r where "q = count div 7" and "r = count mod 7"
    moreover have "count = 7 * q + r" "r < 7" by (simp_all add: q_def r_def)
    ultimately have "l \<le> q" "l = q \<longrightarrow> r \<noteq> 0" "count = 7 * q + r" by linarith+
    then show False using m l \<open>7 * l + 1 \<le> count\<close> unfolding q_def [symmetric] r_def [symmetric]
      by (cases "l = q") (simp_all split: if_splits)
  qed
  then show ?thesis using assms(4,6) s l not_beneficial [OF assms(4)]
    by (simp add: has_room_def effective_occupancy_def maximum_occupancy_def)
qed

lemma reserve_ok:
  assumes inv: "table_inv t" and run: "reserve t n = (t', r)"
  shows "table_inv t' \<and> tab t' = tab t \<and> st_routing t' = st_routing t \<and> st_seed t' = st_seed t
    \<and> st_heap_dead_bytes t' \<le> st_heap_dead_bytes t
    \<and> (r = ok \<and> (st_size t < n \<longrightarrow> has_room t' (n - st_size t)) \<or> r = fail Arithmetic_overflow \<and> t' = t \<and> 2 ^ 60 < n)"
proof -
  note I = table_invD [OF inv]
  let ?min = "n + (n div 7 + (if n mod 7 = 0 then 0 else 1))"
  have nz: "st_capacity t \<noteq> 0" using I(13) by simp
  show ?thesis
  proof (cases "n div 7 + (if n mod 7 = 0 then 0 else 1) > kSizeMax - n")
    case True
    then show ?thesis using run inv counters_bounded [OF inv] reserve_overflows(1) [OF True]
      by (auto simp: reserve_def Let_def split: if_splits)
  next
    case small: False
    show ?thesis
    proof (cases "normalize_capacity (max ?min kSwissGroupSize)")
      case (Inl e)
      then have "e = Arithmetic_overflow" unfolding normalize_capacity_def by (rule normalize_loop_error)
      then show ?thesis using run inv counters_bounded [OF inv] small Inl reserve_overflows(2) [OF Inl]
        by (auto simp: reserve_def Let_def split: if_splits)
    next
      case (Inr c)
      have c: "group_capacity c" "?min \<le> c" using normalize_capacity_Inr [OF Inr] by auto
      define exh where "exh \<longleftrightarrow> effective_occupancy t > maximum_occupancy t
        \<or> n - st_size t > maximum_occupancy t - effective_occupancy t"
      have run': "(t', r) = (if c > st_capacity t then rehash (insert_fuel 1) t c False
          else if n > st_size t then if exh \<or> tombstone_rebuild_beneficial t
            then rehash (insert_fuel 1) t (st_capacity t) True else (t, ok)
          else (t, ok))"
        using run counters_bounded [OF inv] small Inr nz
        unfolding reserve_def Let_def exh_def by simp
      consider (grow) "c > st_capacity t"
        | (same) "c \<le> st_capacity t" "n > st_size t" "exh \<or> tombstone_rebuild_beneficial t"
        | (fits) "c \<le> st_capacity t" "n > st_size t" "\<not> exh" "\<not> tombstone_rebuild_beneficial t"
        | (none) "c \<le> st_capacity t" "n \<le> st_size t" by linarith
      then show ?thesis
      proof cases
        case grow
        obtain t1 where t1: "rehash (insert_fuel 1) t c False = (t1, ok)" "table_inv t1" "tab t1 = tab t"
          "st_routing t1 = st_routing t" "st_seed t1 = st_seed t" "st_capacity t1 = c" "st_deleted_count t1 = 0"
          "st_heap_dead_bytes t1 = 0"
          using rehash_ok [OF inv normalize_capacity_id [OF c(1)]
              rehash_larger [OF inv normalize_capacity_id [OF c(1)]], of False] grow by auto
        then show ?thesis
          using run' grow room_after_rehash [OF t1(2,3) inv t1(7), of n] c(2) by auto
      next
        case same
        obtain t1 where t1: "rehash (insert_fuel 1) t (st_capacity t) True = (t1, ok)" "table_inv t1" "tab t1 = tab t"
          "st_routing t1 = st_routing t" "st_seed t1 = st_seed t" "st_capacity t1 = st_capacity t"
          "st_deleted_count t1 = 0" "st_heap_dead_bytes t1 = 0"
          using rehash_ok [OF inv normalize_capacity_id [OF I(1)]
              rehash_larger [OF inv normalize_capacity_id [OF I(1)]], of True] by auto
        then show ?thesis
          using run' same room_after_rehash [OF t1(2,3) inv t1(7), of n] c(2) by auto
      next
        case fits
        then show ?thesis using run' inv by (auto simp: exh_def has_room_def)
      next
        case none
        then show ?thesis using run' inv by auto
      qed
    qed
  qed
qed

end
