(* ===== verification/Index_Prepare.thy ===== *)
theory Index_Prepare
  imports Swiss_Index
begin

text \<open>
  What \<open>prepare_insert\<close> and \<open>prepare_batch_insert\<close> of \<open>src/src/index/swiss_table.cpp\<close> promise to
  the writers that call them before an append: the insertions that follow neither fail nor
  rebuild the table.
\<close>

section \<open>Insertions into reserved room\<close>

lemma insert_with_room:
  assumes inv: "table_inv t" and room: "has_room t (Suc e)" and key: "hashed_for t key"
    and fits: "length (hk_key key) < 2147483648" "arena_fits t (hk_key key)"
    and run: "insert_or_assign t key ref = (t', res)"
  shows "res = Inr \<lparr> mr_inserted = (tab t (hk_key key) = None), mr_previous = tab t (hk_key key) \<rparr>"
    "table_inv t'" "tab t' = (tab t)(hk_key key \<mapsto> ref)" "frame t' = frame t"
    "st_rehash_count t' = st_rehash_count t" "st_heap_dead_bytes t' = st_heap_dead_bytes t"
    "has_room t' e"
proof -
  let ?k = "hk_key key" and ?h = "hk_hash key" and ?ins = "insert_fuel (Suc 0)"
  have occ: "effective_occupancy t < maximum_occupancy t" and nb: "\<not> tombstone_rebuild_beneficial t"
    using room by (auto simp: has_room_def)
  have step: "insert_step ?ins t \<lparr> hk_key = ?k, hk_hash = ?h \<rparr> ref = (t', res)"
    using run by (cases key) (simp add: insert_or_assign_def insert_fuel.simps numeral_2_eq_2)
  have kh: "?h = hash_key_routing ?k (st_routing t)" using key by (simp add: hashed_for_def)
  have P: "table_inv t'" "frame t' = frame t" "st_heap_dead_bytes t' = st_heap_dead_bytes t"
    "st_deleted_count t' \<le> st_deleted_count t" "st_rehash_count t' = st_rehash_count t"
    "res = Inr \<lparr> mr_inserted = (tab t ?k = None), mr_previous = tab t ?k \<rparr>" "tab t' = (tab t)(?k \<mapsto> ref)"
    using insert_placed [OF inv occ fits(1) kh grow_not_needed [OF inv nb occ] refl step] fits(2) by simp_all
  then show "res = Inr \<lparr> mr_inserted = (tab t ?k = None), mr_previous = tab t ?k \<rparr>"
    "table_inv t'" "tab t' = (tab t)(?k \<mapsto> ref)" "frame t' = frame t"
    "st_rehash_count t' = st_rehash_count t" "st_heap_dead_bytes t' = st_heap_dead_bytes t" by blast+
  have sz: "st_size t \<le> st_size t'" "st_size t' \<le> Suc (st_size t)"
    unfolding size_tab [OF inv] size_tab [OF P(1)] P(7)
    by (simp_all add: card_insert_if)
  have c: "st_capacity t' = st_capacity t" using P(2) by (simp add: frame_def)
  have "\<not> tombstone_rebuild_beneficial t'"
    using nb P(4) sz(1) c by (auto simp: tombstone_rebuild_beneficial_def Let_def)
  then show "has_room t' e" using room P(4) sz(2) c
    by (simp add: has_room_def effective_occupancy_def maximum_occupancy_def)
qed

lemma arena_prepare_allocate_ok:
  assumes "arena_inv a" "n \<le> kSizeMax" "arena_prepare_allocate a n = ok"
  shows "ka_bump a + n \<le> 0xFFFFFFFF"
proof -
  have u: "unat (of_nat (ka_bump a) :: u64) = ka_bump a" "unat (of_nat n :: u64) = n"
    using assms(1,2) by (intro unat_of_nat_64; simp add: arena_inv_def kSizeMax_def)+
  obtain w where w: "checked_add (of_nat (ka_bump a) :: u64) (of_nat n) = Inr w"
    "arena_reserve a (unat w) = ok"
    using assms(3) by (auto simp: arena_prepare_allocate_def bind_result_iffs)
  then have "unat w = ka_bump a + n" using u by (simp add: checked_add_Inr_iff)
  then show ?thesis using w(2) by (simp add: arena_reserve_def split: if_splits)
qed

lemma prepare_insert_ok:
  assumes inv: "table_inv t" and key: "hashed_for t key" and run: "prepare_insert t key = (t', r)"
  shows "table_inv t'" "tab t' = tab t" "st_routing t' = st_routing t"
    "r = ok \<Longrightarrow> tab t (hk_key key) = None \<Longrightarrow>
       has_room t' 1 \<and> arena_fits t' (hk_key key) \<and> length (hk_key key) < 2147483648"
proof -
  let ?k = "hk_key key"
  note I = table_invD [OF inv]
  have kh: "hk_hash key = hash_key_routing ?k (st_routing t)" using key by (simp add: hashed_for_def)
  have "table_inv t' \<and> tab t' = tab t \<and> st_routing t' = st_routing t \<and> (r = ok \<longrightarrow> tab t ?k = None \<longrightarrow>
       has_room t' 1 \<and> arena_fits t' ?k \<and> length ?k < 2147483648)"
  proof (cases "length ?k < 2147483648")
    case False
    then show ?thesis using run inv by (auto simp: prepare_insert_def)
  next
    case len: True
    show ?thesis
    proof (cases rule: find_slot_index_eq [OF inv kh, case_names miss hit])
      case (hit g i)
      then have "tab t ?k \<noteq> None" using tab_eq_None [OF I(10)] by auto
      then show ?thesis using run hit(1) len inv by (auto simp: prepare_insert_def)
    next
      case (miss g)
      let ?t = "observe_probe t g"
      have io: "table_inv ?t" using inv by simp
      obtain t1 r1 where g: "grow_if_needed (insert_fuel 1) ?t = (t1, r1)" "table_inv t1" "tab t1 = tab t"
        "st_routing t1 = st_routing t"
        "r1 = ok \<and> effective_occupancy t1 < maximum_occupancy t1 \<and> \<not> tombstone_rebuild_beneficial t1
           \<or> r1 = fail Arithmetic_overflow"
        using grow_ok [OF io] by (metis One_nat_def observe_probe_core(7) observe_probe_fields(1))
      show ?thesis
      proof (cases "st_size ?t = kSizeMax \<or> r1 \<noteq> ok")
        case True
        then show ?thesis using run miss(1) len g inv by (auto simp: prepare_insert_def split: if_splits)
      next
        case False
        then have r: "t' = t1" "r = (if length ?k > kSwissInlineKeyBytes
            then arena_prepare_allocate (st_heap_keys t1) (length ?k) else ok)"
          using run miss(1) len g(1) by (simp_all add: prepare_insert_def)
        have room: "has_room t1 1" using g(5) False by (auto simp: has_room_def)
        have "arena_fits t1 ?k" if "r = ok"
        proof (cases "length ?k \<le> 24")
          case False
          then have "arena_prepare_allocate (st_heap_keys t1) (length ?k) = ok"
            using r(2) that by (simp add: kSwissInlineKeyBytes_def)
          then show ?thesis
            using arena_prepare_allocate_ok [of "st_heap_keys t1" "length ?k"] table_invD(4) [OF g(2)] len
            by (simp add: arena_fits_def kSizeMax_def)
        qed (simp add: arena_fits_def)
        then show ?thesis using r(1) g(2-4) room len by simp
      qed
    qed
  qed
  then show "table_inv t'" "tab t' = tab t" "st_routing t' = st_routing t"
    "r = ok \<Longrightarrow> tab t ?k = None \<Longrightarrow> has_room t' 1 \<and> arena_fits t' ?k \<and> length ?k < 2147483648" by blast+
qed

section \<open>Batches\<close>

fun insert_batch :: "swiss_table \<Rightarrow> (hashed_key \<times> record_ref) list \<Rightarrow> swiss_table \<times> status" where
  "insert_batch t [] = (t, ok)"
| "insert_batch t ((key, ref) # rest) =
     (case insert_or_assign t key ref of
        (t, Inl e) \<Rightarrow> (t, Inl e)
      | (t, Inr _) \<Rightarrow> insert_batch t rest)"

definition batch_keys :: "(hashed_key \<times> record_ref) list \<Rightarrow> bytes list" where
  "batch_keys kvs = map (hk_key \<circ> fst) kvs"

definition batch_map :: "(hashed_key \<times> record_ref) list \<Rightarrow> bytes \<Rightarrow> record_ref option" where
  "batch_map kvs = map_of (rev (map (\<lambda>(key, ref). (hk_key key, ref)) kvs))"

definition batch_ready :: "swiss_table \<Rightarrow> (hashed_key \<times> record_ref) list \<Rightarrow> bool" where
  "batch_ready t kvs \<longleftrightarrow> distinct (batch_keys kvs)
     \<and> list_all (\<lambda>kv. hashed_for t (fst kv) \<and> length (hk_key (fst kv)) < 2147483648
                       \<and> tab t (hk_key (fst kv)) = None) kvs"

lemma batch_ready_Cons:
  assumes "batch_ready t ((key, ref) # rest)" "tab t' = (tab t)(hk_key key \<mapsto> ref)" "frame t' = frame t"
  shows "batch_ready t' rest"
  using assms
  by (auto simp: batch_ready_def batch_keys_def list_all_iff hashed_for_def frame_def image_iff)

lemma insert_batch_ok:
  assumes "table_inv t" "has_room t (length kvs)" "batch_ready t kvs"
    "ka_bump (st_heap_keys t) + sum_list (map key_heap (batch_keys kvs)) \<le> 0xFFFFFFFF"
  shows "\<exists>t'. insert_batch t kvs = (t', ok) \<and> table_inv t' \<and> tab t' = tab t ++ batch_map kvs
    \<and> frame t' = frame t \<and> st_rehash_count t' = st_rehash_count t"
  using assms
proof (induction kvs arbitrary: t)
  case Nil
  then show ?case by (simp add: batch_map_def)
next
  case (Cons kv rest)
  obtain key ref where kv: "kv = (key, ref)" by fastforce
  let ?k = "hk_key key"
  have key: "hashed_for t key" "length ?k < 2147483648" "tab t ?k = None"
    using Cons.prems(3) by (simp_all add: kv batch_ready_def)
  have fits: "arena_fits t ?k"
    using Cons.prems(4) by (cases "length ?k \<le> 24") (simp_all add: arena_fits_def kv batch_keys_def)
  have room: "has_room t (Suc (length rest))" using Cons.prems(2) by simp
  obtain t1 res where i: "insert_or_assign t key ref = (t1, res)" by fastforce
  note W = insert_with_room [OF Cons.prems(1) room key(1,2) fits i]
  have "(\<Sum>k \<in> dom (tab t1). key_heap k) = key_heap ?k + (\<Sum>k \<in> dom (tab t). key_heap k)"
    using key(3) by (simp add: W(3) domIff)
  then have bump: "ka_bump (st_heap_keys t1) = ka_bump (st_heap_keys t) + key_heap ?k"
    using bump_tab [OF Cons.prems(1)] bump_tab [OF W(2)] W(6) by simp
  have "batch_ready t1 rest" using batch_ready_Cons [OF Cons.prems(3) [unfolded kv] W(3,4)] .
  moreover have "ka_bump (st_heap_keys t1) + sum_list (map key_heap (batch_keys rest)) \<le> 0xFFFFFFFF"
    using Cons.prems(4) by (simp add: bump kv batch_keys_def)
  ultimately obtain t' where t': "insert_batch t1 rest = (t', ok)" "table_inv t'"
    "tab t' = tab t1 ++ batch_map rest" "frame t' = frame t1" "st_rehash_count t' = st_rehash_count t1"
    using Cons.IH [OF W(2,7)] by blast
  have "tab t' = tab t ++ batch_map (kv # rest)"
    unfolding t'(3) W(3) by (auto simp: kv batch_map_def map_add_def fun_eq_iff split: option.split)
  then show ?case using t' i W(1,4,5) by (simp add: kv)
qed

lemma prepare_batch_room:
  assumes inv: "table_inv t" and n: "heap_bytes \<le> kSizeMax"
    and run: "prepare_batch_insert t entries heap_bytes = (t', ok)"
  shows "table_inv t' \<and> tab t' = tab t \<and> st_routing t' = st_routing t
    \<and> (0 < entries \<longrightarrow> has_room t' entries) \<and> ka_bump (st_heap_keys t') + heap_bytes \<le> 0xFFFFFFFF"
proof -
  obtain t1 r1 where r: "reserve t (st_size t + entries) = (t1, r1)" by fastforce
  then have "t' = t1" "r1 = ok" "arena_prepare_allocate (st_heap_keys t1) heap_bytes = ok"
    using run by (auto simp: prepare_batch_insert_def split: if_splits sum.splits)
  then show ?thesis
    using reserve_ok [OF inv r] arena_prepare_allocate_ok [OF _ n] table_invD(4) [of t1] by auto
qed

lemma has_room_mono: "has_room t e \<Longrightarrow> e' \<le> e \<Longrightarrow> has_room t e'"
  by (simp add: has_room_def)

text \<open>
  C25.  After \<open>prepare_batch_insert\<close> has accepted a number of entries and of heap key bytes, any
  batch of new keys within these limits is inserted completely: no insertion fails, the table is
  not rebuilt and keeps its capacity, and the index then holds the old entries and the batch.
\<close>

theorem prepared_batch_cannot_fail:
  assumes "table_inv t" and "heap_bytes \<le> kSizeMax"
    and "prepare_batch_insert t entries heap_bytes = (t', ok)"
    and "batch_ready t kvs" and "length kvs \<le> entries"
    and "sum_list (map key_heap (batch_keys kvs)) \<le> heap_bytes"
  shows "\<exists>t''. insert_batch t' kvs = (t'', ok) \<and> table_inv t'' \<and> tab t'' = tab t ++ batch_map kvs
    \<and> st_capacity t'' = st_capacity t' \<and> st_rehash_count t'' = st_rehash_count t'"
proof (cases "kvs = []")
  case True
  then show ?thesis using prepare_batch_room [OF assms(1-3)] by (simp add: batch_map_def)
next
  case False
  then have e: "0 < entries" using assms(5) by (cases kvs) auto
  note R = prepare_batch_room [OF assms(1-3)]
  have room: "has_room t' (length kvs)" using R e has_room_mono assms(5) by blast
  have ready: "batch_ready t' kvs" using assms(4) R by (simp add: batch_ready_def hashed_for_def)
  have "ka_bump (st_heap_keys t') + sum_list (map key_heap (batch_keys kvs)) \<le> 0xFFFFFFFF"
    using R assms(6) by linarith
  from insert_batch_ok [OF _ room ready this] show ?thesis using R by (auto simp: frame_def)
qed

lemma make_swiss_table_empty:
  "make_swiss_table r sd = empty_table r sd 8"
  by (simp add: make_swiss_table_def empty_table_def kSwissGroupSize_def)

lemma make_swiss_table_ok:
  "table_inv (make_swiss_table r sd)" "tab (make_swiss_table r sd) = Map.empty"
  "frame (make_swiss_table r sd) = (r, sd, 8)" "st_routing (make_swiss_table r sd) = r"
  using empty_table [OF group_capacity_8, of r sd]
  by (simp_all add: make_swiss_table_empty frame_def)

text \<open>Seven one-byte keys fill the smallest table.\<close>

definition example_batch :: "(hashed_key \<times> record_ref) list" where
  "example_batch = map (\<lambda>b. (\<lparr> hk_key = [b], hk_hash = hash_key_routing [b] default_routing \<rparr>, default_ref))
     [1, 2, 3, 4, 5, 6, 7]"

definition example_index :: swiss_table where
  "example_index = make_swiss_table default_routing 0"

lemma example_batch_ready:
  "batch_ready example_index example_batch" "length example_batch = 7"
  "sum_list (map key_heap (batch_keys example_batch)) = 0"
  by (simp_all add: batch_ready_def batch_keys_def example_batch_def hashed_for_def example_index_def
      make_swiss_table_ok comp_def)

lemma prepare_example: "\<exists>t. prepare_batch_insert example_index 7 0 = (t, ok)"
proof -
  have n: "normalize_capacity 8 = Inr 8" by (rule normalize_capacity_id [OF group_capacity_8])
  show ?thesis
    by (simp add: prepare_batch_insert_def reserve_def example_index_def make_swiss_table_def
        kSwissGroupSize_def n arena_prepare_allocate_def arena_empty_def arena_reserve_def
        effective_occupancy_def maximum_occupancy_def tombstone_rebuild_beneficial_def
        kSwissMinimumDeletedRebuild_def kSizeMax_def checked_add_def bind_result_def)
qed

theorem prepared_batch_cannot_fail_witness:
  "\<exists>t' t''. prepare_batch_insert example_index 7 0 = (t', ok) \<and> insert_batch t' example_batch = (t'', ok)
     \<and> tab t'' [3] = Some default_ref"
proof -
  obtain t' where p: "prepare_batch_insert example_index 7 0 = (t', ok)" using prepare_example by blast
  have i: "table_inv example_index" "tab example_index = Map.empty"
    by (simp_all add: example_index_def make_swiss_table_ok)
  obtain t'' where "insert_batch t' example_batch = (t'', ok)" "tab t'' = tab example_index ++ batch_map example_batch"
    using prepared_batch_cannot_fail [OF i(1) _ p example_batch_ready(1)] example_batch_ready(2,3)
    by auto
  then show ?thesis using p i(2) by (auto simp: batch_map_def example_batch_def)
qed

text \<open>
  C26.  A key that the index does not hold and for which \<open>prepare_insert\<close> succeeded is inserted by
  the next \<open>insert_or_assign\<close> without failure and without rebuilding or growing the table.
\<close>

theorem prepared_insert_cannot_fail:
  assumes "table_inv t" "hashed_for t key" "prepare_insert t key = (t', ok)" "tab t (hk_key key) = None"
  shows "\<exists>t''. insert_or_assign t' key ref = (t'', Inr \<lparr> mr_inserted = True, mr_previous = None \<rparr>)
    \<and> table_inv t'' \<and> tab t'' = (tab t)(hk_key key \<mapsto> ref)
    \<and> st_capacity t'' = st_capacity t' \<and> st_rehash_count t'' = st_rehash_count t'"
proof -
  note P = prepare_insert_ok [OF assms(1-3)]
  have room: "has_room t' (Suc 0)" "arena_fits t' (hk_key key)" "length (hk_key key) < 2147483648"
    using P(4) assms(4) by simp_all
  have key: "hashed_for t' key" using assms(2) P(3) by (simp add: hashed_for_def)
  obtain t'' res where i: "insert_or_assign t' key ref = (t'', res)" by fastforce
  show ?thesis using insert_with_room [OF P(1) room(1) key room(3,2) i] i P(2) assms(4) by (auto simp: frame_def)
qed

lemma prepare_insert_roomy:
  assumes inv: "table_inv t" and key: "hashed_for t key" "length (hk_key key) \<le> 24"
    and room: "has_room t 1"
  shows "\<exists>g. prepare_insert t key = (observe_probe t g, ok)"
proof -
  have kh: "hk_hash key = hash_key_routing (hk_key key) (st_routing t)" using key(1) by (simp add: hashed_for_def)
  have k: "kSwissInlineKeyBytes = 24" "st_size t < kSizeMax"
    using counters_bounded(1) [OF inv] table_invD(1,13) [OF inv] room
    by (auto simp: kSwissInlineKeyBytes_def has_room_def effective_occupancy_def maximum_occupancy_def
        group_capacity_def kSizeMax_def)
  have g: "grow_if_needed ins (observe_probe t g) = (observe_probe t g, ok)" for ins g
    by (rule grow_not_needed) (use inv room in \<open>auto simp: has_room_def effective_occupancy_def
        maximum_occupancy_def tombstone_rebuild_beneficial_def\<close>)
  show ?thesis
    by (cases rule: find_slot_index_eq [OF inv kh]) (use k key(2) in \<open>auto simp: prepare_insert_def g\<close>)
qed

lemma example_index_room: "has_room example_index 1"
  by (simp add: has_room_def example_index_def make_swiss_table_def effective_occupancy_def
      maximum_occupancy_def kSwissGroupSize_def not_beneficial)

theorem prepared_insert_cannot_fail_witness:
  "\<exists>t' t''. prepare_insert example_index (hashed example_index [9]) = (t', ok)
     \<and> insert_or_assign t' (hashed example_index [9]) default_ref
         = (t'', Inr \<lparr> mr_inserted = True, mr_previous = None \<rparr>)
     \<and> tab t'' [9] = Some default_ref"
proof -
  have i: "table_inv example_index" "tab example_index [9] = None" "hashed_for example_index (hashed example_index [9])"
    by (simp_all add: example_index_def make_swiss_table_ok hashed_for_def hashed_def)
  obtain g where p: "prepare_insert example_index (hashed example_index [9]) = (observe_probe example_index g, ok)"
    using prepare_insert_roomy [OF i(1,3) _ example_index_room] by (auto simp: hashed_def)
  show ?thesis
    using prepared_insert_cannot_fail [OF i(1,3) p, of default_ref] p i(2) by (auto simp: hashed_def)
qed

text \<open>
  C31.  The promise does not extend to a key the index already holds: \<open>prepare_insert\<close> then returns
  at once, and in a table without tombstones that has reached its maximal occupancy the following
  \<open>insert_or_assign\<close> doubles the capacity although it only replaces a reference.
\<close>

theorem prepare_insert_misses_growth:
  assumes "table_inv t" "hashed_for t key" "length (hk_key key) < 2147483648"
    and "tab t (hk_key key) \<noteq> None" "st_deleted_count t = 0"
    and "st_size t = maximum_occupancy t" "st_capacity t \<le> kSizeMax div 2"
  shows "\<exists>g t'' m. prepare_insert t key = (observe_probe t g, ok)
    \<and> insert_or_assign (observe_probe t g) key ref = (t'', Inr m)
    \<and> st_capacity t'' = 2 * st_capacity t"
proof -
  note I = table_invD [OF assms(1)]
  have kh: "hk_hash key = hash_key_routing (hk_key key) (st_routing t)" using assms(2) by (simp add: hashed_for_def)
  show ?thesis
  proof (cases rule: find_slot_index_eq [OF assms(1) kh, case_names miss hit])
    case (miss g)
    then show ?thesis using assms(4) tab_eq_None [OF I(10)] by simp
  next
    case (hit g i)
    let ?t = "observe_probe t g"
    have p: "prepare_insert t key = (?t, ok)" using hit(1) assms(3) by (simp add: prepare_insert_def)
    have io: "table_inv ?t" using assms(1) by simp
    have gr: "grow_if_needed ins ?t = rehash ins ?t (2 * st_capacity t) False" for ins
      using counters_bounded [OF io] I(13) not_beneficial [of ?t] assms(5-7)
      by (simp add: grow_if_needed_def effective_occupancy_def maximum_occupancy_def)
    have gc: "group_capacity (2 * st_capacity t)" by (rule group_capacity_double [OF I(1) assms(7)])
    have le: "st_size ?t \<le> 2 * st_capacity t - 2 * st_capacity t div 8"
      using rehash_larger [OF io normalize_capacity_id [OF gc]] by simp
    obtain t1 where t1: "grow_if_needed (insert_fuel (Suc 0)) ?t = (t1, ok)" "table_inv t1" "tab t1 = tab t"
      "st_routing t1 = st_routing t" "st_seed t1 = st_seed t" "st_capacity t1 = 2 * st_capacity t"
      "st_deleted_count t1 = 0" "st_size t1 = st_size t"
      using rehash_ok [OF io normalize_capacity_id [OF gc] le, of False] I(13)
      by (auto simp: gr size_tab [OF assms(1)] size_tab)
    have occ: "effective_occupancy t1 < maximum_occupancy t1"
      using t1(6-8) assms(6) I(13) by (simp add: effective_occupancy_def maximum_occupancy_def)
    obtain t'' res where run: "insert_or_assign ?t key ref = (t'', res)" by fastforce
    have step: "insert_step (insert_fuel (Suc 0)) ?t \<lparr> hk_key = hk_key key, hk_hash = hk_hash key \<rparr> ref = (t'', res)"
      using run by (cases key) (simp add: insert_or_assign_def insert_fuel.simps numeral_2_eq_2)
    have "frame t'' = frame t1 \<and> (\<exists>m. res = Inr m)"
      using insert_placed [OF t1(2) occ assms(3) _ t1(1) _ step] kh t1(3-5) assms(4)
      by (auto simp: mix_hash_def arena_fits_def)
    then show ?thesis using p run t1(6) by (auto simp: frame_def)
  qed
qed

theorem prepare_insert_misses_growth_witness:
  "\<exists>t g t'' m. tab t [3] \<noteq> None \<and> st_capacity t = 8
     \<and> prepare_insert t (hashed example_index [3]) = (observe_probe t g, ok)
     \<and> insert_or_assign (observe_probe t g) (hashed example_index [3]) default_ref = (t'', Inr m)
     \<and> st_capacity t'' = 16"
proof -
  have i: "table_inv example_index" "frame example_index = (default_routing, 0, 8)" "tab example_index = Map.empty"
    by (simp_all add: example_index_def make_swiss_table_ok)
  have room: "has_room example_index (length example_batch)"
    by (simp add: has_room_def example_index_def make_swiss_table_def effective_occupancy_def
        maximum_occupancy_def kSwissGroupSize_def not_beneficial example_batch_def)
  have "ka_bump (st_heap_keys example_index) + sum_list (map key_heap (batch_keys example_batch)) \<le> 0xFFFFFFFF"
    unfolding example_batch_ready(3) by (simp add: example_index_def make_swiss_table_def arena_empty_def)
  then obtain t where t: "table_inv t" "tab t = batch_map example_batch" "frame t = (default_routing, 0, 8)"
    using insert_batch_ok [OF i(1) room example_batch_ready(1)] i(2,3) by auto
  have cap: "st_capacity t = 8" "st_routing t = default_routing" using t(3) by (simp_all add: frame_def)
  have d: "dom (tab t) = {[1], [2], [3], [4], [5], [6], [7]}"
    unfolding t(2) batch_map_def by (auto simp: example_batch_def split: if_splits)
  have sz: "st_size t = 7" unfolding size_tab [OF t(1)] d by simp
  have occ: "st_size t + st_deleted_count t \<le> 7"
    using table_invD(7) [OF t(1)] by (simp add: effective_occupancy_def maximum_occupancy_def cap)
  have "tab t [3] \<noteq> None" using d by blast
  then show ?thesis
    using prepare_insert_misses_growth [OF t(1), of "hashed example_index [3]" default_ref] sz occ cap
    by (auto simp: hashed_def hashed_for_def maximum_occupancy_def kSizeMax_def example_index_def
        make_swiss_table_ok)
qed

end
