(* ===== verification/Index_Rebuild.thy ===== *)
theory Index_Rebuild
  imports Index_Prepare "HOL-Library.AList" "HOL-Library.Multiset"
begin

text \<open>
  The index partition of a Worker: \<open>src/include/glifistore/index/index.hpp\<close>,
  \<open>src/include/glifistore/index/index_types.hpp\<close> and \<open>src/src/index/index.cpp\<close>.  An \<open>Index\<close> has
  one member, the Swiss table, and passes every operation on to it; the overloads that take a key
  hash it with the routing of the table.  \<open>rebuild_index_from_segments\<close> reads the logs of a list of
  segments and keeps the newest record of every key.  The iteration order of the hash map
  \<open>latest\<close> is a parameter, a permutation; the seed is the process seed the constructor reads.
\<close>

section \<open>Operations by key\<close>

definition index_find :: "swiss_table \<Rightarrow> bytes \<Rightarrow> swiss_table \<times> record_ref option" where
  "index_find t key = swiss_find t (hashed t key)"

definition index_insert_or_assign :: "swiss_table \<Rightarrow> bytes \<Rightarrow> record_ref \<Rightarrow> swiss_table \<times> mutation_result result" where
  "index_insert_or_assign t key ref = insert_or_assign t (hashed t key) ref"

definition index_erase :: "swiss_table \<Rightarrow> bytes \<Rightarrow> swiss_table \<times> mutation_result" where
  "index_erase t key = swiss_erase t (hashed t key)"

definition make_empty :: "swiss_table \<Rightarrow> swiss_table" where
  "make_empty t = clone_empty t"

section \<open>The contract of an index\<close>

text \<open>
  What the clients of an index rely on.  \<open>content\<close> is the map an index stands for, \<open>name\<close> the key
  that a value of the client's key type denotes and \<open>usable\<close> the values it may pass.
\<close>

locale map_index =
  fixes inv :: "'t \<Rightarrow> bool" and content :: "'t \<Rightarrow> bytes \<Rightarrow> record_ref option"
    and name :: "'k \<Rightarrow> bytes" and usable :: "'t \<Rightarrow> 'k \<Rightarrow> bool"
    and lookup :: "'t \<Rightarrow> 'k \<Rightarrow> 't \<times> record_ref option"
    and store :: "'t \<Rightarrow> 'k \<Rightarrow> record_ref \<Rightarrow> 't \<times> mutation_result result"
    and remove :: "'t \<Rightarrow> 'k \<Rightarrow> 't \<times> mutation_result"
  assumes lookup_law: "inv t \<Longrightarrow> usable t k \<Longrightarrow> lookup t k = (t', r) \<Longrightarrow>
      inv t' \<and> content t' = content t \<and> usable t' = usable t \<and> r = content t (name k)"
    and store_law: "inv t \<Longrightarrow> usable t k \<Longrightarrow> store t k ref = (t', res) \<Longrightarrow>
      inv t' \<and> usable t' = usable t
      \<and> (case res of
           Inr m \<Rightarrow> m = \<lparr> mr_inserted = (content t (name k) = None), mr_previous = content t (name k) \<rparr>
                     \<and> content t' = (content t)(name k \<mapsto> ref)
         | Inl e \<Rightarrow> content t' = content t)"
    and remove_law: "inv t \<Longrightarrow> usable t k \<Longrightarrow> remove t k = (t', m) \<Longrightarrow>
      inv t' \<and> usable t' = usable t \<and> content t' = (content t)(name k := None)
      \<and> m = \<lparr> mr_inserted = False, mr_previous = content t (name k) \<rparr>"

text \<open>A client: a sequence of operations and the answers it gets.\<close>

datatype 'k index_op = Ix_find 'k | Ix_insert 'k record_ref | Ix_erase 'k
datatype index_reply = Rp_find "record_ref option" | Rp_insert "mutation_result result" | Rp_erase mutation_result

fun op_key :: "'k index_op \<Rightarrow> 'k" where
  "op_key (Ix_find k) = k"
| "op_key (Ix_insert k ref) = k"
| "op_key (Ix_erase k) = k"

fun index_step :: "('t \<Rightarrow> 'k \<Rightarrow> 't \<times> record_ref option) \<Rightarrow> ('t \<Rightarrow> 'k \<Rightarrow> record_ref \<Rightarrow> 't \<times> mutation_result result)
    \<Rightarrow> ('t \<Rightarrow> 'k \<Rightarrow> 't \<times> mutation_result) \<Rightarrow> 't \<Rightarrow> 'k index_op \<Rightarrow> 't \<times> index_reply" where
  "index_step f i e t (Ix_find k) = (let (t, r) = f t k in (t, Rp_find r))"
| "index_step f i e t (Ix_insert k ref) = (let (t, r) = i t k ref in (t, Rp_insert r))"
| "index_step f i e t (Ix_erase k) = (let (t, r) = e t k in (t, Rp_erase r))"

fun index_run where
  "index_run f i e t [] = (t, [])"
| "index_run f i e t (x # xs) =
     (let (t, r) = index_step f i e t x; (t, rs) = index_run f i e t xs in (t, r # rs))"

text \<open>The answers a map gives; an insertion may be refused, which leaves the map as it is.\<close>

fun spec_step :: "('k \<Rightarrow> bytes) \<Rightarrow> (bytes \<Rightarrow> record_ref option) \<Rightarrow> 'k index_op \<Rightarrow> index_reply
    \<Rightarrow> (bytes \<Rightarrow> record_ref option) option" where
  "spec_step nm m (Ix_find k) (Rp_find r) = (if r = m (nm k) then Some m else None)"
| "spec_step nm m (Ix_insert k ref) (Rp_insert (Inr r)) =
     (if r = \<lparr> mr_inserted = (m (nm k) = None), mr_previous = m (nm k) \<rparr> then Some (m(nm k \<mapsto> ref)) else None)"
| "spec_step nm m (Ix_insert k ref) (Rp_insert (Inl e)) = Some m"
| "spec_step nm m (Ix_erase k) (Rp_erase r) =
     (if r = \<lparr> mr_inserted = False, mr_previous = m (nm k) \<rparr> then Some (m(nm k := None)) else None)"
| "spec_step nm m x r = None"

fun spec_run where
  "spec_run nm m [] [] = Some m"
| "spec_run nm m (x # xs) (r # rs) =
     (case spec_step nm m x r of None \<Rightarrow> None | Some m \<Rightarrow> spec_run nm m xs rs)"
| "spec_run nm m xs rs = None"

context map_index
begin

lemma step_refines:
  assumes "inv t" "usable t (op_key x)" "index_step lookup store remove t x = (t', r)"
  shows "inv t' \<and> usable t' = usable t \<and> spec_step name (content t) x r = Some (content t')"
proof (cases x)
  case (Ix_find k)
  then obtain y where y: "lookup t k = (t', y)" "r = Rp_find y" using assms(3) by (auto split: prod.splits)
  show ?thesis using lookup_law [OF assms(1) _ y(1)] assms(2) Ix_find y(2) by simp
next
  case (Ix_insert k ref)
  then obtain y where y: "store t k ref = (t', y)" "r = Rp_insert y" using assms(3) by (auto split: prod.splits)
  show ?thesis using store_law [OF assms(1) _ y(1)] assms(2) Ix_insert y(2) by (cases y) simp_all
next
  case (Ix_erase k)
  then obtain y where y: "remove t k = (t', y)" "r = Rp_erase y" using assms(3) by (auto split: prod.splits)
  show ?thesis using remove_law [OF assms(1) _ y(1)] assms(2) Ix_erase y(2) by simp
qed

theorem run_refines:
  "inv t \<Longrightarrow> \<forall>x \<in> set xs. usable t (op_key x) \<Longrightarrow> index_run lookup store remove t xs = (t', rs) \<Longrightarrow>
   inv t' \<and> spec_run name (content t) xs rs = Some (content t')"
proof (induction xs arbitrary: t rs)
  case (Cons x xs)
  obtain t1 r where s: "index_step lookup store remove t x = (t1, r)" by fastforce
  obtain t2 rs' where u: "index_run lookup store remove t1 xs = (t2, rs')" by fastforce
  have "inv t1 \<and> usable t1 = usable t \<and> spec_step name (content t) x r = Some (content t1)"
    by (rule step_refines [OF Cons.prems(1) _ s]) (use Cons.prems(2) in simp)
  then show ?case using Cons.IH [of t1 rs'] Cons.prems(2,3) s u by auto
qed simp

end

lemma hashed_for_hashed [simp]: "hashed_for t (hashed t k)" "hk_key (hashed t k) = k"
  by (simp_all add: hashed_for_def hashed_def)

interpretation hashed_index: map_index table_inv tab hk_key hashed_for swiss_find insert_or_assign swiss_erase
proof
  fix t t' key r assume "table_inv t" "hashed_for t key" "swiss_find t key = (t', r)"
  then show "table_inv t' \<and> tab t' = tab t \<and> hashed_for t' = hashed_for t \<and> r = tab t (hk_key key)"
    using swiss_find_tab [of t key] by (auto simp: hashed_for_def fun_eq_iff)
next
  fix t t' key ref res assume "table_inv t" "hashed_for t key" "insert_or_assign t key ref = (t', res)"
  then show "table_inv t' \<and> hashed_for t' = hashed_for t
      \<and> (case res of
           Inr m \<Rightarrow> m = \<lparr> mr_inserted = (tab t (hk_key key) = None), mr_previous = tab t (hk_key key) \<rparr>
                     \<and> tab t' = (tab t)(hk_key key \<mapsto> ref)
         | Inl e \<Rightarrow> tab t' = tab t)"
    using insert_or_assign_ok [of t key ref t' res] by (auto simp: hashed_for_def fun_eq_iff split: sum.splits)
next
  fix t t' key m assume "table_inv t" "hashed_for t key" "swiss_erase t key = (t', m)"
  then show "table_inv t' \<and> hashed_for t' = hashed_for t \<and> tab t' = (tab t)(hk_key key := None)
      \<and> m = \<lparr> mr_inserted = False, mr_previous = tab t (hk_key key) \<rparr>"
    using swiss_erase_ok(2) [of t key t' m] by (auto simp: hashed_for_def fun_eq_iff frame_def)
qed

interpretation key_index: map_index table_inv tab "\<lambda>k. k" "\<lambda>_ _. True" index_find index_insert_or_assign index_erase
proof
  show "table_inv t \<Longrightarrow> True \<Longrightarrow> index_find t k = (t', r) \<Longrightarrow>
      table_inv t' \<and> tab t' = tab t \<and> (\<lambda>_. True) = (\<lambda>_. True) \<and> r = tab t k" for t t' k r
    using hashed_index.lookup_law [of t "hashed t k"] by (simp add: index_find_def)
  show "table_inv t \<Longrightarrow> True \<Longrightarrow> index_insert_or_assign t k ref = (t', res) \<Longrightarrow>
      table_inv t' \<and> (\<lambda>_. True) = (\<lambda>_. True)
      \<and> (case res of
           Inr m \<Rightarrow> m = \<lparr> mr_inserted = (tab t k = None), mr_previous = tab t k \<rparr> \<and> tab t' = (tab t)(k \<mapsto> ref)
         | Inl e \<Rightarrow> tab t' = tab t)" for t t' k ref res
    using hashed_index.store_law [of t "hashed t k" ref]
    by (cases res) (simp_all add: index_insert_or_assign_def)
  show "table_inv t \<Longrightarrow> True \<Longrightarrow> index_erase t k = (t', m) \<Longrightarrow>
      table_inv t' \<and> (\<lambda>_. True) = (\<lambda>_. True) \<and> tab t' = (tab t)(k := None)
      \<and> m = \<lparr> mr_inserted = False, mr_previous = tab t k \<rparr>" for t t' k m
    using hashed_index.remove_law [of t "hashed t k"] by (simp add: index_erase_def)
qed

text \<open>
  C4.  From the empty index, every sequence of lookups, insertions and erasures is answered as a
  map answers it: a lookup returns the last reference stored for the key, a mutation reports the
  reference it replaced, a refused insertion changes nothing; and the entries the index
  enumerates are those of the map.
\<close>

theorem index_refines_map:
  "let (t, replies) = index_run index_find index_insert_or_assign index_erase (make_swiss_table routing sd) ops
   in spec_run (\<lambda>k. k) Map.empty ops replies = Some (map_of (swiss_entries t))"
proof -
  obtain t rs where r: "index_run index_find index_insert_or_assign index_erase (make_swiss_table routing sd) ops = (t, rs)"
    by fastforce
  then show ?thesis
    using key_index.run_refines [OF make_swiss_table_ok(1) _ r]
    by (simp add: make_swiss_table_ok(2)) (simp add: tab_def)
qed

text \<open>
  C6.  Two units of fuel are enough for \<open>insert_or_assign\<close>: the insertion that grows the table
  calls insertions into the rebuilt table, and these never grow it again.
\<close>

theorem insert_fuel_suffices:
  assumes "table_inv t"
  shows "insert_fuel (Suc (Suc n)) t key ref = insert_or_assign t key ref"
  by (rule insert_fuel_any [OF assms])

theorem insert_fuel_suffices_witness:
  "insert_fuel 5 example_index (hashed example_index [7]) default_ref
     = insert_or_assign example_index (hashed example_index [7]) default_ref"
  using insert_fuel_suffices [of example_index 3] by (simp add: example_index_def make_swiss_table_ok eval_nat_numeral)

text \<open>
  C7.  An insertion into an index fails only for a key of 2 GiB or more, when the key arena has no
  32-bit offset left for a new long key, or when the table cannot be doubled; a failed insertion
  keeps every entry.
\<close>

theorem insert_failures_exact:
  assumes "table_inv t" "hashed_for t key" "insert_or_assign t key ref = (t', Inl e)"
  shows "table_inv t' \<and> tab t' = tab t
    \<and> (e = Invalid_argument \<and> 2 ^ 31 \<le> length (hk_key key)
       \<or> e = Arithmetic_overflow \<and> (\<not> arena_fits t (hk_key key) \<or> kSizeMax div 2 < st_capacity t))"
  using insert_or_assign_ok [OF assms] by simp

lemma insert_too_long:
  assumes "2147483648 \<le> length (hk_key key)"
  shows "insert_or_assign t key ref = (t, fail Invalid_argument)"
proof -
  have "insert_or_assign t key ref = insert_step (insert_fuel 1) t key ref"
    by (simp add: insert_or_assign_def insert_fuel.simps numeral_2_eq_2)
  then show ?thesis using assms by (simp add: insert_step_def)
qed

theorem insert_failures_exact_witness:
  "\<exists>t' key. length (hk_key key) = 2 ^ 31
     \<and> insert_or_assign example_index key default_ref = (t', fail Invalid_argument) \<and> tab t' = Map.empty"
proof -
  obtain k :: bytes where k: "length k = 2147483648" by (rule that [OF length_replicate])
  have r: "insert_or_assign example_index (hashed example_index k) default_ref = (example_index, fail Invalid_argument)"
    by (rule insert_too_long) (simp add: k)
  have i: "table_inv example_index" "tab example_index = Map.empty"
    by (simp_all add: example_index_def make_swiss_table_ok)
  show ?thesis
    using insert_failures_exact [OF i(1) _ r] r i(2) k
    by (intro exI [of _ example_index] exI [of _ "hashed example_index k"]) simp
qed

section \<open>Rebuilding from segments\<close>

record latest_record =
  lr_ref :: record_ref
  lr_deleted :: bool
  lr_expired :: bool

record rebuild_stats =
  rb_records_scanned :: u64
  rb_records_visible :: u64
  rb_tombstones :: u64
  rb_expired :: u64

type_synonym latest = "(bytes \<times> latest_record) list"

fun rebuild_scan_refs :: "segment \<Rightarrow> u64 \<Rightarrow> record_ref list \<Rightarrow> latest \<Rightarrow> rebuild_stats \<Rightarrow> (latest \<times> rebuild_stats) result" where
  "rebuild_scan_refs s now_ns [] latest stats = Inr (latest, stats)"
| "rebuild_scan_refs s now_ns (ref # refs) latest stats =
     (let stats = stats\<lparr> rb_records_scanned := rb_records_scanned stats + 1 \<rparr> in
      case segment_read s ref of
        Inl e \<Rightarrow> Inl e
      | Inr record \<Rightarrow>
          let key = rv_key record; current = map_of latest key in
          if (case current of Some c \<Rightarrow> rr_sequence (lr_ref c) = rv_sequence record | None \<Rightarrow> False)
          then fail Sequence_conflict
          else
            let latest =
              (if (case current of Some c \<Rightarrow> rr_sequence (lr_ref c) < rv_sequence record | None \<Rightarrow> True)
               then AList.update key \<lparr> lr_ref = ref, lr_deleted = (rv_opcode record = opcode_erase),
                                       lr_expired = expired record now_ns \<rparr> latest
               else latest)
            in rebuild_scan_refs s now_ns refs latest stats)"

fun rebuild_scan_segments :: "segment list \<Rightarrow> u64 \<Rightarrow> latest \<Rightarrow> rebuild_stats \<Rightarrow> (latest \<times> rebuild_stats) result" where
  "rebuild_scan_segments [] now_ns latest stats = Inr (latest, stats)"
| "rebuild_scan_segments (s # segs) now_ns latest stats =
     bind_result (segment_scan s) (\<lambda>refs.
     bind_result (rebuild_scan_refs s now_ns refs latest stats) (\<lambda>(latest, stats).
     rebuild_scan_segments segs now_ns latest stats))"

fun rebuild_publish :: "(bytes \<times> latest_record) list \<Rightarrow> swiss_table \<Rightarrow> rebuild_stats \<Rightarrow> (swiss_table \<times> rebuild_stats) result" where
  "rebuild_publish [] index stats = Inr (index, stats)"
| "rebuild_publish ((key, record) # rest) index stats =
     (if lr_deleted record
      then rebuild_publish rest index (stats\<lparr> rb_tombstones := rb_tombstones stats + 1 \<rparr>)
      else if lr_expired record
      then rebuild_publish rest index (stats\<lparr> rb_expired := rb_expired stats + 1 \<rparr>)
      else
        (case index_insert_or_assign index key (lr_ref record) of
           (_, Inl e) \<Rightarrow> Inl e
         | (index, Inr _) \<Rightarrow>
             rebuild_publish rest index (stats\<lparr> rb_records_visible := rb_records_visible stats + 1 \<rparr>)))"

definition rebuild_index_from_segments :: "(latest \<Rightarrow> latest) \<Rightarrow> u64 \<Rightarrow> segment list \<Rightarrow> u64 \<Rightarrow> worker_routing_state
    \<Rightarrow> (swiss_table \<times> rebuild_stats) result" where
  "rebuild_index_from_segments order sd segs now_ns routing =
     bind_result (rebuild_scan_segments segs now_ns []
        \<lparr> rb_records_scanned = 0, rb_records_visible = 0, rb_tombstones = 0, rb_expired = 0 \<rparr>)
       (\<lambda>(latest, stats).
          case reserve (make_swiss_table routing sd) (length latest) of
            (_, Inl e) \<Rightarrow> Inl e
          | (index, Inr _) \<Rightarrow> rebuild_publish (order latest) index stats)"

subsection \<open>The newest record of every key\<close>

text \<open>The records of a list of segments that hold the given logs, with their references.\<close>

definition log_entries :: "segment \<Rightarrow> record_input list \<Rightarrow> (record_ref \<times> record_input) list" where
  "log_entries s log = zip (log_refs s 4096 log) log"

fun all_entries :: "segment list \<Rightarrow> record_input list list \<Rightarrow> (record_ref \<times> record_input) list" where
  "all_entries (s # segs) (log # logs) = log_entries s log @ all_entries segs logs"
| "all_entries segs logs = []"

definition newest :: "(record_ref \<times> record_input) list \<Rightarrow> bytes \<Rightarrow> record_ref \<Rightarrow> record_input \<Rightarrow> bool" where
  "newest es k ref i \<longleftrightarrow> (ref, i) \<in> set es \<and> ri_key i = k
     \<and> (\<forall>(ref', i') \<in> set es. ri_key i' = k \<longrightarrow> ri_sequence i' \<le> ri_sequence i)"

definition conflict_free :: "(record_ref \<times> record_input) list \<Rightarrow> bool" where
  "conflict_free es \<longleftrightarrow> distinct (map (\<lambda>(ref, i). (ri_key i, ri_sequence i)) es)"

definition latest_of :: "u64 \<Rightarrow> record_ref \<Rightarrow> record_input \<Rightarrow> latest_record" where
  "latest_of now_ns ref i = \<lparr> lr_ref = ref, lr_deleted = (ri_opcode i = opcode_erase),
     lr_expired = expired (view_of i) now_ns \<rparr>"

definition latest_rel :: "u64 \<Rightarrow> (record_ref \<times> record_input) list \<Rightarrow> latest \<Rightarrow> bool" where
  "latest_rel now_ns es latest \<longleftrightarrow> distinct (map fst latest)
     \<and> (\<forall>k lr. map_of latest k = Some lr \<longleftrightarrow> (\<exists>ref i. newest es k ref i \<and> lr = latest_of now_ns ref i))"

lemma log_entries_seq: "(ref, i) \<in> set (log_entries s log) \<Longrightarrow> rr_sequence ref = ri_sequence i"
  by (auto simp: log_entries_def in_set_conv_nth log_refs_nth log_ref_def)

lemma newest_unique:
  assumes "conflict_free es" "newest es k r i" "newest es k r' i'"
  shows "r' = r \<and> i' = i"
proof -
  have "ri_sequence i = ri_sequence i'" using assms(2,3) by (fastforce simp: newest_def)
  then show ?thesis
    using assms inj_onD [of "\<lambda>(ref, i). (ri_key i, ri_sequence i)" "set es" "(r, i)" "(r', i')"]
    by (auto simp: newest_def conflict_free_def distinct_map)
qed

lemma newest_exists:
  assumes "(r, i) \<in> set es"
  shows "\<exists>r' i'. newest es (ri_key i) r' i'"
proof -
  let ?A = "{x \<in> set es. ri_key (snd x) = ri_key i}"
  let ?B = "(\<lambda>x. ri_sequence (snd x)) ` ?A"
  have fin: "finite ?B" "?B \<noteq> {}" using assms by auto
  obtain r' i' where x: "(r', i') \<in> ?A" "ri_sequence i' = Max ?B" using Max_in [OF fin] by auto
  have "ri_sequence j \<le> ri_sequence i'" if "(q, j) \<in> set es" "ri_key j = ri_key i" for q j
    unfolding x(2) by (rule Max_ge [OF fin(1)]) (use that in force)
  then show ?thesis using x(1) by (intro exI [of _ r'] exI [of _ i']) (auto simp: newest_def)
qed

lemma newest_after:
  assumes "ri_sequence i < ri_sequence j0" "(r0, j0) \<in> set es" "ri_key j0 = ri_key i"
  shows "newest (es @ [(ref, i)]) (ri_key i) r j \<longleftrightarrow> newest es (ri_key i) r j"
proof
  assume n: "newest (es @ [(ref, i)]) (ri_key i) r j"
  then have "ri_sequence j0 \<le> ri_sequence j" using assms by (auto simp: newest_def)
  then show "newest es (ri_key i) r j" using n assms(1) by (auto simp: newest_def)
next
  assume n: "newest es (ri_key i) r j"
  then have "ri_sequence j0 \<le> ri_sequence j" using assms by (auto simp: newest_def)
  then show "newest (es @ [(ref, i)]) (ri_key i) r j" using n assms(1) by (auto simp: newest_def)
qed

lemma latest_rel_add:
  assumes rel: "latest_rel now es latest" and cf: "conflict_free (es @ [(ref, i)])"
    and seqs: "\<And>r j. (r, j) \<in> set es \<Longrightarrow> rr_sequence r = ri_sequence j"
  defines "cur \<equiv> map_of latest (ri_key i)"
  shows "\<not> (case cur of Some c \<Rightarrow> rr_sequence (lr_ref c) = ri_sequence i | None \<Rightarrow> False)"
    "latest_rel now (es @ [(ref, i)])
       (if (case cur of Some c \<Rightarrow> rr_sequence (lr_ref c) < ri_sequence i | None \<Rightarrow> True)
        then AList.update (ri_key i) (latest_of now ref i) latest else latest)" (is "latest_rel now ?es ?l")
proof -
  have cfe: "conflict_free es" and fresh: "(r, j) \<in> set es \<Longrightarrow> ri_key j = ri_key i \<Longrightarrow> ri_sequence j \<noteq> ri_sequence i"
    for r j using cf by (force simp: conflict_free_def)+
  have cur: "cur = Some c \<longleftrightarrow> (\<exists>r j. newest es (ri_key i) r j \<and> c = latest_of now r j)" for c
    using rel by (simp add: cur_def latest_rel_def)
  have old: "rr_sequence (lr_ref c) = ri_sequence j \<and> (r, j) \<in> set es \<and> ri_key j = ri_key i"
    if "newest es (ri_key i) r j" "c = latest_of now r j" for c r j
    using that seqs by (auto simp: newest_def latest_of_def)
  show "\<not> (case cur of Some c \<Rightarrow> rr_sequence (lr_ref c) = ri_sequence i | None \<Rightarrow> False)"
  proof (cases cur)
    case (Some c)
    then obtain r j where n: "newest es (ri_key i) r j" "c = latest_of now r j" using cur by blast
    from old [OF n] fresh [of r j] show ?thesis using Some by simp
  qed simp
  have other: "newest ?es k r j \<longleftrightarrow> newest es k r j" if "k \<noteq> ri_key i" for k r j
    using that by (auto simp: newest_def)
  have same: "newest ?es (ri_key i) r j \<longleftrightarrow>
      (if (case cur of Some c \<Rightarrow> rr_sequence (lr_ref c) < ri_sequence i | None \<Rightarrow> True)
       then r = ref \<and> j = i else newest es (ri_key i) r j)" for r j
  proof (cases cur)
    case None
    have "ri_key j \<noteq> ri_key i" if "(r, j) \<in> set es" for r j
      using newest_exists [OF that] cur [THEN iffD2] None by (metis option.distinct(1))
    then show ?thesis using None by (auto simp: newest_def)
  next
    case (Some c)
    then obtain r0 j0 where n: "newest es (ri_key i) r0 j0" "c = latest_of now r0 j0" using cur by blast
    have le: "\<And>r j. (r, j) \<in> set es \<Longrightarrow> ri_key j = ri_key i \<Longrightarrow> ri_sequence j \<le> ri_sequence j0"
      using n(1) by (auto simp: newest_def)
    note o' = old [OF n]
    show ?thesis
    proof (cases "ri_sequence j0 < ri_sequence i")
      case True
      have "newest ?es (ri_key i) r j \<longleftrightarrow> r = ref \<and> j = i"
      proof
        assume n': "newest ?es (ri_key i) r j"
        then have "ri_sequence i \<le> ri_sequence j" "ri_key j = ri_key i" by (auto simp: newest_def)
        then have "(r, j) \<notin> set es" using le [of r j] True by auto
        then show "r = ref \<and> j = i" using n' by (auto simp: newest_def)
      next
        assume "r = ref \<and> j = i"
        then show "newest ?es (ri_key i) r j"
          using le order_trans [OF le less_imp_le [OF True]] by (auto simp: newest_def)
      qed
      then show ?thesis using Some o' True by simp
    next
      case False
      have "ri_sequence i < ri_sequence j0" using False fresh [of r0 j0] o' by (simp add: not_less order_less_le)
      then have "newest ?es (ri_key i) r j \<longleftrightarrow> newest es (ri_key i) r j"
        by (rule newest_after) (use o' in blast)+
      then show ?thesis using Some o' False by simp
    qed
  qed
  have d: "distinct (map fst ?l)" using rel by (simp add: latest_rel_def distinct_update)
  have m: "map_of ?l k = (if k = ri_key i \<and> (case cur of Some c \<Rightarrow> rr_sequence (lr_ref c) < ri_sequence i | None \<Rightarrow> True)
      then Some (latest_of now ref i) else map_of latest k)" for k
    by (simp add: update_conv')
  have "map_of ?l k = Some lr \<longleftrightarrow> (\<exists>r j. newest ?es k r j \<and> lr = latest_of now r j)" for k lr
  proof (cases "k = ri_key i")
    case True
    then show ?thesis unfolding m True same
      using rel by (auto simp: latest_rel_def split: if_splits)
  next
    case False
    then show ?thesis unfolding m other [OF False] using rel by (simp add: latest_rel_def)
  qed
  then show "latest_rel now ?es ?l" using d unfolding latest_rel_def by blast
qed

lemma rebuild_scan_refs_ok:
  assumes "latest_rel now es latest" "conflict_free (es @ xs)"
    "\<And>r j. (r, j) \<in> set (es @ xs) \<Longrightarrow> rr_sequence r = ri_sequence j"
    "\<And>r j. (r, j) \<in> set xs \<Longrightarrow> segment_read s r = Inr (view_of j)"
  shows "\<exists>latest'. rebuild_scan_refs s now (map fst xs) latest stats
       = Inr (latest', stats\<lparr> rb_records_scanned := rb_records_scanned stats + of_nat (length xs) \<rparr>)
     \<and> latest_rel now (es @ xs) latest'"
  using assms
proof (induction xs arbitrary: es latest stats)
  case (Cons x xs)
  obtain ref i where x: "x = (ref, i)" by fastforce
  have cf: "conflict_free (es @ [(ref, i)])" using Cons.prems(2) by (simp add: conflict_free_def x)
  have sq: "rr_sequence r = ri_sequence j" if "(r, j) \<in> set es" for r j using Cons.prems(3) that by simp
  note L = latest_rel_add [OF Cons.prems(1) cf sq]
  have rd: "segment_read s ref = Inr (view_of i)" using Cons.prems(4) by (simp add: x)
  let ?cur = "map_of latest (ri_key i)"
  let ?l = "if (case ?cur of Some c \<Rightarrow> rr_sequence (lr_ref c) < ri_sequence i | None \<Rightarrow> True)
        then AList.update (ri_key i) (latest_of now ref i) latest else latest"
  let ?st = "stats\<lparr> rb_records_scanned := rb_records_scanned stats + 1 \<rparr>"
  have view: "rv_key (view_of i) = ri_key i" "rv_sequence (view_of i) = ri_sequence i"
    "rv_opcode (view_of i) = ri_opcode i" by (simp_all add: view_of_def)
  have "rebuild_scan_refs s now (map fst (x # xs)) latest stats = rebuild_scan_refs s now (map fst xs) ?l ?st"
    using L(1) by (simp add: x rd view Let_def latest_of_def cong: option.case_cong)
  moreover have "\<exists>latest'. rebuild_scan_refs s now (map fst xs) ?l ?st
       = Inr (latest', ?st\<lparr> rb_records_scanned := rb_records_scanned ?st + of_nat (length xs) \<rparr>)
     \<and> latest_rel now ((es @ [(ref, i)]) @ xs) latest'"
    by (rule Cons.IH [OF L(2)]) (use Cons.prems(2-4) in \<open>auto simp: x\<close>)
  ultimately show ?case by (simp add: x add.assoc)
qed simp

lemma log_entries_facts:
  assumes "seg_log s log"
  shows "segment_scan s = Inr (map fst (log_entries s log))" "length (log_entries s log) = length log"
    "(r, i) \<in> set (log_entries s log) \<Longrightarrow> segment_read s r = Inr (view_of i)"
    "(r, i) \<in> set (log_entries s log) \<Longrightarrow> rec_ok i"
  using scan_log [OF assms] read_log_ref(1) [OF assms] assms
  by (auto simp: log_entries_def in_set_conv_nth seg_log_def list_all_length)

lemma rebuild_scan_segments_ok:
  assumes "list_all2 seg_log segs logs" "latest_rel now es latest" "conflict_free (es @ all_entries segs logs)"
    "\<And>r j. (r, j) \<in> set es \<Longrightarrow> rr_sequence r = ri_sequence j"
  shows "\<exists>latest'. rebuild_scan_segments segs now latest stats = Inr (latest',
        stats\<lparr> rb_records_scanned := rb_records_scanned stats + of_nat (length (all_entries segs logs)) \<rparr>)
     \<and> latest_rel now (es @ all_entries segs logs) latest'"
  using assms
proof (induction segs logs arbitrary: es latest stats rule: list_all2_induct)
  case (Cons s segs log logs)
  let ?xs = "log_entries s log"
  note F = log_entries_facts [OF Cons.hyps(1)]
  have cf: "conflict_free (es @ ?xs)" using Cons.prems(2) by (simp add: conflict_free_def Int_Un_distrib)
  have sq: "rr_sequence r = ri_sequence j" if "(r, j) \<in> set (es @ ?xs)" for r j
    using that Cons.prems(3) log_entries_seq by auto
  obtain l1 where l1: "rebuild_scan_refs s now (map fst ?xs) latest stats
      = Inr (l1, stats\<lparr> rb_records_scanned := rb_records_scanned stats + of_nat (length ?xs) \<rparr>)"
    "latest_rel now (es @ ?xs) l1"
    using rebuild_scan_refs_ok [OF Cons.prems(1) cf sq F(3)] by blast
  have "conflict_free ((es @ ?xs) @ all_entries segs logs)" using Cons.prems(2) by simp
  from Cons.IH [OF l1(2) this sq, of "stats\<lparr> rb_records_scanned := rb_records_scanned stats + of_nat (length ?xs) \<rparr>"]
  show ?case using l1(1) F(1) by (simp add: add.assoc)
qed simp

subsection \<open>Publishing the latest records\<close>

definition visible :: "latest \<Rightarrow> (bytes \<times> record_ref) list" where
  "visible l = map (\<lambda>(k, lr). (k, lr_ref lr)) (filter (\<lambda>(k, lr). \<not> lr_deleted lr \<and> \<not> lr_expired lr) l)"

lemma fst_visible: "fst ` set (visible l) \<subseteq> fst ` set l"
  unfolding visible_def by (induction l) auto

lemma distinct_visible: "distinct (map fst l) \<Longrightarrow> distinct (map fst (visible l))"
proof -
  have "map fst (visible l) = map fst (filter (\<lambda>(k, lr). \<not> lr_deleted lr \<and> \<not> lr_expired lr) l)"
    by (simp add: visible_def comp_def case_prod_beta)
  then show "distinct (map fst l) \<Longrightarrow> distinct (map fst (visible l))" by (simp add: distinct_map_filter)
qed

lemma rebuild_publish_ok:
  assumes "table_inv t" "has_room t (length l)" "distinct (map fst l)"
    "\<And>k. k \<in> fst ` set l \<Longrightarrow> tab t k = None \<and> length k < 2147483648"
    "ka_bump (st_heap_keys t) + sum_list (map (key_heap \<circ> fst) l) \<le> 0xFFFFFFFF"
  shows "\<exists>t' stats'. rebuild_publish l t stats = Inr (t', stats') \<and> table_inv t'
     \<and> tab t' = tab t ++ map_of (visible l)
     \<and> rb_records_scanned stats' = rb_records_scanned stats
     \<and> rb_records_visible stats' = rb_records_visible stats + of_nat (length (visible l))"
  using assms
proof (induction l arbitrary: t stats)
  case Nil
  then show ?case by (simp add: visible_def)
next
  case (Cons x l)
  obtain k lr where x: "x = (k, lr)" by fastforce
  have room: "has_room t (Suc (length l))" "has_room t (length l)"
    using Cons.prems(2) has_room_mono [of t "Suc (length l)" "length l"] by simp_all
  have k: "tab t k = None" "length k < 2147483648" using Cons.prems(4) [of k] by (simp_all add: x)
  show ?case
  proof (cases "lr_deleted lr \<or> lr_expired lr")
    case True
    have tl: "\<exists>t' stats'. rebuild_publish l t st = Inr (t', stats') \<and> table_inv t'
        \<and> tab t' = tab t ++ map_of (visible l) \<and> rb_records_scanned stats' = rb_records_scanned st
        \<and> rb_records_visible stats' = rb_records_visible st + of_nat (length (visible l))" for st
      using Cons.prems(1,3-5) room(2) by (intro Cons.IH) (simp_all add: x)
    have "visible (x # l) = visible l" using True by (auto simp: visible_def x)
    then show ?thesis
      using True tl [of "stats\<lparr> rb_tombstones := rb_tombstones stats + 1 \<rparr>"]
        tl [of "stats\<lparr> rb_expired := rb_expired stats + 1 \<rparr>"] by (auto simp: x)
  next
    case False
    let ?st = "stats\<lparr> rb_records_visible := rb_records_visible stats + 1 \<rparr>"
    obtain t1 res where i: "insert_or_assign t (hashed t k) (lr_ref lr) = (t1, res)" by fastforce
    have fits: "arena_fits t k"
      using Cons.prems(5) by (cases "length k \<le> 24") (simp_all add: arena_fits_def x)
    note W = insert_with_room [OF Cons.prems(1) room(1) hashed_for_hashed(1) _ _ i, simplified, OF k(2) fits]
    have "(\<Sum>k \<in> dom (tab t1). key_heap k) = key_heap k + (\<Sum>k \<in> dom (tab t). key_heap k)"
      using k(1) by (simp add: W(3) domIff)
    then have bump: "ka_bump (st_heap_keys t1) = ka_bump (st_heap_keys t) + key_heap k"
      using bump_tab [OF Cons.prems(1)] bump_tab [OF W(2)] W(6) by simp
    have "\<exists>t' stats'. rebuild_publish l t1 ?st = Inr (t', stats') \<and> table_inv t'
        \<and> tab t' = tab t1 ++ map_of (visible l) \<and> rb_records_scanned stats' = rb_records_scanned ?st
        \<and> rb_records_visible stats' = rb_records_visible ?st + of_nat (length (visible l))"
    proof (rule Cons.IH [OF W(2,7)])
      show "distinct (map fst l)" using Cons.prems(3) by simp
      show "tab t1 k' = None \<and> length k' < 2147483648" if "k' \<in> fst ` set l" for k'
        using that Cons.prems(3) Cons.prems(4) [of k'] by (auto simp: W(3) x)
      show "ka_bump (st_heap_keys t1) + sum_list (map (key_heap \<circ> fst) l) \<le> 0xFFFFFFFF"
        using Cons.prems(5) by (simp add: bump x comp_def)
    qed
    moreover have "rebuild_publish (x # l) t stats = rebuild_publish l t1 ?st"
      using False i W(1) by (simp add: x index_insert_or_assign_def)
    moreover have "visible (x # l) = (k, lr_ref lr) # visible l" using False by (simp add: visible_def x)
    moreover have "k \<notin> dom (map_of (visible l))"
      using Cons.prems(3) fst_visible [of l] by (auto simp: dom_map_of_conv_image_fst x)
    then have "tab t1 ++ map_of (visible l) = tab t ++ map_of ((k, lr_ref lr) # visible l)"
      by (auto simp: W(3) map_add_def fun_eq_iff domIff split: option.split)
    ultimately show ?thesis by (auto simp: add.assoc simp del: map_of.simps)
  qed
qed

lemma all_entries_facts:
  assumes "list_all2 seg_log segs logs"
  shows "(r, i) \<in> set (all_entries segs logs) \<Longrightarrow> rec_ok i"
    "length (all_entries segs logs) \<le> 67108864 * length segs"
  using assms
proof (induction segs logs rule: list_all2_induct)
  case (Cons s segs log logs)
  {
    case 1
    then show ?case using Cons(3) log_entries_facts(4) [OF Cons(1)] by auto
  next
    case 2
    have "56 * length log \<le> 67108864" using log_length_bound [of log] Cons(1) by (simp add: seg_log_def)
    then show ?case using Cons(4) log_entries_facts(2) [OF Cons(1)] by simp
  }
qed simp_all

lemma rec_ok_key: "rec_ok i \<Longrightarrow> length (ri_key i) < 2147483648"
  using rec_size_bounds(2) [of i] record_extent_bounds(1) [of "length (ri_key i)" "length (ri_value i)"]
  by (simp add: rec_size_def)

lemma latest_keys:
  assumes "latest_rel now es l" "conflict_free es"
  shows "fst ` set l = (ri_key \<circ> snd) ` set es" "length l \<le> length es"
    "sum_list (map (key_heap \<circ> fst) l) = (\<Sum>k \<in> (ri_key \<circ> snd) ` set es. key_heap k)"
proof -
  have d: "distinct (map fst l)" using assms(1) by (simp add: latest_rel_def)
  have k: "k \<in> fst ` set l \<longleftrightarrow> (\<exists>r i. newest es k r i)" for k
  proof -
    have "k \<in> fst ` set l \<longleftrightarrow> (\<exists>lr. map_of l k = Some lr)"
      by (simp flip: dom_map_of_conv_image_fst add: dom_def)
    then show ?thesis using assms(1) by (auto simp: latest_rel_def)
  qed
  show ks: "fst ` set l = (ri_key \<circ> snd) ` set es"
  proof (intro set_eqI iffI)
    fix x assume "x \<in> fst ` set l"
    then obtain r i where "(r, i) \<in> set es" "ri_key i = x" using k by (auto simp: newest_def)
    then show "x \<in> (ri_key \<circ> snd) ` set es" by force
  next
    fix x assume "x \<in> (ri_key \<circ> snd) ` set es"
    then show "x \<in> fst ` set l" using newest_exists k by auto
  qed
  have "length l = card (fst ` set l)" using d distinct_card [of "map fst l"] by simp
  also have "\<dots> \<le> length es" unfolding ks by (rule order_trans [OF card_image_le card_length]) simp
  finally show "length l \<le> length es" .
  have "sum_list (map key_heap (map fst l)) = (\<Sum>k \<in> set (map fst l). key_heap k)"
    using d by (rule sum_list_distinct_conv_sum_set)
  then show "sum_list (map (key_heap \<circ> fst) l) = (\<Sum>k \<in> (ri_key \<circ> snd) ` set es. key_heap k)"
    using ks by (simp add: comp_def)
qed

text \<open>
  C5.  Rebuilding the index from segments that hold given logs succeeds when no key occurs twice
  with the same sequence number and the key arena can hold the long keys.  The index then maps a
  key to a reference exactly when that reference is the record of the key with the greatest
  sequence number in all the logs and this record is neither an erasure nor expired, for every
  iteration order of the hash map the code collects the records in.
\<close>

theorem rebuild_index_newest:
  assumes "list_all2 seg_log segs logs" "conflict_free (all_entries segs logs)" "length segs \<le> 2 ^ 30"
    and "(\<Sum>k \<in> (ri_key \<circ> snd) ` set (all_entries segs logs). key_heap k) \<le> 0xFFFFFFFF"
    and "\<And>l. mset (order l) = mset l"
  shows "\<exists>index stats. rebuild_index_from_segments order sd segs now_ns routing = Inr (index, stats) \<and> table_inv index
    \<and> (\<forall>k ref. snd (index_find index k) = Some ref \<longleftrightarrow>
         (\<exists>i. newest (all_entries segs logs) k ref i \<and> ri_opcode i \<noteq> opcode_erase \<and> \<not> expired (view_of i) now_ns))
    \<and> rb_records_scanned stats = of_nat (length (all_entries segs logs))
    \<and> rb_records_visible stats = of_nat (card (dom (tab index)))"
proof -
  let ?es = "all_entries segs logs"
  let ?t = "make_swiss_table routing sd"
  let ?st = "\<lparr> rb_records_scanned = 0, rb_records_visible = 0, rb_tombstones = 0, rb_expired = 0 \<rparr> :: rebuild_stats"
  have nil: "latest_rel now_ns [] []" by (simp add: latest_rel_def newest_def)
  obtain l where l: "rebuild_scan_segments segs now_ns [] ?st = Inr (l, ?st\<lparr> rb_records_scanned := of_nat (length ?es) \<rparr>)"
    "latest_rel now_ns ?es l"
    using rebuild_scan_segments_ok [OF assms(1) nil, of ?st] assms(2) by auto
  note K = latest_keys [OF l(2) assms(2)]
  have len: "length l \<le> 2 ^ 60" using K(2) all_entries_facts(2) [OF assms(1)] assms(3) by simp
  obtain t1 r1 where r: "reserve ?t (length l) = (t1, r1)" by fastforce
  have ok1: "r1 = ok" using reserve_ok [OF make_swiss_table_ok(1) r] len by auto
  have sz: "st_size ?t = 0" by (simp add: make_swiss_table_def)
  have dead: "st_heap_dead_bytes ?t = 0" by (simp add: make_swiss_table_def)
  have t1: "table_inv t1" "tab t1 = Map.empty" "l \<noteq> [] \<longrightarrow> has_room t1 (length l)" "st_heap_dead_bytes t1 = 0"
    using reserve_ok [OF make_swiss_table_ok(1) r] ok1 dead by (auto simp: make_swiss_table_ok sz)
  have perm: "set (order l) = set l" "distinct (map fst (order l))" "length (order l) = length l"
  proof -
    show s: "set (order l) = set l" and n: "length (order l) = length l"
      using assms(5) [of l] by (auto dest: mset_eq_setD mset_eq_length)
    have "mset (map fst (order l)) = mset (map fst l)" by (simp add: assms(5))
    from mset_eq_imp_distinct_iff [OF this] show "distinct (map fst (order l))"
      using l(2) by (simp add: latest_rel_def)
  qed
  have "sum_list (map (key_heap \<circ> fst) (order l)) = sum_list (map (key_heap \<circ> fst) l)"
    by (metis assms(5) mset_map sum_mset_sum_list)
  then have heap: "ka_bump (st_heap_keys t1) + sum_list (map (key_heap \<circ> fst) (order l)) \<le> 0xFFFFFFFF"
    using K(3) assms(4) bump_tab [OF t1(1)] t1(2,4) by simp
  have keys: "tab t1 k = None \<and> length k < 2147483648" if "k \<in> fst ` set (order l)" for k
    using that t1(2) K(1) perm(1) all_entries_facts(1) [OF assms(1)] rec_ok_key by auto
  let ?st1 = "?st\<lparr> rb_records_scanned := of_nat (length ?es) \<rparr>"
  have "\<exists>t2 st2. rebuild_publish (order l) t1 ?st1 = Inr (t2, st2) \<and> table_inv t2
     \<and> tab t2 = tab t1 ++ map_of (visible (order l)) \<and> rb_records_scanned st2 = rb_records_scanned ?st1
     \<and> rb_records_visible st2 = rb_records_visible ?st1 + of_nat (length (visible (order l)))"
  proof (cases "l = []")
    case True
    then have "order l = []" using perm(3) by simp
    then show ?thesis using t1(1) by (simp add: visible_def)
  next
    case False
    then show ?thesis using t1(1,3) perm(2,3) keys heap by (intro rebuild_publish_ok) simp_all
  qed
  then obtain t2 st2 where p: "rebuild_publish (order l) t1 ?st1 = Inr (t2, st2)" "table_inv t2"
    "tab t2 = map_of (visible (order l))" "rb_records_scanned st2 = of_nat (length ?es)"
    "rb_records_visible st2 = of_nat (length (visible (order l)))"
    using t1(2) by auto
  have d: "distinct (map fst (visible (order l)))"
    using perm(2) by (simp add: distinct_visible)
  have "card (dom (tab t2)) = length (visible (order l))"
    using d distinct_card [of "map fst (visible (order l))"] by (simp add: p(3) dom_map_of_conv_image_fst)
  moreover have "tab t2 k = Some ref \<longleftrightarrow>
      (\<exists>i. newest ?es k ref i \<and> ri_opcode i \<noteq> opcode_erase \<and> \<not> expired (view_of i) now_ns)" for k ref
  proof -
    have dl: "distinct (map fst l)" using l(2) by (simp add: latest_rel_def)
    have "tab t2 k = Some ref \<longleftrightarrow> (k, ref) \<in> set (visible (order l))"
      unfolding p(3) by (rule map_of_eq_Some_iff [OF d])
    also have "\<dots> \<longleftrightarrow> (\<exists>lr. (k, lr) \<in> set l \<and> \<not> lr_deleted lr \<and> \<not> lr_expired lr \<and> lr_ref lr = ref)"
      by (force simp: visible_def perm(1))
    finally have A: "tab t2 k = Some ref \<longleftrightarrow>
        (\<exists>lr. map_of l k = Some lr \<and> \<not> lr_deleted lr \<and> \<not> lr_expired lr \<and> lr_ref lr = ref)"
      by (simp only: map_of_eq_Some_iff [OF dl])
    have m: "map_of l k = Some lr \<longleftrightarrow> (\<exists>r i. newest ?es k r i \<and> lr = latest_of now_ns r i)" for lr
      using l(2) unfolding latest_rel_def by blast
    have "tab t2 k = Some ref \<longleftrightarrow> (\<exists>r i. newest ?es k r i
        \<and> (let lr = latest_of now_ns r i in \<not> lr_deleted lr \<and> \<not> lr_expired lr \<and> lr_ref lr = ref))"
      unfolding A m Let_def by blast
    then show ?thesis by (auto simp: latest_of_def)
  qed
  moreover have "snd (index_find t2 k) = tab t2 k" for k
    using key_index.lookup_law [OF p(2), of k] by (cases "index_find t2 k") simp
  ultimately show ?thesis
    using l(1) r ok1 p by (simp add: rebuild_index_from_segments_def)
qed

lemma example_segment_log: "\<exists>s. seg_log s [example_input]"
proof -
  let ?s = "make_segment (\<lambda>_. 0) 1 0 1"
  have ok: "rec_ok example_input" "rec_size example_input = 64"
    by (simp_all add: rec_ok_def rec_size_def example_input_def result_simps record_enums record_consts
        record_extent_def)
  have "\<exists>s' ref. segment_append True ?s example_input = (s', Inr ref)"
    using segment_append_unfold [of ?s example_input True] ok
    by (simp add: make_segment_def header_sizes Let_def)
  then show ?thesis using segment_append_log(1) [OF make_segment_log [of "\<lambda>_. 0" 1 0 1]] by fastforce
qed

theorem rebuild_index_newest_witness:
  "\<exists>s index stats. seg_log s [example_input]
     \<and> rebuild_index_from_segments rev 0 [s] 0 default_routing = Inr (index, stats)
     \<and> snd (index_find index (ri_key example_input)) \<noteq> None \<and> rb_records_scanned stats = 1"
proof -
  obtain s where s: "seg_log s [example_input]" using example_segment_log by blast
  let ?r = "log_ref s 4096 example_input"
  have es: "all_entries [s] [[example_input]] = [(?r, example_input)]" by (simp add: log_entries_def)
  have n: "newest [(?r, example_input)] (ri_key example_input) ?r example_input" by (simp add: newest_def)
  have v: "ri_opcode example_input \<noteq> opcode_erase" "\<not> expired (view_of example_input) 0"
    by (simp_all add: example_input_def record_enums expired_def)
  have "conflict_free (all_entries [s] [[example_input]])"
    "(\<Sum>k \<in> (ri_key \<circ> snd) ` set (all_entries [s] [[example_input]]). key_heap k) \<le> 0xFFFFFFFF"
    unfolding es by (simp_all add: conflict_free_def example_input_def)
  then obtain index stats where
    "rebuild_index_from_segments rev 0 [s] 0 default_routing = Inr (index, stats)"
    "snd (index_find index (ri_key example_input)) = Some ?r" "rb_records_scanned stats = 1"
    using rebuild_index_newest [of "[s]" "[[example_input]]" rev 0 0 default_routing] s n v
    unfolding es by (auto, blast)
  then show ?thesis using s by auto
qed

end
