(* ===== verification/Worker.thy ===== *)
theory Worker
  imports Global_Manager Index_Rebuild
begin

text \<open>
  The Worker: \<open>src/include/glifistore/worker/worker.hpp\<close> and \<open>src/src/worker/worker.cpp\<close>.  A Worker
  owns segments of the shared manager, appends records to its active one and keeps an index from
  keys to references.  The state is the Worker's members with the manager and the segment store
  they refer to; a \<open>Segment*\<close>, a \<open>Segment&\<close> and a \<open>SegmentPtr\<close> are addresses in that store.
  Every operation runs under the Worker's mutex, or on the exclusive Writer's thread, and is one
  step.  The gate that keeps the two apart is in \<open>Quiesce_Gate\<close>; here the flag it sets is a
  field that mutations read.

  An operation returns the state and the result, \<open>None\<close> when an exception leaves the function.
  The environment of a call holds what the code does not compute: the bytes of uninitialised
  buffers, the build mode, the two fault-injection sites and whether the hash map runs out of
  memory while \<open>commit_rotation\<close> registers the replacement.
\<close>

section \<open>State\<close>

record worker_env =
  ev_uninit :: "nat \<Rightarrow> byte"
  ev_debug :: bool
  ev_fail_rotate :: bool
  ev_fail_index_account :: bool
  ev_commit_throws :: bool

record worker =
  w_heap :: seg_heap
  w_manager :: manager
  w_id :: u32
  w_index :: swiss_table
  w_active :: ptr
  w_next_sequence :: u64
  w_owned :: "ptr list"
  w_owned_by_id :: "(u64 \<times> ptr) list"
  w_exclusive_writer :: bool
  w_index_quiesce_active :: bool

record publication =
  pub_record :: record_ref
  pub_segment :: ptr
  pub_opcode :: u16

abbreviation seg_at :: "worker \<Rightarrow> ptr \<Rightarrow> segment" where
  "seg_at w p \<equiv> deref (w_heap w) p"

definition set_segment :: "worker \<Rightarrow> ptr \<Rightarrow> segment \<Rightarrow> worker" where
  "set_segment w p s = w\<lparr> w_heap := assign (w_heap w) p s \<rparr>"

section \<open>Operations\<close>

definition validate_live_record :: "segment \<Rightarrow> record_ref \<Rightarrow> status" where
  "validate_live_record s ref =
     bind_result (validate_ref_extent s ref) (\<lambda>_.
       if ss_live_records (seg_stats s) = 0 \<or> ss_live_bytes (seg_stats s) < ucast (rr_size ref)
       then fail Corrupted_data else ok)"

definition indeterminate_after_append :: "error_code \<Rightarrow> error_code" where
  "indeterminate_after_append e = Unavailable"

definition register_owned_segment :: "worker \<Rightarrow> ptr \<Rightarrow> worker \<times> unit option" where
  "register_owned_segment w p =
     (let sid = seg_id (seg_at w p);
          owned = w_owned w @ [p]
      in if map_of (w_owned_by_id w) sid = None
         then (w\<lparr> w_owned := owned, w_owned_by_id := AList.update sid p (w_owned_by_id w) \<rparr>, Some ())
         else (w\<lparr> w_owned := butlast owned \<rparr>, None))"

definition make_worker :: "(nat \<Rightarrow> byte) \<Rightarrow> seg_heap \<Rightarrow> manager \<Rightarrow> u32 \<Rightarrow> worker_routing_state \<Rightarrow> u64
    \<Rightarrow> worker \<times> unit option" where
  "make_worker uninit h m wid routing sd =
     (let (h, m, p) = allocate_active uninit h m wid
      in register_owned_segment
           \<lparr> w_heap = h, w_manager = m, w_id = wid, w_index = make_swiss_table routing sd, w_active = p,
             w_next_sequence = 1, w_owned = [], w_owned_by_id = [], w_exclusive_writer = False,
             w_index_quiesce_active = False \<rparr> p)"

definition unregister_owned_segment :: "worker \<Rightarrow> u64 \<Rightarrow> worker" where
  "unregister_owned_segment w sid =
     w\<lparr> w_owned_by_id := AList.delete sid (w_owned_by_id w),
        w_owned := filter (\<lambda>p. seg_id (seg_at w p) \<noteq> sid) (w_owned w) \<rparr>"

definition find_owned_segment :: "worker \<Rightarrow> u64 \<Rightarrow> ptr option" where
  "find_owned_segment w sid = map_of (w_owned_by_id w) sid"

definition maybe_retire :: "worker \<Rightarrow> ptr \<Rightarrow> worker" where
  "maybe_retire w p =
     (let s = seg_at w p in
      if seg_state s \<noteq> Seg_sealed \<or> ss_live_records (seg_stats s) \<noteq> 0 then w
      else
        let sid = seg_id s;
            (h, m, retired) = try_retire (w_heap w) (w_manager w) sid;
            w = w\<lparr> w_heap := h, w_manager := m \<rparr>
        in case retired of Inl _ \<Rightarrow> w | Inr _ \<Rightarrow> unregister_owned_segment w sid)"

definition next_sequence :: "worker \<Rightarrow> worker \<times> u64" where
  "next_sequence w = (w\<lparr> w_next_sequence := w_next_sequence w + 1 \<rparr>, w_next_sequence w)"

definition append_active :: "worker_env \<Rightarrow> worker \<Rightarrow> record_input \<Rightarrow> worker \<times> record_ref result" where
  "append_active ev w inp =
     (let (s, ref) = segment_append (ev_debug ev) (seg_at w (w_active w)) inp
      in (set_segment w (w_active w) s, ref))"

definition append_record :: "worker_env \<Rightarrow> worker \<Rightarrow> record_input \<Rightarrow> worker \<times> record_ref result option" where
  "append_record ev w inp =
     (if ev_fail_rotate ev then (w, Some (fail Invalid_reference))
      else
        let (w, ref) = append_active ev w inp in
        if ref \<noteq> fail Segment_full then (w, Some ref)
        else
          let sealed = w_active w;
              (h, m, replacement) =
                prepare_rotation (ev_uninit ev) (w_heap w) (w_manager w) (Some sealed) (w_id w);
              w = w\<lparr> w_heap := h, w_manager := m \<rparr>
          in case replacement of
               Inl e \<Rightarrow> (w, Some (Inl e))
             | Inr r \<Rightarrow>
                 (case register_owned_segment w r of
                    (w, None) \<Rightarrow> (w, None)
                  | (w, Some _) \<Rightarrow>
                      let registered = w;
                          (h, m, committed) =
                            commit_rotation (w_heap w) (w_manager w) (Some sealed) (Some r);
                          w = w\<lparr> w_heap := h, w_manager := m \<rparr>
                      in case committed of
                           Inl e \<Rightarrow> (unregister_owned_segment w (seg_id (seg_at w r)), Some (Inl e))
                         | Inr _ \<Rightarrow>
                             if ev_commit_throws ev
                             then (unregister_owned_segment registered (seg_id (seg_at registered r)), None)
                             else
                               let w = maybe_retire (w\<lparr> w_active := r \<rparr>) sealed;
                                   (w, ref) = append_active ev w inp
                               in (w, Some ref)))"

definition read_ref :: "worker \<Rightarrow> record_ref \<Rightarrow> record_view result" where
  "read_ref w ref =
     (case find_owned_segment w (rr_segment_id ref) of
        None \<Rightarrow> fail Invalid_reference
      | Some p \<Rightarrow> segment_read (seg_at w p) ref)"

text \<open>The lambda \<open>rollback_index\<close> of \<open>publish\<close>.\<close>

definition rollback_index :: "worker \<Rightarrow> hashed_key \<Rightarrow> record_ref \<Rightarrow> record_ref option \<Rightarrow> worker \<times> status" where
  "rollback_index w key ref previous =
     (case previous of
        Some prev \<Rightarrow>
          let (t, restored) = insert_or_assign (w_index w) key prev;
              w = w\<lparr> w_index := t \<rparr>
          in (case restored of
                Inl _ \<Rightarrow> (w, fail Corrupted_data)
              | Inr r \<Rightarrow> (w, if mr_previous r \<noteq> Some ref then fail Corrupted_data else ok))
      | None \<Rightarrow>
          let (t, removed) = swiss_erase (w_index w) key;
              w = w\<lparr> w_index := t \<rparr>
          in (w, if mr_previous removed \<noteq> Some ref then fail Corrupted_data else ok))"

text \<open>Returning an error after \<open>rollback_index\<close>, whose own failure comes first.\<close>

definition roll_back :: "worker \<Rightarrow> hashed_key \<Rightarrow> record_ref \<Rightarrow> record_ref option \<Rightarrow> error_code \<Rightarrow> worker \<times> status" where
  "roll_back w key ref previous e =
     (case rollback_index w key ref previous of
        (w, Inl e') \<Rightarrow> (w, Inl e')
      | (w, Inr _) \<Rightarrow> (w, Inl e))"

definition mark_live_at :: "worker \<Rightarrow> ptr \<Rightarrow> record_ref \<Rightarrow> worker \<times> status" where
  "mark_live_at w p ref = (let (s, r) = segment_mark_live (seg_at w p) ref in (set_segment w p s, r))"

definition mark_dead_at :: "worker \<Rightarrow> ptr \<Rightarrow> record_ref \<Rightarrow> worker \<times> status" where
  "mark_dead_at w p ref = (let (s, r) = segment_mark_dead (seg_at w p) ref in (set_segment w p s, r))"

text \<open>The checks of \<open>publish\<close> on the entry it replaced: the segment of that entry.\<close>

definition check_previous :: "worker \<Rightarrow> record_ref option \<Rightarrow> ptr option result" where
  "check_previous w previous =
     (case previous of
        None \<Rightarrow> Inr None
      | Some prev \<Rightarrow>
          (case find_owned_segment w (rr_segment_id prev) of
             None \<Rightarrow> fail Invalid_reference
           | Some q \<Rightarrow>
               (case validate_live_record (seg_at w q) prev of
                  Inl e \<Rightarrow> Inl e
                | Inr _ \<Rightarrow> Inr (Some q))))"

definition publish :: "worker \<Rightarrow> hashed_key \<Rightarrow> record_ref \<Rightarrow> ptr \<Rightarrow> worker \<times> status" where
  "publish w key ref p =
     (if seg_id (seg_at w p) \<noteq> rr_segment_id ref \<or> seg_owner (seg_at w p) \<noteq> w_id w
      then (w, fail Invalid_reference)
      else
        let (t, mutation) = insert_or_assign (w_index w) key ref;
            w = w\<lparr> w_index := t \<rparr>
        in case mutation of
             Inl e \<Rightarrow> (w, Inl e)
           | Inr mu \<Rightarrow>
               let previous = mr_previous mu in
               (case check_previous w previous of
                  Inl e \<Rightarrow> roll_back w key ref previous e
                | Inr previous_segment \<Rightarrow>
                    (case mark_live_at w p ref of
                       (w, Inl e) \<Rightarrow> roll_back w key ref previous e
                     | (w, Inr _) \<Rightarrow>
                         (case (previous, previous_segment) of
                            (Some prev, Some q) \<Rightarrow>
                              (case mark_dead_at w q prev of
                                 (w, Inl e) \<Rightarrow>
                                   let (w, _) = mark_dead_at w p ref in roll_back w key ref previous e
                               | (w, Inr _) \<Rightarrow> (maybe_retire w q, ok))
                          | _ \<Rightarrow> (w, ok)))))"

definition put_locked_published ::
  "worker_env \<Rightarrow> worker \<Rightarrow> hashed_key \<Rightarrow> bytes \<Rightarrow> u64 \<Rightarrow> worker \<times> publication result option" where
  "put_locked_published ev w key val expire_at_ns =
     (if w_exclusive_writer w \<and> w_index_quiesce_active w then (w, Some (fail Sequence_conflict))
      else
        let (w, sequence) = next_sequence w;
            inp = \<lparr> ri_sequence = sequence, ri_opcode = opcode_put, ri_type = type_bytes, ri_flags = 0,
                    ri_key_hash = hk_hash key, ri_expire_at_ns = expire_at_ns, ri_key = hk_key key,
                    ri_value = val \<rparr>
        in case append_record ev w inp of
             (w, None) \<Rightarrow> (w, None)
           | (w, Some (Inl e)) \<Rightarrow> (w, Some (Inl e))
           | (w, Some (Inr ref)) \<Rightarrow>
               let segment = w_active w in
               if ev_fail_index_account ev then (w, Some (fail Unavailable))
               else
                 (case publish w key ref segment of
                    (w, Inl e) \<Rightarrow> (w, Some (Inl (indeterminate_after_append e)))
                  | (w, Inr _) \<Rightarrow>
                      (w, Some (Inr \<lparr> pub_record = ref, pub_segment = segment, pub_opcode = opcode_put \<rparr>))))"

definition erase_locked_published ::
  "worker_env \<Rightarrow> worker \<Rightarrow> hashed_key \<Rightarrow> worker \<times> publication result option" where
  "erase_locked_published ev w key =
     (if w_exclusive_writer w \<and> w_index_quiesce_active w then (w, Some (fail Sequence_conflict))
      else
        let (t, existing) = swiss_find (w_index w) key;
            w = w\<lparr> w_index := t \<rparr>
        in case existing of
             None \<Rightarrow> (w, Some (fail Not_found))
           | Some ex \<Rightarrow>
               (case find_owned_segment w (rr_segment_id ex) of
                  None \<Rightarrow> (w, Some (fail Invalid_reference))
                | Some q \<Rightarrow>
                    (case validate_live_record (seg_at w q) ex of
                       Inl e \<Rightarrow> (w, Some (Inl e))
                     | Inr _ \<Rightarrow>
                         let (w, sequence) = next_sequence w;
                             inp = \<lparr> ri_sequence = sequence, ri_opcode = opcode_erase, ri_type = type_bytes,
                                     ri_flags = 0, ri_key_hash = hk_hash key, ri_expire_at_ns = 0,
                                     ri_key = hk_key key, ri_value = [] \<rparr>
                         in (case append_record ev w inp of
                               (w, None) \<Rightarrow> (w, None)
                             | (w, Some (Inl e)) \<Rightarrow> (w, Some (Inl e))
                             | (w, Some (Inr ref)) \<Rightarrow>
                                 (case mark_dead_at w q ex of
                                    (w, Inl e) \<Rightarrow> (w, Some (Inl (indeterminate_after_append e)))
                                  | (w, Inr _) \<Rightarrow>
                                      let (t, mutation) = swiss_erase (w_index w) key;
                                          w = w\<lparr> w_index := t \<rparr>
                                      in if mr_previous mutation \<noteq> Some ex
                                         then (fst (mark_live_at w q ex), Some (fail Unavailable))
                                         else
                                           let segment = w_active w
                                           in (maybe_retire w q,
                                               Some (Inr \<lparr> pub_record = ref, pub_segment = segment,
                                                           pub_opcode = opcode_erase \<rparr>)))))))"

definition put_locked :: "worker_env \<Rightarrow> worker \<Rightarrow> hashed_key \<Rightarrow> bytes \<Rightarrow> u64 \<Rightarrow> worker \<times> status option" where
  "put_locked ev w key val expire_at_ns =
     (let (w, published) = put_locked_published ev w key val expire_at_ns
      in (w, map_option (\<lambda>r. bind_result r (\<lambda>_. ok)) published))"

definition erase_locked :: "worker_env \<Rightarrow> worker \<Rightarrow> hashed_key \<Rightarrow> worker \<times> status option" where
  "erase_locked ev w key =
     (let (w, published) = erase_locked_published ev w key
      in (w, map_option (\<lambda>r. bind_result r (\<lambda>_. ok)) published))"

definition get_locked ::
  "worker_env \<Rightarrow> worker \<Rightarrow> hashed_key \<Rightarrow> u64 \<Rightarrow> worker \<times> record_view result option" where
  "get_locked ev w key now_ns =
     (let (t, ref) = swiss_find (w_index w) key;
          w = w\<lparr> w_index := t \<rparr>
      in case ref of
           None \<Rightarrow> (w, Some (fail Not_found))
         | Some ref \<Rightarrow>
             (case read_ref w ref of
                Inl e \<Rightarrow> (w, Some (Inl e))
              | Inr view \<Rightarrow>
                  if rv_opcode view = opcode_erase then (w, Some (fail Not_found))
                  else if expired view now_ns then
                    (case erase_locked ev w key of
                       (w, None) \<Rightarrow> (w, None)
                     | (w, Some (Inl e)) \<Rightarrow> (w, Some (Inl e))
                     | (w, Some (Inr _)) \<Rightarrow> (w, Some (fail Not_found)))
                  else (w, Some (Inr view))))"

text \<open>
  The public operations take the Worker's mutex from start to end, so each is one step here, and
  \<open>set_exclusive_writer\<close>.
\<close>

definition worker_get ::
  "worker_env \<Rightarrow> worker \<Rightarrow> hashed_key \<Rightarrow> u64 \<Rightarrow> worker \<times> record_view result option" where
  "worker_get ev w key now_ns = get_locked ev w key now_ns"

definition worker_put :: "worker_env \<Rightarrow> worker \<Rightarrow> hashed_key \<Rightarrow> bytes \<Rightarrow> u64 \<Rightarrow> worker \<times> status option" where
  "worker_put ev w key val expire_at_ns = put_locked ev w key val expire_at_ns"

definition worker_erase :: "worker_env \<Rightarrow> worker \<Rightarrow> hashed_key \<Rightarrow> worker \<times> status option" where
  "worker_erase ev w key = erase_locked ev w key"

definition set_exclusive_writer :: "worker \<Rightarrow> bool \<Rightarrow> worker" where
  "set_exclusive_writer w exclusive = w\<lparr> w_exclusive_writer := exclusive \<rparr>"

end
