(* ===== verification/Worker_Inv.thy ===== *)
theory Worker_Inv
  imports Worker
begin

text \<open>
  The invariant of a Worker.  Its segments are catalogued under their ids and carry its own id as
  owner, one of them is active and the others are sealed; each index entry refers to a put record
  of its key in an owned segment; the live counters of a segment count the index entries that
  refer to it.
\<close>

section \<open>Records in a segment\<close>

definition holds :: "segment \<Rightarrow> record_ref \<Rightarrow> record_input \<Rightarrow> bool" where
  "holds s ref i \<longleftrightarrow> (\<exists>log k. seg_log s log \<and> k < length log \<and> ref = log_refs s 4096 log ! k \<and> i = log ! k)"

lemma view_of_inj: "view_of i = view_of j \<Longrightarrow> i = j"
  by (metis input_of_view_of)

lemma holds_read:
  assumes "holds s ref i"
  shows "segment_read s ref = Inr (view_of i)" "validate_ref_extent s ref = ok" "rr_segment_id ref = seg_id s"
    "rec_ok i" "rr_size ref = of_nat (rec_size i)"
proof -
  obtain log k where a: "seg_log s log" "k < length log" "ref = log_refs s 4096 log ! k" "i = log ! k"
    using assms unfolding holds_def by blast
  show "segment_read s ref = Inr (view_of i)" "validate_ref_extent s ref = ok"
    using read_log_ref [OF a(1,2)] a(3,4) by simp_all
  show "rr_segment_id ref = seg_id s" "rr_size ref = of_nat (rec_size i)"
    unfolding a(3,4) by (simp_all add: log_refs_nth [OF a(2)] log_ref_def)
  show "rec_ok i" using a by (simp add: seg_log_def list_all_length)
qed

lemma holds_fun: "holds s ref i \<Longrightarrow> holds s ref j \<Longrightarrow> i = j"
  using holds_read(1) [of s ref i] holds_read(1) [of s ref j] view_of_inj by simp

lemma seg_log_unique:
  assumes "seg_log s l" "seg_log s l'"
  shows "l = l'"
proof -
  have e: "log_refs s 4096 l = log_refs s 4096 l'" using scan_log [OF assms(1)] scan_log [OF assms(2)] by simp
  then have len: "length l = length l'" by (metis length_log_refs)
  show ?thesis
  proof (rule nth_equalityI [OF len])
    fix k assume k: "k < length l"
    have "Inr (view_of (l ! k)) = (Inr (view_of (l' ! k)) :: record_view result)"
      using read_log_ref(1) [OF assms(1) k] read_log_ref(1) [OF assms(2), of k] e len k by simp
    then show "l ! k = l' ! k" using view_of_inj by simp
  qed
qed

text \<open>A segment that keeps its identity and its records.\<close>

definition extends :: "segment \<Rightarrow> segment \<Rightarrow> bool" where
  "extends s s' \<longleftrightarrow> seg_id s' = seg_id s \<and> seg_owner s' = seg_owner s
     \<and> ((\<exists>log. seg_log s log) \<longrightarrow> (\<exists>log. seg_log s' log)) \<and> (\<forall>ref i. holds s ref i \<longrightarrow> holds s' ref i)"

lemma extends_refl [simp]: "extends s s"
  by (simp add: extends_def)

lemma extends_trans: "extends s s' \<Longrightarrow> extends s' s'' \<Longrightarrow> extends s s''"
  by (simp add: extends_def)

lemma extends_same_log:
  assumes "seg_id s' = seg_id s" "seg_owner s' = seg_owner s" "seg_generation s' = seg_generation s"
    and "\<And>log. seg_log s log \<Longrightarrow> seg_log s' log"
  shows "extends s s'"
  unfolding extends_def
proof (intro conjI allI impI)
  fix ref i assume "holds s ref i"
  then obtain log k where a: "seg_log s log" "k < length log" "ref = log_refs s 4096 log ! k" "i = log ! k"
    unfolding holds_def by blast
  then have "seg_log s' log" "ref = log_refs s' 4096 log ! k"
    using assms(4) log_refs_cong [OF assms(1,3), of 4096 log] by simp_all
  then show "holds s' ref i" using a unfolding holds_def by blast
qed (use assms in auto)

lemma extends_seal: "extends s (s\<lparr> seg_state := st \<rparr>)"
  by (rule extends_same_log) (simp_all add: seg_log_def)

lemma extends_mark_live: "extends s (fst (segment_mark_live s ref))"
  by (rule extends_same_log) (auto simp: segment_mark_live_def Let_def seg_log_def split: sum.split)

lemma extends_mark_dead: "extends s (fst (segment_mark_dead s ref))"
  by (rule extends_same_log) (auto simp: segment_mark_dead_def Let_def seg_log_def split: sum.split)

lemma append_keeps:
  "seg_id (fst (segment_append d s i)) = seg_id s" "seg_owner (fst (segment_append d s i)) = seg_owner s"
  "seg_state (fst (segment_append d s i)) = seg_state s" "seg_generation (fst (segment_append d s i)) = seg_generation s"
  "ss_live_records (seg_stats (fst (segment_append d s i))) = ss_live_records (seg_stats s)"
  "ss_live_bytes (seg_stats (fst (segment_append d s i))) = ss_live_bytes (seg_stats s)"
  by (auto simp: segment_append_def Let_def split: sum.split prod.split)

lemma mark_live_keeps:
  "seg_id (fst (segment_mark_live s r)) = seg_id s" "seg_owner (fst (segment_mark_live s r)) = seg_owner s"
  "seg_state (fst (segment_mark_live s r)) = seg_state s"
  by (auto simp: segment_mark_live_def Let_def split: sum.split)

lemma mark_dead_keeps:
  "seg_id (fst (segment_mark_dead s r)) = seg_id s" "seg_owner (fst (segment_mark_dead s r)) = seg_owner s"
  "seg_state (fst (segment_mark_dead s r)) = seg_state s"
  by (auto simp: segment_mark_dead_def Let_def split: sum.split)

lemma append_extends:
  assumes "seg_log s log" "segment_append d s i = (s', res)"
  shows "extends s s'" "res = Inr ref \<Longrightarrow> holds s' ref i" "\<exists>log. seg_log s' log"
proof -
  consider (err) e where "res = Inl e" | (fine) r where "res = Inr r" by (cases res)
  then have "extends s s' \<and> (\<forall>ref. res = Inr ref \<longrightarrow> holds s' ref i) \<and> (\<exists>log. seg_log s' log)"
  proof cases
    case err
    then have "s' = s" using segment_append_fails [OF assms(1) assms(2) [unfolded err]] by blast
    then show ?thesis using assms(1) err by auto
  next
    case fine
    note app = segment_append_log [OF assms(1) assms(2) [unfolded fine]]
    have new: "holds s' r i"
      unfolding holds_def by (intro exI [of _ "log @ [i]"] exI [of _ "length log"]) (simp add: app nth_append)
    have "holds s' ref j" if h: "holds s ref j" for ref j
    proof -
      obtain k where k: "k < length log" "ref = log_refs s 4096 log ! k" "j = log ! k"
        using h seg_log_unique [OF assms(1)] unfolding holds_def by blast
      then show ?thesis
        unfolding holds_def
        by (intro exI [of _ "log @ [i]"] exI [of _ k]) (simp add: app nth_append)
    qed
    moreover have "seg_id s' = seg_id s" "seg_owner s' = seg_owner s"
      using append_keeps(1,2) [of d s i] assms(2) by simp_all
    ultimately show ?thesis using app(1) new fine by (auto simp: extends_def)
  qed
  then show "extends s s'" "res = Inr ref \<Longrightarrow> holds s' ref i" "\<exists>log. seg_log s' log" by blast+
qed

section \<open>The invariant\<close>

definition owns :: "worker \<Rightarrow> bool" where
  "owns w \<longleftrightarrow>
     distinct (w_owned w) \<and> distinct (map fst (w_owned_by_id w))
   \<and> (\<forall>sid p. map_of (w_owned_by_id w) sid = Some p \<longleftrightarrow> p \<in> set (w_owned w) \<and> seg_id (seg_at w p) = sid)
   \<and> (\<forall>p \<in> set (w_owned w). map_of (gm_catalog (w_manager w)) (seg_id (seg_at w p)) = Some p
        \<and> seg_owner (seg_at w p) = w_id w \<and> (\<exists>log. seg_log (seg_at w p) log)
        \<and> seg_state (seg_at w p) = (if p = w_active w then Seg_active else Seg_sealed))
   \<and> w_active w \<in> set (w_owned w)"

definition refers :: "worker \<Rightarrow> (bytes \<Rightarrow> record_ref option) \<Rightarrow> bool" where
  "refers w f \<longleftrightarrow>
     (\<forall>k ref. f k = Some ref \<longrightarrow>
        (\<exists>p \<in> set (w_owned w). \<exists>i. holds (seg_at w p) ref i \<and> ri_key i = k \<and> ri_opcode i = opcode_put))"

definition live_keys :: "(bytes \<Rightarrow> record_ref option) \<Rightarrow> u64 \<Rightarrow> bytes set" where
  "live_keys f sid = {k. \<exists>ref. f k = Some ref \<and> rr_segment_id ref = sid}"

definition live_size :: "(bytes \<Rightarrow> record_ref option) \<Rightarrow> u64 \<Rightarrow> nat" where
  "live_size f sid = (\<Sum>k \<in> live_keys f sid. unat (rr_size (the (f k))))"

definition counted :: "worker \<Rightarrow> (u64 \<Rightarrow> nat) \<Rightarrow> (u64 \<Rightarrow> nat) \<Rightarrow> bool" where
  "counted w c b \<longleftrightarrow>
     (\<forall>p \<in> set (w_owned w). unat (ss_live_records (seg_stats (seg_at w p))) = c (seg_id (seg_at w p))
        \<and> unat (ss_live_bytes (seg_stats (seg_at w p))) = b (seg_id (seg_at w p)))"

definition accounts :: "worker \<Rightarrow> (bytes \<Rightarrow> record_ref option) \<Rightarrow> bool" where
  "accounts w f \<longleftrightarrow> counted w (\<lambda>sid. card (live_keys f sid)) (live_size f)"

definition base :: "worker \<Rightarrow> bool" where
  "base w \<longleftrightarrow> gm_inv (w_heap w) (w_manager w) \<and> table_inv (w_index w) \<and> owns w"

definition worker_inv :: "worker \<Rightarrow> bool" where
  "worker_inv w \<longleftrightarrow> base w \<and> refers w (tab (w_index w)) \<and> accounts w (tab (w_index w))"

lemma owned_lookup: "owns w \<Longrightarrow> map_of (w_owned_by_id w) sid = Some p \<longleftrightarrow> p \<in> set (w_owned w) \<and> seg_id (seg_at w p) = sid"
  by (simp add: owns_def)

lemma ownedD:
  assumes "owns w" "p \<in> set (w_owned w)"
  shows "map_of (gm_catalog (w_manager w)) (seg_id (seg_at w p)) = Some p" "seg_owner (seg_at w p) = w_id w"
    "\<exists>log. seg_log (seg_at w p) log" "seg_state (seg_at w p) = (if p = w_active w then Seg_active else Seg_sealed)"
    "find_owned_segment w (seg_id (seg_at w p)) = Some p"
  using assms by (simp_all add: owns_def find_owned_segment_def)

lemma base_mem:
  assumes "base w" "p \<in> set (w_owned w)"
  shows "hp_mem (w_heap w) p = Some (seg_at w p)" "p < hp_next (w_heap w)" "seg_id (seg_at w p) < gm_next_id (w_manager w)"
proof -
  have "map_of (gm_catalog (w_manager w)) (seg_id (seg_at w p)) = Some p"
    using assms ownedD(1) by (simp add: base_def)
  then obtain s where "hp_mem (w_heap w) p = Some s" "p < hp_next (w_heap w)" "seg_id (seg_at w p) < gm_next_id (w_manager w)"
    using assms(1) unfolding base_def gm_inv_def by blast
  then show "hp_mem (w_heap w) p = Some (seg_at w p)" "p < hp_next (w_heap w)" "seg_id (seg_at w p) < gm_next_id (w_manager w)"
    by (simp_all add: deref_def)
qed

lemma owned_id_inj:
  assumes "owns w" "p \<in> set (w_owned w)" "q \<in> set (w_owned w)" "seg_id (seg_at w p) = seg_id (seg_at w q)"
  shows "p = q"
  using ownedD(5) [OF assms(1,2)] ownedD(5) [OF assms(1,3)] assms(4) by (metis option.inject)

lemma referred:
  assumes "owns w" "refers w f" "f k = Some ref"
  obtains p i where "p \<in> set (w_owned w)" "holds (seg_at w p) ref i" "ri_key i = k" "ri_opcode i = opcode_put"
    "find_owned_segment w (rr_segment_id ref) = Some p" "rr_segment_id ref = seg_id (seg_at w p)"
proof -
  obtain p i where a: "p \<in> set (w_owned w)" "holds (seg_at w p) ref i" "ri_key i = k" "ri_opcode i = opcode_put"
    using assms(2,3) unfolding refers_def by blast
  show thesis
    by (rule that [OF a _ holds_read(3) [OF a(2)]]) (simp add: holds_read(3) [OF a(2)] ownedD(5) [OF assms(1) a(1)])
qed

section \<open>Bounds on the live counters\<close>

text \<open>The entries that refer to one segment, each to a record of its key.\<close>

definition refers_into :: "segment \<Rightarrow> (bytes \<Rightarrow> record_ref option) \<Rightarrow> bool" where
  "refers_into s f \<longleftrightarrow> (\<forall>k ref. f k = Some ref \<longrightarrow> rr_segment_id ref = seg_id s \<longrightarrow> (\<exists>i. holds s ref i \<and> ri_key i = k))"

lemma refers_into_owned:
  assumes "owns w" "refers w f" "p \<in> set (w_owned w)"
  shows "refers_into (seg_at w p) f"
  unfolding refers_into_def
proof (intro allI impI)
  fix k ref assume ref: "f k = Some ref" "rr_segment_id ref = seg_id (seg_at w p)"
  obtain q i where q: "q \<in> set (w_owned w)" "holds (seg_at w q) ref i" "ri_key i = k"
    "rr_segment_id ref = seg_id (seg_at w q)" using referred [OF assms(1,2) ref(1)] by blast
  have "q = p" by (rule owned_id_inj [OF assms(1) q(1) assms(3)]) (use q(4) ref(2) in simp)
  then show "\<exists>i. holds (seg_at w p) ref i \<and> ri_key i = k" using q by blast
qed

lemma live_keys_inj:
  assumes "refers_into s f"
  shows "inj_on (\<lambda>k. the (f k)) (live_keys f (seg_id s))"
    "seg_log s log \<Longrightarrow> (\<lambda>k. the (f k)) ` live_keys f (seg_id s) \<subseteq> set (log_refs s 4096 log)"
proof -
  have at: "\<exists>i. holds s (the (f k)) i \<and> ri_key i = k" if "k \<in> live_keys f (seg_id s)" for k
    using that assms by (auto simp: live_keys_def refers_into_def)
  show "inj_on (\<lambda>k. the (f k)) (live_keys f (seg_id s))"
  proof (rule inj_onI)
    fix k l assume "k \<in> live_keys f (seg_id s)" "l \<in> live_keys f (seg_id s)" "the (f k) = the (f l)"
    then show "k = l" using at [of k] at [of l] holds_fun by metis
  qed
  assume log: "seg_log s log"
  show "(\<lambda>k. the (f k)) ` live_keys f (seg_id s) \<subseteq> set (log_refs s 4096 log)"
  proof (rule image_subsetI)
    fix k assume "k \<in> live_keys f (seg_id s)"
    then obtain l j where "seg_log s l" "j < length l" "the (f k) = log_refs s 4096 l ! j"
      using at unfolding holds_def by blast
    then show "the (f k) \<in> set (log_refs s 4096 log)" using seg_log_unique [OF log] by auto
  qed
qed

lemma sum_set_le: "(\<Sum>x \<in> set xs. f x) \<le> sum_list (map f xs)" for f :: "'a \<Rightarrow> nat"
  by (induction xs) (auto simp: insert_absorb sum.insert_if)

lemma log_refs_size: "list_all rec_ok log \<Longrightarrow> map (\<lambda>r. unat (rr_size r)) (log_refs s off log) = map rec_size log"
  by (induction log arbitrary: off) (simp_all add: log_ref_def unat_rec_size)

lemma live_bounds_into:
  assumes "refers_into s f" "seg_log s log"
  shows "card (live_keys f (seg_id s)) \<le> 67108864" "live_size f (seg_id s) \<le> 67108864"
    "finite (live_keys f (seg_id s))"
proof -
  let ?K = "live_keys f (seg_id s)" and ?R = "set (log_refs s 4096 log)"
  note inj = live_keys_inj(1) [OF assms(1)] and sub = live_keys_inj(2) [OF assms]
  have total: "list_all rec_ok log" "sum_list (map rec_size log) \<le> 67108864" using assms(2) by (simp_all add: seg_log_def)
  show "finite ?K" using finite_imageD [OF finite_subset [OF sub] inj] by simp
  have "card ?K \<le> card ?R" by (rule card_inj_on_le [OF inj sub]) simp
  also have "\<dots> \<le> length log" using card_length [of "log_refs s 4096 log"] by simp
  finally show "card ?K \<le> 67108864" using log_length_bound [OF total(1)] total(2) by linarith
  have "live_size f (seg_id s) = (\<Sum>r \<in> (\<lambda>k. the (f k)) ` ?K. unat (rr_size r))"
    by (simp add: live_size_def sum.reindex [OF inj])
  also have "\<dots> \<le> (\<Sum>r \<in> ?R. unat (rr_size r))" by (rule sum_mono2 [OF _ sub]) simp_all
  also have "\<dots> \<le> sum_list (map (\<lambda>r. unat (rr_size r)) (log_refs s 4096 log))" by (rule sum_set_le)
  finally show "live_size f (seg_id s) \<le> 67108864"
    using total(2) by (simp only: log_refs_size [OF total(1)])
qed

lemma live_bounds:
  assumes "owns w" "refers w f" "p \<in> set (w_owned w)"
  shows "card (live_keys f (seg_id (seg_at w p))) \<le> 67108864" "live_size f (seg_id (seg_at w p)) \<le> 67108864"
    "finite (live_keys f (seg_id (seg_at w p)))"
proof -
  obtain log where "seg_log (seg_at w p) log" using ownedD(3) [OF assms(1,3)] by blast
  note b = live_bounds_into [OF refers_into_owned [OF assms] this]
  show "card (live_keys f (seg_id (seg_at w p))) \<le> 67108864" "live_size f (seg_id (seg_at w p)) \<le> 67108864"
    "finite (live_keys f (seg_id (seg_at w p)))" by (fact b)+
qed

end
