(* ===== verification/Worker_Steps.thy ===== *)
theory Worker_Steps
  imports Worker_Inv
begin

text \<open>
  The effect of the Worker's internal operations on the invariant: writing to an owned segment,
  appending with rotation, retiring a segment without live records, and the live counters.
\<close>

section \<open>Writing to an owned segment\<close>

lemma seg_at_set_segment [simp]: "seg_at (set_segment w p s) q = (if q = p then s else seg_at w q)"
  by (simp add: set_segment_def assign_def deref_def)

lemma set_segment_fields [simp]:
  "w_manager (set_segment w p s) = w_manager w" "w_id (set_segment w p s) = w_id w"
  "w_index (set_segment w p s) = w_index w" "w_active (set_segment w p s) = w_active w"
  "w_next_sequence (set_segment w p s) = w_next_sequence w" "w_owned (set_segment w p s) = w_owned w"
  "w_owned_by_id (set_segment w p s) = w_owned_by_id w"
  "w_exclusive_writer (set_segment w p s) = w_exclusive_writer w"
  "w_index_quiesce_active (set_segment w p s) = w_index_quiesce_active w"
  by (simp_all add: set_segment_def)

lemma set_segment_same: "hp_mem (w_heap w) p = Some s \<Longrightarrow> set_segment w p s = w"
  by (simp add: set_segment_def assign_def fun_upd_idem)

text \<open>A change of the sequence counter or of the index statistics.\<close>

lemma owns_cong:
  assumes "w_heap w' = w_heap w" "w_manager w' = w_manager w" "w_id w' = w_id w" "w_active w' = w_active w"
    "w_owned w' = w_owned w" "w_owned_by_id w' = w_owned_by_id w"
  shows "owns w' = owns w" "refers w' f = refers w f" "counted w' c b = counted w c b" "accounts w' f = accounts w f"
    "read_ref w' ref = read_ref w ref" "find_owned_segment w' sid = find_owned_segment w sid"
  using assms by (simp_all add: owns_def refers_def counted_def accounts_def read_ref_def find_owned_segment_def
      cong: option.case_cong)

lemma owns_set_segment:
  assumes "owns w" "p \<in> set (w_owned w)" "extends (seg_at w p) s" "seg_state s = seg_state (seg_at w p)"
  shows "owns (set_segment w p s)"
proof -
  have e: "seg_id s = seg_id (seg_at w p)" "seg_owner s = seg_owner (seg_at w p)" "\<exists>log. seg_log s log"
    using assms ownedD(3) [OF assms(1,2)] by (auto simp: extends_def)
  have ids: "seg_id (seg_at (set_segment w p s) q) = seg_id (seg_at w q)" for q using e by simp
  show ?thesis
    unfolding owns_def ids
  proof (intro conjI ballI)
    fix q assume q: "q \<in> set (w_owned (set_segment w p s))"
    then have q': "q \<in> set (w_owned w)" by simp
    show "seg_state (seg_at (set_segment w p s) q) = (if q = w_active (set_segment w p s) then Seg_active else Seg_sealed)"
      using ownedD(4) [OF assms(1) q'] ownedD(4) [OF assms(1,2)] assms(4) by (auto split: if_splits)
    show "\<exists>log. seg_log (seg_at (set_segment w p s) q) log" using ownedD(3) [OF assms(1) q'] e by simp
    show "seg_owner (seg_at (set_segment w p s) q) = w_id (set_segment w p s)"
      using ownedD(2) [OF assms(1) q'] ownedD(2) [OF assms(1,2)] e by simp
    show "map_of (gm_catalog (w_manager (set_segment w p s))) (seg_id (seg_at w q)) = Some q"
      using ownedD(1) [OF assms(1) q'] by simp
  qed (use assms(1) in \<open>simp_all add: owns_def\<close>)
qed

lemma base_set_segment:
  assumes "base w" "p \<in> set (w_owned w)" "extends (seg_at w p) s" "seg_state s = seg_state (seg_at w p)"
  shows "base (set_segment w p s)"
proof -
  have o: "owns w" using assms(1) by (simp add: base_def)
  have "gm_inv (assign (w_heap w) p s) (w_manager w)"
    by (rule gm_inv_assign) (use assms base_mem(1) [OF assms(1,2)] ownedD(4) [OF o assms(2)] in
      \<open>auto simp: base_def extends_def\<close>)
  then show ?thesis using owns_set_segment [OF o assms(2-4)] assms(1) by (simp add: base_def) (simp add: set_segment_def)
qed

definition keeps :: "worker \<Rightarrow> worker \<Rightarrow> (bytes \<Rightarrow> record_ref option) \<Rightarrow> bool" where
  "keeps w w' f \<longleftrightarrow> (\<forall>k ref. f k = Some ref \<longrightarrow> read_ref w' ref = read_ref w ref
     \<and> find_owned_segment w' (rr_segment_id ref) = find_owned_segment w (rr_segment_id ref))"

lemma keeps_refl [simp]: "keeps w w f"
  by (simp add: keeps_def)

lemma keeps_trans: "keeps w w' f \<Longrightarrow> keeps w' w'' f \<Longrightarrow> keeps w w'' f"
  by (simp add: keeps_def)

lemma read_holds:
  assumes "owns w" "p \<in> set (w_owned w)" "holds (seg_at w p) ref i"
  shows "read_ref w ref = Inr (view_of i)"
  using holds_read(1,3) [OF assms(3)] ownedD(5) [OF assms(1,2)] by (simp add: read_ref_def)

lemma kept:
  assumes "owns w" "owns w'" "refers w f"
    and "\<And>k ref p. f k = Some ref \<Longrightarrow> p \<in> set (w_owned w) \<Longrightarrow> rr_segment_id ref = seg_id (seg_at w p) \<Longrightarrow>
           p \<in> set (w_owned w') \<and> extends (seg_at w p) (seg_at w' p)"
  shows "refers w' f \<and> keeps w w' f"
proof -
  have step: "\<exists>p i. p \<in> set (w_owned w') \<and> holds (seg_at w' p) ref i \<and> ri_key i = k \<and> ri_opcode i = opcode_put
      \<and> read_ref w' ref = read_ref w ref
      \<and> find_owned_segment w' (rr_segment_id ref) = find_owned_segment w (rr_segment_id ref)" if fk: "f k = Some ref" for k ref
  proof -
    obtain p i where p: "p \<in> set (w_owned w)" "holds (seg_at w p) ref i" "ri_key i = k" "ri_opcode i = opcode_put"
      "rr_segment_id ref = seg_id (seg_at w p)" by (rule referred [OF assms(1,3) fk])
    from assms(4) [OF fk p(1,5)] have q: "p \<in> set (w_owned w')" "holds (seg_at w' p) ref i"
      using p(2) by (auto simp: extends_def)
    have "find_owned_segment w' (rr_segment_id ref) = find_owned_segment w (rr_segment_id ref)"
      using ownedD(5) [OF assms(1) p(1)] ownedD(5) [OF assms(2) q(1)] holds_read(3) [OF p(2)] holds_read(3) [OF q(2)]
      by simp
    then show ?thesis using p q read_holds [OF assms(1) p(1,2)] read_holds [OF assms(2) q] by auto
  qed
  show ?thesis unfolding refers_def keeps_def using step by blast
qed

section \<open>Appending to the active segment\<close>

lemma append_active_ok:
  assumes "base w" "refers w f" "counted w c b" "append_active ev w i = (w', res)"
  shows "base w' \<and> refers w' f \<and> keeps w w' f \<and> counted w' c b
    \<and> (\<forall>ref. res = Inr ref \<longrightarrow> holds (seg_at w' (w_active w)) ref i)
    \<and> (\<exists>s. w' = set_segment w (w_active w) s) \<and> (\<forall>e. res = Inl e \<longrightarrow> w' = w)"
proof -
  have o: "owns w" using assms(1) by (simp add: base_def)
  have act: "w_active w \<in> set (w_owned w)" using o by (simp add: owns_def)
  obtain s where s: "segment_append (ev_debug ev) (seg_at w (w_active w)) i = (s, res)" "w' = set_segment w (w_active w) s"
    using assms(4) by (auto simp: append_active_def split: prod.splits)
  obtain log where log: "seg_log (seg_at w (w_active w)) log" using ownedD(3) [OF o act] by blast
  note app = append_extends [OF log s(1)]
  have st: "seg_state s = seg_state (seg_at w (w_active w))" "ss_live_records (seg_stats s) = ss_live_records (seg_stats (seg_at w (w_active w)))"
    "ss_live_bytes (seg_stats s) = ss_live_bytes (seg_stats (seg_at w (w_active w)))" "seg_id s = seg_id (seg_at w (w_active w))"
    using append_keeps [of "ev_debug ev" "seg_at w (w_active w)" i] s(1) by simp_all
  have b': "base w'" unfolding s(2) by (rule base_set_segment [OF assms(1) act app(1) st(1)])
  then have "refers w' f \<and> keeps w w' f"
    by (intro kept [OF o _ assms(2)]) (use app(1) in \<open>auto simp: base_def s(2)\<close>)
  moreover have "counted w' c b" using assms(3) st by (auto simp: counted_def s(2))
  moreover have "w' = w" if e: "res = Inl e" for e
  proof -
    have "s = seg_at w (w_active w)" using segment_append_fails [OF log s(1) [unfolded e]] by blast
    then show ?thesis using set_segment_same [OF base_mem(1) [OF assms(1) act]] s(2) by simp
  qed
  ultimately show ?thesis using b' app(2) s(2) by auto
qed

section \<open>Retirement\<close>

definition retired :: "worker \<Rightarrow> ptr \<Rightarrow> worker" where
  "retired w p =
     w\<lparr> w_heap := assign (w_heap w) p ((seg_at w p)\<lparr> seg_state := Seg_retired \<rparr>),
        w_manager := (w_manager w)\<lparr> gm_catalog := AList.delete (seg_id (seg_at w p)) (gm_catalog (w_manager w)),
                                    gm_retired_count := gm_retired_count (w_manager w) + 1 \<rparr>,
        w_owned_by_id := AList.delete (seg_id (seg_at w p)) (w_owned_by_id w),
        w_owned := filter (\<lambda>q. q \<noteq> p) (w_owned w) \<rparr>"

lemma retired_fields [simp]:
  "w_id (retired w p) = w_id w" "w_index (retired w p) = w_index w" "w_active (retired w p) = w_active w"
  "w_next_sequence (retired w p) = w_next_sequence w" "w_exclusive_writer (retired w p) = w_exclusive_writer w"
  "w_index_quiesce_active (retired w p) = w_index_quiesce_active w"
  "w_owned (retired w p) = filter (\<lambda>q. q \<noteq> p) (w_owned w)"
  "w_owned_by_id (retired w p) = AList.delete (seg_id (seg_at w p)) (w_owned_by_id w)"
  "gm_catalog (w_manager (retired w p)) = AList.delete (seg_id (seg_at w p)) (gm_catalog (w_manager w))"
  "seg_at (retired w p) q = (if q = p then (seg_at w p)\<lparr> seg_state := Seg_retired \<rparr> else seg_at w q)"
  by (simp_all add: retired_def assign_def deref_def)

lemma maybe_retire_unfold:
  assumes "owns w" "p \<in> set (w_owned w)"
  shows "maybe_retire w p =
    (if seg_state (seg_at w p) = Seg_sealed \<and> ss_live_records (seg_stats (seg_at w p)) = 0 then retired w p else w)"
proof (cases "seg_state (seg_at w p) = Seg_sealed \<and> ss_live_records (seg_stats (seg_at w p)) = 0")
  case True
  have f: "filter (\<lambda>q. seg_id (deref (assign (w_heap w) p ((seg_at w p)\<lparr> seg_state := Seg_retired \<rparr>)) q) \<noteq> seg_id (seg_at w p)) (w_owned w)
      = filter (\<lambda>q. q \<noteq> p) (w_owned w)"
    by (rule filter_cong) (use owned_id_inj [OF assms(1) _ assms(2)] in \<open>auto simp: assign_def deref_def\<close>)
  show ?thesis
    using True ownedD(1) [OF assms] f
    by (simp add: maybe_retire_def try_retire_def segment_retire_def unregister_owned_segment_def retired_def Let_def)
qed (auto simp: maybe_retire_def Let_def)

lemma owns_retired:
  assumes "owns w" "p \<in> set (w_owned w)" "p \<noteq> w_active w"
  shows "owns (retired w p)"
  unfolding owns_def
proof (intro conjI ballI allI)
  fix sid q
  show "map_of (w_owned_by_id (retired w p)) sid = Some q \<longleftrightarrow>
      q \<in> set (w_owned (retired w p)) \<and> seg_id (seg_at (retired w p) q) = sid"
  proof (cases "sid = seg_id (seg_at w p)")
    case True
    then show ?thesis using owned_id_inj [OF assms(1) _ assms(2), of q] by (auto simp: AList.delete_conv')
  next
    case False
    then show ?thesis using owned_lookup [OF assms(1), of sid q] by (auto simp: AList.delete_conv')
  qed
next
  fix q assume "q \<in> set (w_owned (retired w p))"
  then have q: "q \<in> set (w_owned w)" "q \<noteq> p" by simp_all
  then have "seg_id (seg_at w q) \<noteq> seg_id (seg_at w p)" using owned_id_inj [OF assms(1) q(1) assms(2)] by blast
  then show "map_of (gm_catalog (w_manager (retired w p))) (seg_id (seg_at (retired w p) q)) = Some q"
    using q ownedD(1) [OF assms(1) q(1)] by (simp add: AList.delete_conv')
  show "seg_owner (seg_at (retired w p) q) = w_id (retired w p)" using q ownedD(2) [OF assms(1) q(1)] by simp
  show "\<exists>log. seg_log (seg_at (retired w p) q) log" using q ownedD(3) [OF assms(1) q(1)] by simp
  show "seg_state (seg_at (retired w p) q) = (if q = w_active (retired w p) then Seg_active else Seg_sealed)"
    using q ownedD(4) [OF assms(1) q(1)] by simp
qed (use assms in \<open>simp_all add: owns_def distinct_delete\<close>)

lemma maybe_retire_ok:
  assumes b: "base w" and r: "refers w f" and a: "accounts w f" and p: "p \<in> set (w_owned w)"
  shows "base (maybe_retire w p) \<and> refers (maybe_retire w p) f \<and> keeps w (maybe_retire w p) f \<and> accounts (maybe_retire w p) f"
proof (cases "seg_state (seg_at w p) = Seg_sealed \<and> ss_live_records (seg_stats (seg_at w p)) = 0")
  case True
  have o: "owns w" using b by (simp add: base_def)
  have eq: "maybe_retire w p = retired w p" using maybe_retire_unfold [OF o p] True by simp
  have "p \<noteq> w_active w" using ownedD(4) [OF o p] True by (auto split: if_splits)
  then have o': "owns (retired w p)" by (rule owns_retired [OF o p])
  have "try_retire (w_heap w) (w_manager w) (seg_id (seg_at w p)) = (w_heap (retired w p), w_manager (retired w p), ok)"
    using True ownedD(1) [OF o p] by (simp add: try_retire_def segment_retire_def retired_def)
  then have "gm_inv (w_heap (retired w p)) (w_manager (retired w p))"
    using try_retire_inv [of "w_heap w" "w_manager w"] b by (auto simp: base_def)
  then have b': "base (retired w p)" using o' b by (simp add: base_def)
  have "card (live_keys f (seg_id (seg_at w p))) = 0" using a p True by (auto simp: accounts_def counted_def)
  then have none: "live_keys f (seg_id (seg_at w p)) = {}" using live_bounds(3) [OF o r p] by simp
  have "refers (retired w p) f \<and> keeps w (retired w p) f"
  proof (rule kept [OF o o' r])
    fix k ref q assume "f k = Some ref" "q \<in> set (w_owned w)" "rr_segment_id ref = seg_id (seg_at w q)"
    then have "q \<noteq> p" using none by (auto simp: live_keys_def)
    then show "q \<in> set (w_owned (retired w p)) \<and> extends (seg_at w q) (seg_at (retired w p) q)"
      using \<open>q \<in> set (w_owned w)\<close> by simp
  qed
  moreover have "accounts (retired w p) f" using a by (auto simp: accounts_def counted_def)
  ultimately show ?thesis using b' by (simp add: eq)
next
  case False
  then have "maybe_retire w p = w" using maybe_retire_unfold [of w p] b p by (auto simp: base_def)
  then show ?thesis using b r a by simp
qed

lemma maybe_retire_fields:
  assumes "owns w" "p \<in> set (w_owned w)"
  shows "w_id (maybe_retire w p) = w_id w" "w_index (maybe_retire w p) = w_index w"
    "w_active (maybe_retire w p) = w_active w" "w_exclusive_writer (maybe_retire w p) = w_exclusive_writer w"
    "w_index_quiesce_active (maybe_retire w p) = w_index_quiesce_active w"
    "w_next_sequence (maybe_retire w p) = w_next_sequence w"
  by (simp_all add: maybe_retire_unfold [OF assms])

section \<open>Rotation\<close>

definition prepared :: "worker_env \<Rightarrow> worker \<Rightarrow> worker" where
  "prepared ev w =
     w\<lparr> w_heap := fst (make_shared (w_heap w) (make_segment (ev_uninit ev) (gm_next_id (w_manager w)) (w_id w) 1)),
        w_manager := (w_manager w)\<lparr> gm_next_id := gm_next_id (w_manager w) + 1 \<rparr> \<rparr>"

lemma prepared_fields [simp]:
  "w_id (prepared ev w) = w_id w" "w_index (prepared ev w) = w_index w" "w_active (prepared ev w) = w_active w"
  "w_next_sequence (prepared ev w) = w_next_sequence w" "w_exclusive_writer (prepared ev w) = w_exclusive_writer w"
  "w_index_quiesce_active (prepared ev w) = w_index_quiesce_active w" "w_owned (prepared ev w) = w_owned w"
  "w_owned_by_id (prepared ev w) = w_owned_by_id w"
  "gm_catalog (w_manager (prepared ev w)) = gm_catalog (w_manager w)"
  "gm_next_id (w_manager (prepared ev w)) = gm_next_id (w_manager w) + 1"
  "seg_at (prepared ev w) q =
     (if q = hp_next (w_heap w) then make_segment (ev_uninit ev) (gm_next_id (w_manager w)) (w_id w) 1 else seg_at w q)"
  by (simp_all add: prepared_def make_shared_def deref_def)

lemma owned_not_fresh:
  assumes "base w" "p \<in> set (w_owned w)"
  shows "p \<noteq> hp_next (w_heap w)" "seg_id (seg_at w p) \<noteq> gm_next_id (w_manager w)"
  using base_mem(2,3) [OF assms] by auto

lemma prepared_ok:
  assumes "base w" "refers w f" "counted w c b" "gm_next_id (w_manager w) \<noteq> - 1"
  shows "base (prepared ev w) \<and> refers (prepared ev w) f \<and> keeps w (prepared ev w) f \<and> counted (prepared ev w) c b"
proof -
  have o: "owns w" using assms(1) by (simp add: base_def)
  note nf = owned_not_fresh [OF assms(1)]
  have at: "seg_at (prepared ev w) p = seg_at w p" if "p \<in> set (w_owned w)" for p using nf(1) [OF that] by simp
  have "gm_inv (fst (make_shared (w_heap w) s)) (w_manager w)" for s
    unfolding gm_inv_wf by (rule make_shared_inv(1)) (use assms(1) in \<open>auto simp: base_def gm_inv_wf make_shared_def\<close>)
  then have gm: "gm_inv (w_heap (prepared ev w)) (w_manager (prepared ev w))"
    using gm_inv_next assms(4) by (simp add: prepared_def)
  have "owns (prepared ev w)"
    unfolding owns_def
  proof (intro conjI ballI allI)
    fix sid p
    show "map_of (w_owned_by_id (prepared ev w)) sid = Some p \<longleftrightarrow>
        p \<in> set (w_owned (prepared ev w)) \<and> seg_id (seg_at (prepared ev w) p) = sid"
      using owned_lookup [OF o, of sid p] nf(1) by auto
  qed (use ownedD [OF o] at o in \<open>simp_all add: owns_def\<close>)
  then have b': "base (prepared ev w)" using gm assms(1) by (simp add: base_def)
  then have "refers (prepared ev w) f \<and> keeps w (prepared ev w) f"
    by (intro kept [OF o _ assms(2)]) (use at in \<open>simp_all add: base_def\<close>)
  moreover have "counted (prepared ev w) c b" using assms(3) at by (simp add: counted_def)
  ultimately show ?thesis using b' by simp
qed

definition rotated :: "worker_env \<Rightarrow> worker \<Rightarrow> worker" where
  "rotated ev w =
     (let w1 = prepared ev w; r = hp_next (w_heap w); sid = gm_next_id (w_manager w)
      in w1\<lparr> w_heap := assign (w_heap w1) (w_active w) ((seg_at w (w_active w))\<lparr> seg_state := Seg_sealed \<rparr>),
             w_manager := (w_manager w1)\<lparr> gm_catalog := AList.update sid r (gm_catalog (w_manager w)) \<rparr>,
             w_owned := w_owned w @ [r], w_owned_by_id := AList.update sid r (w_owned_by_id w), w_active := r \<rparr>)"

lemma rotated_fields [simp]:
  "w_id (rotated ev w) = w_id w" "w_index (rotated ev w) = w_index w" "w_active (rotated ev w) = hp_next (w_heap w)"
  "w_next_sequence (rotated ev w) = w_next_sequence w" "w_exclusive_writer (rotated ev w) = w_exclusive_writer w"
  "w_index_quiesce_active (rotated ev w) = w_index_quiesce_active w"
  "w_owned (rotated ev w) = w_owned w @ [hp_next (w_heap w)]"
  "w_owned_by_id (rotated ev w) = AList.update (gm_next_id (w_manager w)) (hp_next (w_heap w)) (w_owned_by_id w)"
  "gm_catalog (w_manager (rotated ev w)) = AList.update (gm_next_id (w_manager w)) (hp_next (w_heap w)) (gm_catalog (w_manager w))"
  "seg_at (rotated ev w) q = (if q = w_active w then (seg_at w (w_active w))\<lparr> seg_state := Seg_sealed \<rparr>
     else if q = hp_next (w_heap w) then make_segment (ev_uninit ev) (gm_next_id (w_manager w)) (w_id w) 1 else seg_at w q)"
  by (simp_all add: rotated_def Let_def assign_def deref_def) (simp_all add: prepared_def make_shared_def deref_def)

lemma make_segment_fields [simp]:
  "seg_id (make_segment u i w g) = i" "seg_owner (make_segment u i w g) = w" "seg_state (make_segment u i w g) = Seg_active"
  "ss_live_records (seg_stats (make_segment u i w g)) = 0" "ss_live_bytes (seg_stats (make_segment u i w g)) = 0"
  by (simp_all add: make_segment_def)

lemma catalog_fresh: "base w \<Longrightarrow> map_of (gm_catalog (w_manager w)) (gm_next_id (w_manager w)) = None"
  unfolding base_def gm_inv_def by (metis option.exhaust order_less_irrefl)

lemma owned_by_id_fresh: "base w \<Longrightarrow> map_of (w_owned_by_id w) (gm_next_id (w_manager w)) = None"
  using owned_not_fresh(2) [of w] owned_lookup [of w "gm_next_id (w_manager w)"]
  by (auto simp: base_def intro: ccontr)

lemma owns_rotated:
  assumes "base w"
  shows "owns (rotated ev w)"
proof -
  have o: "owns w" using assms(1) by (simp add: base_def)
  let ?r = "hp_next (w_heap w)" and ?n = "gm_next_id (w_manager w)"
  have act: "w_active w \<in> set (w_owned w)" using o by (simp add: owns_def)
  note nf = owned_not_fresh [OF assms(1)]
  have ids: "seg_id (seg_at (rotated ev w) p) = (if p = ?r then ?n else seg_id (seg_at w p))" for p
    using nf(1) [OF act] by simp
  show ?thesis
    unfolding owns_def ids
  proof (intro conjI ballI allI)
    fix sid p
    show "map_of (w_owned_by_id (rotated ev w)) sid = Some p \<longleftrightarrow>
        p \<in> set (w_owned (rotated ev w)) \<and> (if p = ?r then ?n else seg_id (seg_at w p)) = sid"
      using owned_lookup [OF o, of sid p] nf [of p] by (auto simp: AList.update_conv')
  next
    fix p assume "p \<in> set (w_owned (rotated ev w))"
    then consider (new) "p = ?r" | (old) "p \<in> set (w_owned w)" "p \<noteq> ?r" using nf(1) by auto
    then have "map_of (gm_catalog (w_manager (rotated ev w))) (if p = ?r then ?n else seg_id (seg_at w p)) = Some p
        \<and> seg_owner (seg_at (rotated ev w) p) = w_id (rotated ev w) \<and> (\<exists>log. seg_log (seg_at (rotated ev w) p) log)
        \<and> seg_state (seg_at (rotated ev w) p) = (if p = w_active (rotated ev w) then Seg_active else Seg_sealed)"
    proof cases
      case new
      have "\<exists>log. seg_log (make_segment (ev_uninit ev) ?n (w_id w) 1) log" using make_segment_log by blast
      then show ?thesis using new nf(1) [OF act] by (simp add: AList.update_conv')
    next
      case old
      have "extends (seg_at w (w_active w)) ((seg_at w (w_active w))\<lparr> seg_state := Seg_sealed \<rparr>)" by (rule extends_seal)
      then have "\<exists>log. seg_log ((seg_at w (w_active w))\<lparr> seg_state := Seg_sealed \<rparr>) log"
        using ownedD(3) [OF o act] by (simp add: extends_def)
      then show ?thesis using old nf(2) [OF old(1)] ownedD [OF o old(1)] by (auto simp: AList.update_conv')
    qed
    then show "map_of (gm_catalog (w_manager (rotated ev w))) (if p = ?r then ?n else seg_id (seg_at w p)) = Some p"
      "seg_owner (seg_at (rotated ev w) p) = w_id (rotated ev w)" "\<exists>log. seg_log (seg_at (rotated ev w) p) log"
      "seg_state (seg_at (rotated ev w) p) = (if p = w_active (rotated ev w) then Seg_active else Seg_sealed)"
      by blast+
  qed (use o nf(1) in \<open>auto simp: owns_def distinct_update\<close>)
qed

lemma commit_prepared:
  assumes "base w"
  shows "commit_rotation (w_heap (prepared ev w)) (w_manager (prepared ev w)) (Some (w_active w)) (Some (hp_next (w_heap w)))
    = (w_heap (rotated ev w), w_manager (rotated ev w), ok)"
proof -
  have o: "owns w" using assms(1) by (simp add: base_def)
  have act: "w_active w \<in> set (w_owned w)" using o by (simp add: owns_def)
  note nf = owned_not_fresh [OF assms(1) act]
  have d: "deref (w_heap (prepared ev w)) (w_active w) = seg_at w (w_active w)"
    "deref (w_heap (prepared ev w)) (hp_next (w_heap w)) = make_segment (ev_uninit ev) (gm_next_id (w_manager w)) (w_id w) 1"
    using nf(1) by simp_all
  show ?thesis
    using ownedD(1,2,4) [OF o act] catalog_fresh [OF assms(1)]
    by (simp add: commit_rotation_def d segment_seal_def register_segment_def rotated_def Let_def nf(1)
        not_sym [OF nf(1)])
qed

lemma rotated_ok:
  assumes b: "base w" "refers w f" "counted w c bs" "gm_next_id (w_manager w) \<noteq> - 1"
    and zero: "c (gm_next_id (w_manager w)) = 0" "bs (gm_next_id (w_manager w)) = 0"
  shows "base (rotated ev w) \<and> refers (rotated ev w) f \<and> keeps w (rotated ev w) f \<and> counted (rotated ev w) c bs"
proof -
  have o: "owns w" and o': "owns (rotated ev w)" using b(1) owns_rotated by (simp_all add: base_def)
  note nf = owned_not_fresh [OF b(1)]
  have "base (prepared ev w)" using prepared_ok [OF b] by blast
  moreover have "issued (w_heap (prepared ev w)) (w_manager (prepared ev w)) (hp_next (w_heap w))"
    using next_id_grows(2) [OF b(4)] by (simp add: issued_def prepared_def make_shared_def)
  ultimately have "gm_inv (w_heap (rotated ev w)) (w_manager (rotated ev w))"
    using commit_rotation_inv [OF _ _ commit_prepared [OF b(1), of ev]] by (simp add: base_def)
  then have "base (rotated ev w)" using o' b(1) by (simp add: base_def)
  moreover have "refers (rotated ev w) f \<and> keeps w (rotated ev w) f"
    by (rule kept [OF o o' b(2)]) (use nf(1) extends_seal in auto)
  moreover have "counted (rotated ev w) c bs"
    unfolding counted_def
  proof
    fix p assume "p \<in> set (w_owned (rotated ev w))"
    then consider (new) "p = hp_next (w_heap w)" "p \<noteq> w_active w" | (old) "p \<in> set (w_owned w)" "p \<noteq> hp_next (w_heap w)"
      using nf(1) [of p] nf(1) [of "w_active w"] o by (cases "p = hp_next (w_heap w)") (auto simp: owns_def)
    then show "unat (ss_live_records (seg_stats (seg_at (rotated ev w) p))) = c (seg_id (seg_at (rotated ev w) p))
        \<and> unat (ss_live_bytes (seg_stats (seg_at (rotated ev w) p))) = bs (seg_id (seg_at (rotated ev w) p))"
      using b(3) zero by cases (auto simp: counted_def)
  qed
  ultimately show ?thesis by blast
qed

section \<open>Appending with rotation\<close>

lemma register_prepared:
  assumes "base w"
  shows "register_owned_segment (prepared ev w) (hp_next (w_heap w))
    = ((prepared ev w)\<lparr> w_owned := w_owned w @ [hp_next (w_heap w)],
         w_owned_by_id := AList.update (gm_next_id (w_manager w)) (hp_next (w_heap w)) (w_owned_by_id w) \<rparr>, Some ())"
  using owned_by_id_fresh [OF assms] by (simp add: register_owned_segment_def Let_def)

lemma delete_update_fresh: "map_of al k = None \<Longrightarrow> AList.delete k (AList.update k v al) = al"
proof (induction al)
  case (Cons a al)
  then show ?case by (cases a) (auto simp: AList.delete_eq split: if_splits)
qed (simp add: AList.delete_eq)

lemma unregister_registered:
  assumes "base w"
  shows "unregister_owned_segment ((prepared ev w)\<lparr> w_owned := w_owned w @ [hp_next (w_heap w)],
      w_owned_by_id := AList.update (gm_next_id (w_manager w)) (hp_next (w_heap w)) (w_owned_by_id w) \<rparr>)
      (gm_next_id (w_manager w)) = prepared ev w"
proof -
  have "filter (\<lambda>p. seg_id (seg_at (prepared ev w) p) \<noteq> gm_next_id (w_manager w)) (w_owned w) = w_owned w"
    using owned_not_fresh [OF assms] by (simp add: filter_id_conv)
  moreover have "AList.delete (gm_next_id (w_manager w)) (AList.update (gm_next_id (w_manager w)) (hp_next (w_heap w)) (w_owned_by_id w))
      = w_owned_by_id w"
    by (rule delete_update_fresh [OF owned_by_id_fresh [OF assms]])
  moreover have "seg_id (seg_at (prepared ev w) (hp_next (w_heap w))) = gm_next_id (w_manager w)" by simp
  ultimately show ?thesis
    by (simp add: unregister_owned_segment_def prepared_def del: prepared_fields(11))
qed

lemma append_active_error:
  assumes "base w" "append_active ev w i = (w', Inl e)"
  shows "w' = w"
proof -
  have "refers w Map.empty" by (simp add: refers_def)
  then show ?thesis
    using append_active_ok [OF assms(1) _ _ assms(2), of Map.empty
        "\<lambda>sid. unat (ss_live_records (seg_stats (seg_at w (the (map_of (w_owned_by_id w) sid)))))"
        "\<lambda>sid. unat (ss_live_bytes (seg_stats (seg_at w (the (map_of (w_owned_by_id w) sid)))))"] assms(1)
    by (auto simp: counted_def base_def owns_def)
qed

lemma append_record_unfold:
  assumes "base w"
  shows "append_record ev w inp =
    (if ev_fail_rotate ev then (w, Some (fail Invalid_reference))
     else
       case append_active ev w inp of (w1, r) \<Rightarrow>
         if r \<noteq> fail Segment_full then (w1, Some r)
         else if gm_next_id (w_manager w) = - 1 then (w, Some (fail Arithmetic_overflow))
         else if ev_commit_throws ev then (prepared ev w, None)
         else case append_active ev (maybe_retire (rotated ev w) (w_active w)) inp of (w2, r2) \<Rightarrow> (w2, Some r2))"
proof (cases "append_active ev w inp")
  case (Pair w1 r)
  let ?n = "gm_next_id (w_manager w)" and ?r = "hp_next (w_heap w)"
  have o: "owns w" using assms by (simp add: base_def)
  have act: "w_active w \<in> set (w_owned w)" using o by (simp add: owns_def)
  note nf = owned_not_fresh [OF assms act]
  show ?thesis
  proof (cases "ev_fail_rotate ev \<or> r \<noteq> fail Segment_full")
    case True
    then show ?thesis using Pair by (auto simp: append_record_def)
  next
    case False
    then have f: "\<not> ev_fail_rotate ev" "append_active ev w inp = (w, fail Segment_full)"
      using append_active_error [OF assms, of ev inp w1] Pair by auto
    have prep: "prepare_rotation (ev_uninit ev) (w_heap w) (w_manager w) (Some (w_active w)) (w_id w)
      = (if ?n = - 1 then (w_heap w, w_manager w, fail Arithmetic_overflow)
         else (w_heap (prepared ev w), w_manager (prepared ev w), Inr ?r))"
      using ownedD(1,2,4) [OF o act] by (simp add: prepare_rotation_def prepared_def make_shared_def)
    have p1: "w\<lparr> w_heap := w_heap (prepared ev w), w_manager := w_manager (prepared ev w) \<rparr> = prepared ev w"
      by (simp add: prepared_def)
    let ?w2 = "(prepared ev w)\<lparr> w_owned := w_owned w @ [?r], w_owned_by_id := AList.update ?n ?r (w_owned_by_id w) \<rparr>"
    have rot: "?w2\<lparr> w_heap := w_heap (rotated ev w), w_manager := w_manager (rotated ev w), w_active := ?r \<rparr> = rotated ev w"
      by (simp add: rotated_def prepared_def Let_def)
    show ?thesis
      by (simp add: append_record_def Let_def f prep p1 rot register_prepared [OF assms] unregister_registered [OF assms]
          commit_prepared [OF assms])
  qed
qed

end
