(* ===== verification/Worker_Map.thy ===== *)
theory Worker_Map
  imports Worker_Steps
begin

text \<open>
  The Worker as a map from keys to values with an expiry: every public operation keeps the
  invariant and acts on the map as its name says.
\<close>

section \<open>Appending\<close>

lemma fresh_unused:
  assumes "base w" "refers w f"
  shows "live_keys f (gm_next_id (w_manager w)) = {}" "live_size f (gm_next_id (w_manager w)) = 0"
proof -
  have o: "owns w" using assms(1) by (simp add: base_def)
  have "rr_segment_id ref \<noteq> gm_next_id (w_manager w)" if fk: "f k = Some ref" for k ref
  proof -
    obtain p where "p \<in> set (w_owned w)" "rr_segment_id ref = seg_id (seg_at w p)" using referred [OF o assms(2) fk] by blast
    then show ?thesis using owned_not_fresh(2) [OF assms(1)] by simp
  qed
  then show "live_keys f (gm_next_id (w_manager w)) = {}" by (auto simp: live_keys_def)
  then show "live_size f (gm_next_id (w_manager w)) = 0" by (simp add: live_size_def)
qed

definition same_config :: "worker \<Rightarrow> worker \<Rightarrow> bool" where
  "same_config w w' \<longleftrightarrow> w_id w' = w_id w \<and> w_exclusive_writer w' = w_exclusive_writer w
     \<and> w_index_quiesce_active w' = w_index_quiesce_active w"

lemma append_record_ok:
  assumes b: "base w" "refers w f" "accounts w f" and run: "append_record ev w inp = (w', res)"
  shows "base w' \<and> refers w' f \<and> keeps w w' f \<and> accounts w' f \<and> same_config w w' \<and> w_index w' = w_index w
    \<and> w_next_sequence w' = w_next_sequence w
    \<and> (\<forall>ref. res = Some (Inr ref) \<longrightarrow> holds (seg_at w' (w_active w')) ref inp)"
proof -
  have c: "counted w (\<lambda>sid. card (live_keys f sid)) (live_size f)" using b(3) by (simp add: accounts_def)
  note un = append_record_unfold [OF b(1), of ev inp]
  obtain w1 r where a: "append_active ev w inp = (w1, r)" by fastforce
  note a_ok = append_active_ok [OF b(1,2) c a]
  consider (fault) "w' = w" "\<exists>e. res = Some (Inl e)" | (fits) "w' = w1" "res = Some r"
    | (throws) "gm_next_id (w_manager w) \<noteq> - 1" "w' = prepared ev w" "res = None"
    | (rotates) w2 where "gm_next_id (w_manager w) \<noteq> - 1" "w2 = maybe_retire (rotated ev w) (w_active w)"
      "\<exists>r2. append_active ev w2 inp = (w', r2) \<and> res = Some r2"
  proof (cases "ev_fail_rotate ev")
    case True
    then show thesis using run fault unfolding un by auto
  next
    case nf: False
    show thesis
    proof (cases "r = fail Segment_full")
      case True
      consider "gm_next_id (w_manager w) = - 1" | "gm_next_id (w_manager w) \<noteq> - 1" "ev_commit_throws ev"
        | "gm_next_id (w_manager w) \<noteq> - 1" "\<not> ev_commit_throws ev" by blast
      then show thesis
      proof cases
        case 1
        then show thesis using run nf True fault unfolding un a by auto
      next
        case 2
        then show thesis using run nf True throws unfolding un a by auto
      next
        case 3
        obtain w2 r2 where r2: "append_active ev (maybe_retire (rotated ev w) (w_active w)) inp = (w2, r2)" by fastforce
        have "(w', res) = (w2, Some r2)" using run nf True 3 unfolding un a by (simp add: r2)
        then show thesis using rotates [OF 3(1) refl] r2 by simp
      qed
    next
      case False
      then show thesis using run nf fits unfolding un a by auto
    qed
  qed
  then show ?thesis
  proof cases
    case fits
    then show ?thesis using a_ok by (auto simp: accounts_def same_config_def)
  next
    case throws
    then show ?thesis using prepared_ok [OF b(1,2) c, of ev] by (simp add: accounts_def same_config_def)
  next
    case rotates
    have rot: "base (rotated ev w)" "refers (rotated ev w) f" "keeps w (rotated ev w) f" "accounts (rotated ev w) f"
      using rotated_ok [OF b(1,2) c rotates(1), of ev] fresh_unused [OF b(1,2)] by (simp_all add: accounts_def)
    have o: "owns w" "owns (rotated ev w)" using b(1) rot(1) by (simp_all add: base_def)
    have act: "w_active w \<in> set (w_owned (rotated ev w))" using o(1) by (simp add: owns_def)
    note ret = maybe_retire_ok [OF rot(1,2,4) act, folded rotates(2)]
      and fields = maybe_retire_fields [OF o(2) act, folded rotates(2)]
    obtain r2 where r2: "append_active ev w2 inp = (w', r2)" "res = Some r2" using rotates(3) by blast
    have "counted w2 (\<lambda>sid. card (live_keys f sid)) (live_size f)" using ret by (simp add: accounts_def)
    note fin = append_active_ok [OF _ _ this r2(1), of f]
    have "keeps w w' f" using keeps_trans [OF keeps_trans [OF rot(3)], of w2] ret fin by blast
    then show ?thesis using ret fin fields r2(2) by (auto simp: accounts_def same_config_def)
  qed (use b in \<open>auto simp: same_config_def\<close>)
qed

section \<open>Counting live records\<close>

lemma live_keys_upd:
  "live_keys (f(k := v)) sid =
     (if \<exists>ref. v = Some ref \<and> rr_segment_id ref = sid then insert k (live_keys f sid) else live_keys f sid - {k})"
  by (auto simp: live_keys_def split: if_splits)

lemma finite_live: "finite (dom f) \<Longrightarrow> finite (live_keys f sid)"
  by (rule finite_subset [of _ "dom f"]) (auto simp: live_keys_def)

lemma live_store:
  assumes "finite (dom f)" "f k = None"
  shows "(\<lambda>sid. card (live_keys (f(k \<mapsto> ref)) sid))
      = (\<lambda>sid. card (live_keys f sid))(rr_segment_id ref := card (live_keys f (rr_segment_id ref)) + 1)"
    "live_size (f(k \<mapsto> ref)) = (live_size f)(rr_segment_id ref := live_size f (rr_segment_id ref) + unat (rr_size ref))"
proof -
  have k: "k \<notin> live_keys f sid" for sid using assms(2) by (auto simp: live_keys_def)
  have fin: "finite (live_keys f sid)" for sid by (rule finite_live [OF assms(1)])
  show "(\<lambda>sid. card (live_keys (f(k \<mapsto> ref)) sid))
      = (\<lambda>sid. card (live_keys f sid))(rr_segment_id ref := card (live_keys f (rr_segment_id ref)) + 1)"
    using k fin by (auto simp: live_keys_upd fun_eq_iff)
  have s: "(\<Sum>j \<in> live_keys f sid. unat (rr_size (the ((f(k \<mapsto> ref)) j)))) = live_size f sid" for sid
    unfolding live_size_def by (rule sum.cong [OF refl]) (use k in auto)
  show "live_size (f(k \<mapsto> ref)) = (live_size f)(rr_segment_id ref := live_size f (rr_segment_id ref) + unat (rr_size ref))"
  proof
    fix sid
    show "live_size (f(k \<mapsto> ref)) sid
        = ((live_size f)(rr_segment_id ref := live_size f (rr_segment_id ref) + unat (rr_size ref))) sid"
      using k [of sid] fin [of sid] s [of sid] fun_upd_same [of f k "Some ref"]
      by (cases "sid = rr_segment_id ref")
        (simp_all add: live_size_def [of "f(k \<mapsto> ref)"] live_keys_upd fun_upd_other [of _ _ "live_size f"] fun_upd_same [of "live_size f"] del: fun_upd_apply)
  qed
qed

lemma live_remove:
  assumes "finite (dom f)" "f k = Some prev"
  shows "(\<lambda>sid. card (live_keys (f(k := None)) sid))
      = (\<lambda>sid. card (live_keys f sid))(rr_segment_id prev := card (live_keys f (rr_segment_id prev)) - 1)"
    "live_size (f(k := None)) = (live_size f)(rr_segment_id prev := live_size f (rr_segment_id prev) - unat (rr_size prev))"
    "0 < card (live_keys f (rr_segment_id prev))" "unat (rr_size prev) \<le> live_size f (rr_segment_id prev)"
proof -
  let ?g = "f(k := None)" and ?s = "rr_segment_id prev"
  have f: "f = ?g(k \<mapsto> prev)" using assms(2) by auto
  have fin: "finite (dom ?g)" using assms(1) by simp
  note st = live_store [OF fin, of k prev, folded f]
  show "0 < card (live_keys f ?s)" "unat (rr_size prev) \<le> live_size f ?s"
    using fun_cong [OF st(1), of ?s] fun_cong [OF st(2), of ?s] by simp_all
  show "(\<lambda>sid. card (live_keys ?g sid)) = (\<lambda>sid. card (live_keys f sid))(?s := card (live_keys f ?s) - 1)"
    using st(1) by (simp add: fun_eq_iff)
  show "live_size ?g = (live_size f)(?s := live_size f ?s - unat (rr_size prev))"
    using st(2) by (simp add: fun_eq_iff)
qed

lemma unat_add_64: "unat a + unat b < 2 ^ 64 \<Longrightarrow> unat (a + b) = unat a + unat b" for a b :: u64
  by (simp add: unat_add_no_overflow)

lemma mark_live_counts:
  assumes "holds s ref i" "unat (ss_live_records (seg_stats s)) < 2 ^ 32" "unat (ss_live_bytes (seg_stats s)) < 2 ^ 32"
  shows "\<exists>s'. segment_mark_live s ref = (s', ok) \<and> extends s s' \<and> seg_state s' = seg_state s \<and> seg_id s' = seg_id s
    \<and> unat (ss_live_records (seg_stats s')) = unat (ss_live_records (seg_stats s)) + 1
    \<and> unat (ss_live_bytes (seg_stats s')) = unat (ss_live_bytes (seg_stats s)) + unat (rr_size ref)"
proof -
  have v: "validate_ref_extent s ref = ok" using holds_read(2) [OF assms(1)] by simp
  have "unat (rr_size ref) < 2 ^ 32" using unat_u32_bound [of "rr_size ref"] by simp
  then show ?thesis
    using v assms(2,3) extends_mark_live [of s ref] mark_live_keeps [of s ref]
    by (simp add: segment_mark_live_def Let_def unat_add_64 unat_ucast_u64)
qed

lemma mark_live_ok:
  assumes "base w" "p \<in> set (w_owned w)" "holds (seg_at w p) ref i" "counted w c b"
    and "c (rr_segment_id ref) < 2 ^ 32" "b (rr_segment_id ref) < 2 ^ 32"
  shows "\<exists>s. mark_live_at w p ref = (set_segment w p s, ok) \<and> base (set_segment w p s) \<and> extends (seg_at w p) s
    \<and> counted (set_segment w p s) (c(rr_segment_id ref := c (rr_segment_id ref) + 1))
         (b(rr_segment_id ref := b (rr_segment_id ref) + unat (rr_size ref)))"
proof -
  have o: "owns w" using assms(1) by (simp add: base_def)
  have v: "rr_segment_id ref = seg_id (seg_at w p)" using holds_read(3) [OF assms(3)] by simp
  have cnt: "unat (ss_live_records (seg_stats (seg_at w p))) = c (rr_segment_id ref)"
    "unat (ss_live_bytes (seg_stats (seg_at w p))) = b (rr_segment_id ref)"
    using assms(2,4) v by (simp_all add: counted_def)
  obtain s where s: "segment_mark_live (seg_at w p) ref = (s, ok)" and ext: "extends (seg_at w p) s"
    "seg_state s = seg_state (seg_at w p)" "seg_id s = seg_id (seg_at w p)"
    and new: "unat (ss_live_records (seg_stats s)) = c (rr_segment_id ref) + 1"
    "unat (ss_live_bytes (seg_stats s)) = b (rr_segment_id ref) + unat (rr_size ref)"
    using mark_live_counts [OF assms(3)] assms(5,6) unfolding cnt by blast
  have run: "mark_live_at w p ref = (set_segment w p s, ok)" by (simp add: mark_live_at_def s)
  have "counted (set_segment w p s) (c(rr_segment_id ref := c (rr_segment_id ref) + 1))
         (b(rr_segment_id ref := b (rr_segment_id ref) + unat (rr_size ref)))"
    unfolding counted_def
  proof
    fix q assume "q \<in> set (w_owned (set_segment w p s))"
    then have q: "q \<in> set (w_owned w)" by simp
    show "unat (ss_live_records (seg_stats (seg_at (set_segment w p s) q)))
        = (c(rr_segment_id ref := c (rr_segment_id ref) + 1)) (seg_id (seg_at (set_segment w p s) q))
      \<and> unat (ss_live_bytes (seg_stats (seg_at (set_segment w p s) q)))
        = (b(rr_segment_id ref := b (rr_segment_id ref) + unat (rr_size ref))) (seg_id (seg_at (set_segment w p s) q))"
    proof (cases "q = p")
      case True
      then show ?thesis using new v ext(3) by simp
    next
      case False
      then have "seg_id (seg_at w q) \<noteq> rr_segment_id ref" using owned_id_inj [OF o q assms(2)] v by auto
      then show ?thesis using False q assms(4) by (simp add: counted_def)
    qed
  qed
  then show ?thesis using run base_set_segment [OF assms(1,2) ext(1,2)] ext(1) by blast
qed

lemma mark_dead_ok:
  assumes "base w" "p \<in> set (w_owned w)" "holds (seg_at w p) ref i" "counted w c b"
    and "0 < c (rr_segment_id ref)" "unat (rr_size ref) \<le> b (rr_segment_id ref)"
  shows "validate_live_record (seg_at w p) ref = ok"
    "\<exists>s. mark_dead_at w p ref = (set_segment w p s, ok) \<and> base (set_segment w p s) \<and> extends (seg_at w p) s
    \<and> counted (set_segment w p s) (c(rr_segment_id ref := c (rr_segment_id ref) - 1))
         (b(rr_segment_id ref := b (rr_segment_id ref) - unat (rr_size ref)))"
proof -
  define s where "s = fst (segment_mark_dead (seg_at w p) ref)"
  have o: "owns w" using assms(1) by (simp add: base_def)
  have v: "validate_ref_extent (seg_at w p) ref = ok" "rr_segment_id ref = seg_id (seg_at w p)"
    using holds_read(2,3) [OF assms(3)] by simp_all
  have cnt: "unat (ss_live_records (seg_stats (seg_at w p))) = c (rr_segment_id ref)"
    "unat (ss_live_bytes (seg_stats (seg_at w p))) = b (rr_segment_id ref)"
    using assms(2,4) v(2) by (simp_all add: counted_def)
  have pos: "ss_live_records (seg_stats (seg_at w p)) \<noteq> 0" using cnt(1) assms(5) by auto
  have le: "\<not> ss_live_bytes (seg_stats (seg_at w p)) < ucast (rr_size ref)"
    using cnt(2) assms(6) by (simp add: word_less_nat_alt unat_ucast_u64)
  show "validate_live_record (seg_at w p) ref = ok" using v pos le by (simp add: validate_live_record_def)
  have run: "mark_dead_at w p ref = (set_segment w p s, ok)"
    using v pos le by (simp add: mark_dead_at_def s_def segment_mark_dead_def Let_def)
  have ext: "extends (seg_at w p) s" "seg_state s = seg_state (seg_at w p)" "seg_id s = seg_id (seg_at w p)"
    by (simp_all add: s_def extends_mark_dead mark_dead_keeps)
  have "unat (ss_live_records (seg_stats (seg_at w p)) - 1) = c (rr_segment_id ref) - 1"
    using cnt(1) pos by (simp add: unat_minus_one)
  moreover have "unat (ss_live_bytes (seg_stats (seg_at w p)) - ucast (rr_size ref)) = b (rr_segment_id ref) - unat (rr_size ref)"
    using cnt(2) le by (simp add: unat_sub unat_ucast_u64 not_less)
  ultimately have new: "unat (ss_live_records (seg_stats s)) = c (rr_segment_id ref) - 1"
    "unat (ss_live_bytes (seg_stats s)) = b (rr_segment_id ref) - unat (rr_size ref)"
    using v pos le by (simp_all add: s_def segment_mark_dead_def Let_def)
  have "counted (set_segment w p s) (c(rr_segment_id ref := c (rr_segment_id ref) - 1))
         (b(rr_segment_id ref := b (rr_segment_id ref) - unat (rr_size ref)))"
    unfolding counted_def
  proof
    fix q assume "q \<in> set (w_owned (set_segment w p s))"
    then have q: "q \<in> set (w_owned w)" by simp
    show "unat (ss_live_records (seg_stats (seg_at (set_segment w p s) q)))
        = (c(rr_segment_id ref := c (rr_segment_id ref) - 1)) (seg_id (seg_at (set_segment w p s) q))
      \<and> unat (ss_live_bytes (seg_stats (seg_at (set_segment w p s) q)))
        = (b(rr_segment_id ref := b (rr_segment_id ref) - unat (rr_size ref))) (seg_id (seg_at (set_segment w p s) q))"
    proof (cases "q = p")
      case True
      then show ?thesis using new v(2) ext(3) by simp
    next
      case False
      then have "seg_id (seg_at w q) \<noteq> rr_segment_id ref" using owned_id_inj [OF o q assms(2)] v(2) by auto
      then show ?thesis using False q assms(4) by (simp add: counted_def)
    qed
  qed
  then show "\<exists>s. mark_dead_at w p ref = (set_segment w p s, ok) \<and> base (set_segment w p s) \<and> extends (seg_at w p) s
    \<and> counted (set_segment w p s) (c(rr_segment_id ref := c (rr_segment_id ref) - 1))
         (b(rr_segment_id ref := b (rr_segment_id ref) - unat (rr_size ref)))"
    using run base_set_segment [OF assms(1,2) ext(1,2)] ext(1) by blast
qed

end
