(* ===== verification/Worker_Store.thy ===== *)
theory Worker_Store
  imports Worker_Map
begin

text \<open>
  The operations of a Worker on the map it stands for.
\<close>

section \<open>Publication\<close>

lemma base_index: "base w \<Longrightarrow> table_inv t \<Longrightarrow> base (w\<lparr> w_index := t \<rparr>)"
  by (simp add: base_def owns_def)

lemma index_frame [simp]:
  "owns (w\<lparr> w_index := t \<rparr>) = owns w" "refers (w\<lparr> w_index := t \<rparr>) f = refers w f"
  "counted (w\<lparr> w_index := t \<rparr>) c b = counted w c b" "accounts (w\<lparr> w_index := t \<rparr>) f = accounts w f"
  "find_owned_segment (w\<lparr> w_index := t \<rparr>) sid = find_owned_segment w sid"
  "read_ref (w\<lparr> w_index := t \<rparr>) ref = read_ref w ref"
  "keeps w (w\<lparr> w_index := t \<rparr>) f" "same_config w (w\<lparr> w_index := t \<rparr>)"
  by (simp_all add: owns_def refers_def counted_def accounts_def read_ref_def find_owned_segment_def keeps_def
      same_config_def cong: option.case_cong)

lemma finite_tab [simp]: "finite (dom (tab t))"
  by (simp add: tab_def finite_dom_map_of)

lemma refers_store:
  assumes "refers w f" "p \<in> set (w_owned w)" "holds (seg_at w p) ref i" "ri_key i = k" "ri_opcode i = opcode_put"
  shows "refers w (f(k \<mapsto> ref))"
  using assms unfolding refers_def by auto

lemma kept_set_segment:
  assumes "owns w" "owns (set_segment w p s)" "refers w f" "extends (seg_at w p) s"
  shows "refers (set_segment w p s) f \<and> keeps w (set_segment w p s) f"
  by (rule kept [OF assms(1-3)]) (use assms(4) in simp)

text \<open>Counting a new record of a key and, when it replaces one, uncounting the old.\<close>

lemma store_accounts:
  assumes b: "base w" and r: "refers w f" and a: "accounts w f" and fin: "finite (dom f)"
    and p: "p \<in> set (w_owned w)" "holds (seg_at w p) ref i" "ri_key i = k" "ri_opcode i = opcode_put"
    and g: "g = f(k \<mapsto> ref)"
  shows "\<exists>s. mark_live_at w p ref = (set_segment w p s, ok) \<and> base (set_segment w p s)
    \<and> refers (set_segment w p s) g \<and> keeps w (set_segment w p s) g
    \<and> (f k = None \<longrightarrow> accounts (set_segment w p s) g)
    \<and> (\<forall>prev q. f k = Some prev \<longrightarrow> find_owned_segment w (rr_segment_id prev) = Some q \<longrightarrow>
         validate_live_record (seg_at w q) prev = ok
         \<and> (\<exists>w3. mark_dead_at (set_segment w p s) q prev = (w3, ok) \<and> base w3 \<and> refers w3 g
              \<and> keeps w w3 g \<and> accounts w3 g \<and> q \<in> set (w_owned w3)
              \<and> (\<exists>s'. w3 = set_segment (set_segment w p s) q s')))"
proof -
  let ?c = "\<lambda>sid. card (live_keys f sid)" and ?b = "live_size f" and ?f = "f(k \<mapsto> ref)"
  have o: "owns w" using b by (simp add: base_def)
  have c: "counted w ?c ?b" using a by (simp add: accounts_def)
  have rid: "rr_segment_id ref = seg_id (seg_at w p)" by (rule holds_read(3) [OF p(2)])
  have "?c (rr_segment_id ref) < 2 ^ 32" "?b (rr_segment_id ref) < 2 ^ 32"
    using live_bounds(1,2) [OF o r p(1)] by (simp_all add: rid)
  from mark_live_ok [OF b p(1,2) c this] obtain s where s: "mark_live_at w p ref = (set_segment w p s, ok)"
    "base (set_segment w p s)" "extends (seg_at w p) s"
    "counted (set_segment w p s) (?c(rr_segment_id ref := ?c (rr_segment_id ref) + 1))
       (?b(rr_segment_id ref := ?b (rr_segment_id ref) + unat (rr_size ref)))"
    by blast
  let ?w2 = "set_segment w p s"
  have o2: "owns ?w2" using s(2) by (simp add: base_def)
  have k2: "refers ?w2 ?f \<and> keeps w ?w2 ?f"
    by (rule kept_set_segment [OF o o2 refers_store [OF r p] s(3)])
  have k2': "refers ?w2 f" using kept_set_segment [OF o o2 r s(3)] by blast
  have none: "accounts ?w2 ?f" if "f k = None"
    unfolding accounts_def live_store [OF fin that] by (rule s(4))
  have some: "validate_live_record (seg_at w q) prev = ok
      \<and> (\<exists>w3. mark_dead_at ?w2 q prev = (w3, ok) \<and> base w3 \<and> refers w3 ?f \<and> keeps w w3 ?f \<and> accounts w3 ?f
         \<and> q \<in> set (w_owned w3) \<and> (\<exists>s'. w3 = set_segment ?w2 q s'))"
    if pk: "f k = Some prev" and qk: "find_owned_segment w (rr_segment_id prev) = Some q" for prev q
  proof -
    obtain q' j where q': "q' \<in> set (w_owned w)" "holds (seg_at w q') prev j"
      "find_owned_segment w (rr_segment_id prev) = Some q'" using referred [OF o r pk] by blast
    then have q: "q \<in> set (w_owned w)" "holds (seg_at w q) prev j" using qk by simp_all
    note rm = live_remove [OF fin pk]
    have v: "validate_live_record (seg_at w q) prev = ok" by (rule mark_dead_ok(1) [OF b q c rm(3,4)])
    have q2: "q \<in> set (w_owned ?w2)" using q(1) by simp
    have h2: "holds (seg_at ?w2 q) prev j" using q(2) s(3) by (auto simp: extends_def)
    let ?c2 = "?c(rr_segment_id ref := ?c (rr_segment_id ref) + 1)"
    let ?b2 = "?b(rr_segment_id ref := ?b (rr_segment_id ref) + unat (rr_size ref))"
    have "0 < ?c2 (rr_segment_id prev)" "unat (rr_size prev) \<le> ?b2 (rr_segment_id prev)" using rm(3,4) by auto
    from mark_dead_ok(2) [OF s(2) q2 h2 s(4) this] obtain s' where s': "mark_dead_at ?w2 q prev = (set_segment ?w2 q s', ok)"
      "base (set_segment ?w2 q s')" "extends (seg_at ?w2 q) s'"
      "counted (set_segment ?w2 q s') (?c2(rr_segment_id prev := ?c2 (rr_segment_id prev) - 1))
         (?b2(rr_segment_id prev := ?b2 (rr_segment_id prev) - unat (rr_size prev)))"
      by blast
    let ?w3 = "set_segment ?w2 q s'"
    have "f(k \<mapsto> ref) = (f(k := None))(k \<mapsto> ref)" by simp
    then have "(\<lambda>sid. card (live_keys ?f sid)) = ?c2(rr_segment_id prev := ?c2 (rr_segment_id prev) - 1)"
      "live_size ?f = ?b2(rr_segment_id prev := ?b2 (rr_segment_id prev) - unat (rr_size prev))"
      using live_store [of "f(k := None)" k ref] fin rm by (auto simp: fun_eq_iff)
    then have "accounts ?w3 ?f" using s'(4) unfolding accounts_def by simp
    moreover have "refers ?w3 ?f \<and> keeps ?w2 ?w3 ?f"
      by (rule kept_set_segment [OF o2 _ _ s'(3)]) (use s'(2) k2 in \<open>simp_all add: base_def\<close>)
    moreover have "q \<in> set (w_owned ?w3)" using q(1) by simp
    ultimately show ?thesis using v s'(1,2) keeps_trans [of w ?w2 ?f ?w3] k2 by blast
  qed
  show ?thesis
    unfolding g
  proof (intro exI [of _ s] conjI allI impI)
    show "refers ?w2 ?f" "keeps w ?w2 ?f" using k2 by blast+
    show "accounts ?w2 ?f" if "f k = None" by (rule none [OF that])
    fix prev q assume pq: "f k = Some prev" "find_owned_segment w (rr_segment_id prev) = Some q"
    show "validate_live_record (seg_at w q) prev = ok" using some [OF pq] by (rule conjunct1)
    show "\<exists>w3. mark_dead_at ?w2 q prev = (w3, ok) \<and> base w3 \<and> refers w3 ?f \<and> keeps w w3 ?f \<and> accounts w3 ?f
         \<and> q \<in> set (w_owned w3) \<and> (\<exists>s'. w3 = set_segment ?w2 q s')" using some [OF pq] by (rule conjunct2)
  qed (rule s(1), rule s(2))
qed

lemma publish_ok:
  assumes inv: "worker_inv w" and key: "hashed_for (w_index w) key" and p: "p \<in> set (w_owned w)"
    "holds (seg_at w p) ref i" "ri_key i = hk_key key" "ri_opcode i = opcode_put"
    and run: "publish w key ref p = (w', st)"
  shows "worker_inv w' \<and> same_config w w' \<and> hashed_for (w_index w') = hashed_for (w_index w)
    \<and> w_active w' = w_active w
    \<and> (case st of
         Inl e \<Rightarrow> tab (w_index w') = tab (w_index w) \<and> keeps w w' (tab (w_index w))
           \<and> snd (insert_or_assign (w_index w) key ref) = Inl e
       | Inr _ \<Rightarrow> tab (w_index w') = (tab (w_index w))(hk_key key \<mapsto> ref) \<and> keeps w w' (tab (w_index w')))"
proof -
  let ?f = "tab (w_index w)" and ?k = "hk_key key"
  have b: "base w" "refers w ?f" "accounts w ?f" "owns w" using inv by (simp_all add: worker_inv_def base_def)
  have own: "seg_id (seg_at w p) = rr_segment_id ref" "seg_owner (seg_at w p) = w_id w"
    using holds_read(3) [OF p(2)] ownedD(2) [OF b(4) p(1)] by simp_all
  obtain t m where ins: "insert_or_assign (w_index w) key ref = (t, m)" by fastforce
  have ti: "table_inv (w_index w)" using b(1) by (simp add: base_def)
  note law = hashed_index.store_law [OF ti key ins]
  show ?thesis
  proof (cases m)
    case (Inl e)
    then have "w' = w\<lparr> w_index := t \<rparr>" "st = Inl e" using run own ins by (auto simp: publish_def)
    then show ?thesis using law Inl b base_index [OF b(1)] ins by (simp add: worker_inv_def)
  next
    case (Inr mu)
    let ?w1 = "w\<lparr> w_index := t \<rparr>"
    have t: "table_inv t" "tab t = ?f(?k \<mapsto> ref)" "mr_previous mu = ?f ?k" "hashed_for t = hashed_for (w_index w)"
      using law Inr by simp_all
    have b1: "base ?w1" by (rule base_index [OF b(1) t(1)])
    have "refers ?w1 ?f" "accounts ?w1 ?f" "p \<in> set (w_owned ?w1)" "holds (seg_at ?w1 p) ref i" using b p by simp_all
    from store_accounts [OF b1 this(1,2) finite_tab this(3,4) p(3,4) t(2)] obtain s where
      s: "mark_live_at ?w1 p ref = (set_segment ?w1 p s, ok)" "base (set_segment ?w1 p s)"
      "refers (set_segment ?w1 p s) (tab t)" "keeps ?w1 (set_segment ?w1 p s) (tab t)"
      "?f ?k = None \<longrightarrow> accounts (set_segment ?w1 p s) (tab t)"
      and dead: "\<forall>prev q. ?f ?k = Some prev \<longrightarrow> find_owned_segment ?w1 (rr_segment_id prev) = Some q \<longrightarrow>
         validate_live_record (seg_at ?w1 q) prev = ok
         \<and> (\<exists>w3. mark_dead_at (set_segment ?w1 p s) q prev = (w3, ok) \<and> base w3 \<and> refers w3 (tab t)
              \<and> keeps ?w1 w3 (tab t) \<and> accounts w3 (tab t) \<and> q \<in> set (w_owned w3)
              \<and> (\<exists>s'. w3 = set_segment (set_segment ?w1 p s) q s'))"
      by (elim exE conjE) (rule that; assumption)
    have kw: "keeps w w'' (tab t)" if "keeps ?w1 w'' (tab t)" for w'' using that by (simp add: keeps_def)
    show ?thesis
    proof (cases "?f ?k")
      case None
      have "w' = set_segment ?w1 p s" "st = ok"
        using run own ins Inr t(3) None s(1) by (auto simp: publish_def check_previous_def)
      then show ?thesis using s None t kw by (simp add: worker_inv_def same_config_def)
    next
      case (Some prev)
      obtain q where q: "find_owned_segment w (rr_segment_id prev) = Some q" using referred [OF b(4,2) Some] by blast
      then obtain w3 s' where w3: "validate_live_record (seg_at ?w1 q) prev = ok"
        "mark_dead_at (set_segment ?w1 p s) q prev = (w3, ok)" "base w3" "refers w3 (tab t)" "keeps ?w1 w3 (tab t)"
        "accounts w3 (tab t)" "q \<in> set (w_owned w3)" "w3 = set_segment (set_segment ?w1 p s) q s'"
        using dead Some by auto
      have "w' = maybe_retire w3 q" "st = ok"
        using run own ins Inr t(3) Some s(1) w3(1,2) q by (auto simp: publish_def check_previous_def)
      moreover note ret = maybe_retire_ok [OF w3(3,4,6,7)]
      have o3: "owns w3" using w3(3) by (simp add: base_def)
      note fields = maybe_retire_fields [OF o3 w3(7)]
      have "keeps w (maybe_retire w3 q) (tab t)" using keeps_trans [OF kw [OF w3(5)]] ret by blast
      ultimately show ?thesis using ret fields t w3(8) by (simp add: worker_inv_def same_config_def)
    qed
  qed
qed

section \<open>The map of a Worker\<close>

definition content_of :: "worker \<Rightarrow> (bytes \<Rightarrow> record_ref option) \<Rightarrow> bytes \<Rightarrow> (bytes \<times> u64) option" where
  "content_of w f k =
     (case f k of
        None \<Rightarrow> None
      | Some ref \<Rightarrow> (case read_ref w ref of Inl _ \<Rightarrow> None | Inr v \<Rightarrow> Some (rv_value v, rv_expire_at_ns v)))"

definition content :: "worker \<Rightarrow> bytes \<Rightarrow> (bytes \<times> u64) option" where
  "content w = content_of w (tab (w_index w))"

lemma content_keeps: "keeps w w' f \<Longrightarrow> content_of w' f = content_of w f"
  by (auto simp: content_of_def keeps_def fun_eq_iff split: option.split)

lemma content_upd:
  "content_of w (f(k := None)) = (content_of w f)(k := None)"
  "read_ref w ref = Inr v \<Longrightarrow> content_of w (f(k \<mapsto> ref)) = (content_of w f)(k \<mapsto> (rv_value v, rv_expire_at_ns v))"
  by (auto simp: content_of_def fun_eq_iff)

lemma content_None:
  assumes "worker_inv w"
  shows "content w k = None \<longleftrightarrow> tab (w_index w) k = None"
proof (cases "tab (w_index w) k")
  case (Some ref)
  have o: "owns w" "refers w (tab (w_index w))" using assms by (simp_all add: worker_inv_def base_def)
  obtain p i where "p \<in> set (w_owned w)" "holds (seg_at w p) ref i" using referred [OF o Some] by blast
  then show ?thesis using read_holds [OF o(1)] Some by (simp add: content_def content_of_def)
qed (simp add: content_def content_of_def)

lemma sequence_frame [simp]:
  "base (w\<lparr> w_next_sequence := n \<rparr>) = base w" "refers (w\<lparr> w_next_sequence := n \<rparr>) f = refers w f"
  "accounts (w\<lparr> w_next_sequence := n \<rparr>) f = accounts w f" "read_ref (w\<lparr> w_next_sequence := n \<rparr>) ref = read_ref w ref"
  "find_owned_segment (w\<lparr> w_next_sequence := n \<rparr>) sid = find_owned_segment w sid"
  "keeps (w\<lparr> w_next_sequence := n \<rparr>) w' f = keeps w w' f"
  "same_config (w\<lparr> w_next_sequence := n \<rparr>) w' = same_config w w'"
  by (simp_all add: base_def owns_def refers_def counted_def accounts_def read_ref_def find_owned_segment_def keeps_def
      same_config_def cong: option.case_cong)

section \<open>Why an append fails\<close>

lemma encoded_size_error:
  assumes "compute_encoded_size i = Inl e" "ri_opcode i = opcode_put \<or> ri_opcode i = opcode_erase" "ri_type i = type_bytes"
  shows "e = Record_too_large \<and> kMaxNormalRecordSize < rec_size i"
proof (cases "length (ri_key i) \<le> 0xFFFFFFFF \<and> length (ri_value i) \<le> 0xFFFFFFFF")
  case True
  then have v: "validate_record_input i = ok" using assms(2,3) by (auto simp: validate_record_input_def record_enums)
  have "length (ri_key i) \<le> 0xFFFFFFFF" "length (ri_value i) \<le> 0xFFFFFFFF" using True by simp_all
  note fit = sizes_fit [OF this]
  show ?thesis
    using assms(1) v
    by (auto simp: compute_encoded_size_def record_consts fit rec_size_def simp del: of_nat_add split: if_splits)
next
  case False
  then have "validate_record_input i = fail Record_too_large"
    using assms(2,3) by (auto simp: validate_record_input_def record_enums)
  moreover have "kMaxNormalRecordSize < rec_size i"
    using False record_extent_bounds(1) [of "length (ri_key i)" "length (ri_value i)"]
    by (auto simp: rec_size_def record_consts)
  ultimately show ?thesis using assms(1) by (simp add: compute_encoded_size_def)
qed

lemma append_fresh:
  assumes "seg_log s log" "seg_write_offset s = 4096" "seg_state s = Seg_active" "segment_append d s i = (s', Inl e)"
  shows "compute_encoded_size i = Inl e"
  using segment_append_fails [OF assms(1,4)] assms(2,3) rec_size_bounds(2) [of i] by auto

lemma append_record_fails:
  assumes "base w" "append_record ev w inp = (w', res)"
  shows "case res of
      None \<Rightarrow> ev_commit_throws ev
    | Some (Inl e) \<Rightarrow> ev_fail_rotate ev \<and> e = Invalid_reference \<or> compute_encoded_size inp = Inl e
        \<or> gm_next_id (w_manager w) = - 1 \<and> e = Arithmetic_overflow
    | Some (Inr _) \<Rightarrow> True"
proof -
  have o: "owns w" using assms(1) by (simp add: base_def)
  have act: "w_active w \<in> set (w_owned w)" using o by (simp add: owns_def)
  obtain log where log: "seg_log (seg_at w (w_active w)) log" using ownedD(3) [OF o act] by blast
  obtain s r where a: "segment_append (ev_debug ev) (seg_at w (w_active w)) inp = (s, r)" by fastforce
  define w2 where "w2 = maybe_retire (rotated ev w) (w_active w)"
  have act': "w_active w \<in> set (w_owned (rotated ev w))" using act by simp
  note nf = owned_not_fresh(1) [OF assms(1) act]
  have new: "seg_at w2 (w_active w2) = make_segment (ev_uninit ev) (gm_next_id (w_manager w)) (w_id w) 1"
    using nf by (simp add: w2_def maybe_retire_unfold [OF owns_rotated [OF assms(1)] act'])
  obtain s2 r2 where a2: "segment_append (ev_debug ev) (seg_at w2 (w_active w2)) inp = (s2, r2)" by fastforce
  have e1: "compute_encoded_size inp = Inl e" if "r = Inl e" "e \<noteq> Segment_full" for e
    using segment_append_fails [OF log a [unfolded that(1)]] that(2) ownedD(4) [OF o act] by auto
  have e2: "compute_encoded_size inp = Inl e" if "r2 = Inl e" for e
    by (rule append_fresh [OF make_segment_log _ _ a2 [unfolded new that]]) (simp_all add: make_segment_def header_sizes)
  have "append_record ev w inp =
    (if ev_fail_rotate ev then (w, Some (fail Invalid_reference))
     else if r \<noteq> fail Segment_full then (set_segment w (w_active w) s, Some r)
     else if gm_next_id (w_manager w) = - 1 then (w, Some (fail Arithmetic_overflow))
     else if ev_commit_throws ev then (prepared ev w, None)
     else (set_segment w2 (w_active w2) s2, Some r2))"
    using a2 by (simp add: append_record_unfold [OF assms(1)] append_active_def a w2_def)
  then show ?thesis using assms(2) e1 e2 by (auto split: if_splits sum.split)
qed

end
