(* ===== verification/Worker_Ops.thy ===== *)
theory Worker_Ops
  imports Worker_Store
begin

text \<open>
  Put, erase and get of a Worker on the map it stands for, and sequences of them.
\<close>

section \<open>Put\<close>

definition put_record :: "worker \<Rightarrow> hashed_key \<Rightarrow> bytes \<Rightarrow> u64 \<Rightarrow> record_input" where
  "put_record w key val expire_at_ns =
     \<lparr> ri_sequence = w_next_sequence w, ri_opcode = opcode_put, ri_type = type_bytes, ri_flags = 0,
       ri_key_hash = hk_hash key, ri_expire_at_ns = expire_at_ns, ri_key = hk_key key, ri_value = val \<rparr>"

definition quiesced :: "worker \<Rightarrow> bool" where
  "quiesced w \<longleftrightarrow> w_exclusive_writer w \<and> w_index_quiesce_active w"

lemma reply_cases:
  obtains (none) "r = None" | (err) e where "r = Some (Inl e)" | (ref) x where "r = Some (Inr x)"
proof (cases r)
  case (Some a)
  then show thesis using that(2,3) by (cases a) simp_all
qed (rule that(1))

lemma put_ok:
  assumes inv: "worker_inv w" and key: "hashed_for (w_index w) key"
    and run: "put_locked_published ev w key val exp = (w', res)"
  shows "worker_inv w' \<and> same_config w w' \<and> hashed_for (w_index w') = hashed_for (w_index w)
    \<and> (case res of
         None \<Rightarrow> content w' = content w \<and> ev_commit_throws ev
       | Some (Inl e) \<Rightarrow> content w' = content w
           \<and> (quiesced w \<and> e = Sequence_conflict \<or> ev_fail_rotate ev \<and> e = Invalid_reference
              \<or> kMaxNormalRecordSize < rec_size (put_record w key val exp) \<and> e = Record_too_large
              \<or> gm_next_id (w_manager w) = - 1 \<and> e = Arithmetic_overflow
              \<or> e = Unavailable \<and> (ev_fail_index_account ev \<or> 2 ^ 31 \<le> length (hk_key key)
                   \<or> \<not> arena_fits (w_index w) (hk_key key) \<or> kSizeMax div 2 < st_capacity (w_index w)))
       | Some (Inr pub) \<Rightarrow> content w' = (content w)(hk_key key \<mapsto> (val, exp))
           \<and> read_ref w' (pub_record pub) = Inr (view_of (put_record w key val exp)) \<and> pub_opcode pub = opcode_put)"
proof (cases "quiesced w")
  case True
  then show ?thesis using run inv by (auto simp: put_locked_published_def quiesced_def same_config_def)
next
  case False
  let ?f = "tab (w_index w)" and ?i = "put_record w key val exp"
  let ?w0 = "w\<lparr> w_next_sequence := w_next_sequence w + 1 \<rparr>"
  obtain w1 r where app: "append_record ev ?w0 ?i = (w1, r)" by fastforce
  have b0: "base ?w0" "refers ?w0 ?f" "accounts ?w0 ?f" using inv by (simp_all add: worker_inv_def)
  note a = append_record_ok [OF b0 app, simplified] and fails = append_record_fails [OF b0(1) app]
  have inv1: "worker_inv w1" using a by (simp add: worker_inv_def)
  have c1: "content w1 = content w" using a content_keeps [of w w1 ?f] by (simp add: content_def)
  have step: "put_locked_published ev w key val exp =
     (case (w1, r) of
        (w, None) \<Rightarrow> (w, None)
      | (w, Some (Inl e)) \<Rightarrow> (w, Some (Inl e))
      | (w, Some (Inr ref)) \<Rightarrow>
          if ev_fail_index_account ev then (w, Some (fail Unavailable))
          else (case publish w key ref (w_active w) of
                  (w2, Inl e) \<Rightarrow> (w2, Some (Inl (indeterminate_after_append e)))
                | (w2, Inr _) \<Rightarrow> (w2, Some (Inr \<lparr> pub_record = ref, pub_segment = w_active w, pub_opcode = opcode_put \<rparr>))))"
    using app False [unfolded quiesced_def]
    by (simp only: put_locked_published_def next_sequence_def put_record_def Let_def prod.case if_False)
  consider (none) "r = None" | (err) e where "r = Some (Inl e)" | (ref) ref where "r = Some (Inr ref)"
    by (rule reply_cases)
  then show ?thesis
  proof cases
    case none
    then show ?thesis using run step fails a inv1 c1 by simp
  next
    case (err e)
    have "e = Record_too_large \<and> kMaxNormalRecordSize < rec_size ?i" if "compute_encoded_size ?i = Inl e"
      by (rule encoded_size_error [OF that]) (simp_all add: put_record_def)
    then show ?thesis using run step fails a inv1 c1 err by auto
  next
    case (ref ref)
    have act: "w_active w1 \<in> set (w_owned w1)" using inv1 by (simp add: worker_inv_def base_def owns_def)
    have h: "holds (seg_at w1 (w_active w1)) ref ?i" using a ref by simp
    have k1: "hashed_for (w_index w1) key" using a key by simp
    obtain w2 st where pub: "publish w1 key ref (w_active w1) = (w2, st)" by fastforce
    have "ri_key ?i = hk_key key" "ri_opcode ?i = opcode_put" by (simp_all add: put_record_def)
    note p = publish_ok [OF inv1 k1 act h this pub]
    show ?thesis
    proof (cases "ev_fail_index_account ev")
      case True
      then have "w' = w1" "res = Some (fail Unavailable)" using run step ref by simp_all
      then show ?thesis using True a inv1 c1 by simp
    next
      case nf: False
      show ?thesis
      proof (cases st)
        case (Inl e)
        have w': "w' = w2" "res = Some (Inl Unavailable)"
          using run step ref nf pub Inl by (simp_all add: indeterminate_after_append_def)
        have p': "worker_inv w2" "same_config w1 w2" "hashed_for (w_index w2) = hashed_for (w_index w1)"
          "tab (w_index w2) = tab (w_index w1)" "keeps w1 w2 (tab (w_index w1))"
          "snd (insert_or_assign (w_index w1) key ref) = Inl e"
          using p [unfolded Inl sum.case] by blast+
        obtain t where "insert_or_assign (w_index w1) key ref = (t, Inl e)" using p'(6) by (metis prod.collapse)
        then have why: "2 ^ 31 \<le> length (hk_key key) \<or> \<not> arena_fits (w_index w) (hk_key key) \<or> kSizeMax div 2 < st_capacity (w_index w)"
          using insert_or_assign_ok [of "w_index w" key ref t "Inl e"] key inv a by (auto simp: worker_inv_def base_def)
        have "content w2 = content w1" using content_keeps [OF p'(5)] p'(4) by (simp add: content_def)
        then show ?thesis using w' p' why a c1 by (auto simp: same_config_def)
      next
        case (Inr u)
        have w': "w' = w2" "res = Some (Inr \<lparr> pub_record = ref, pub_segment = w_active w1, pub_opcode = opcode_put \<rparr>)"
          using run step ref nf pub Inr by simp_all
        have p': "worker_inv w2" "same_config w1 w2" "hashed_for (w_index w2) = hashed_for (w_index w1)"
          "tab (w_index w2) = (tab (w_index w1))(hk_key key \<mapsto> ref)" "keeps w1 w2 (tab (w_index w2))"
          using p [unfolded Inr sum.case] by blast+
        have rd1: "read_ref w1 ref = Inr (view_of ?i)"
          by (rule read_holds [OF _ act h]) (use inv1 in \<open>simp add: worker_inv_def base_def\<close>)
        have "tab (w_index w2) (hk_key key) = Some ref" by (simp add: p'(4))
        then have rd2: "read_ref w2 ref = Inr (view_of ?i)" using p'(5) rd1 unfolding keeps_def by auto
        have "content w2 = content_of w1 (tab (w_index w2))" using content_keeps [OF p'(5)] by (simp add: content_def)
        also have "\<dots> = (content w1)(hk_key key \<mapsto> (val, exp))"
          using content_upd(2) [OF rd1, of "tab (w_index w1)" "hk_key key"] unfolding p'(4)
          by (simp add: content_def view_of_def put_record_def)
        finally show ?thesis using w' p'(1-3) rd2 a c1 by (auto simp: same_config_def)
      qed
    qed
  qed
qed

section \<open>Erase\<close>

lemma refers_remove: "refers w f \<Longrightarrow> refers w (f(k := None))"
  unfolding refers_def by auto

lemma keeps_remove: "keeps w w' f \<Longrightarrow> keeps w w' (f(k := None))"
  unfolding keeps_def by auto

lemma remove_accounts:
  assumes b: "base w" and r: "refers w f" and a: "accounts w f" and fin: "finite (dom f)"
    and f: "f k = Some ex" and q: "find_owned_segment w (rr_segment_id ex) = Some q"
  shows "validate_live_record (seg_at w q) ex = ok"
    "\<exists>s. mark_dead_at w q ex = (set_segment w q s, ok) \<and> base (set_segment w q s)
      \<and> refers (set_segment w q s) (f(k := None)) \<and> keeps w (set_segment w q s) f
      \<and> accounts (set_segment w q s) (f(k := None)) \<and> q \<in> set (w_owned w)"
proof -
  have o: "owns w" using b by (simp add: base_def)
  obtain q' i where "q' \<in> set (w_owned w)" "holds (seg_at w q') ex i" "find_owned_segment w (rr_segment_id ex) = Some q'"
    using referred [OF o r f] by blast
  then have q: "q \<in> set (w_owned w)" "holds (seg_at w q) ex i" using q by simp_all
  have c: "counted w (\<lambda>sid. card (live_keys f sid)) (live_size f)" using a by (simp add: accounts_def)
  note rm = live_remove [OF fin f]
  show "validate_live_record (seg_at w q) ex = ok" by (rule mark_dead_ok(1) [OF b q c rm(3,4)])
  from mark_dead_ok(2) [OF b q c rm(3,4)] obtain s where s: "mark_dead_at w q ex = (set_segment w q s, ok)"
    "base (set_segment w q s)" "extends (seg_at w q) s"
    "counted (set_segment w q s) (\<lambda>sid. card (live_keys (f(k := None)) sid)) (live_size (f(k := None)))"
    unfolding rm(1,2) by blast
  have "refers (set_segment w q s) f \<and> keeps w (set_segment w q s) f"
    by (rule kept_set_segment [OF o _ r s(3)]) (use s(2) in \<open>simp add: base_def\<close>)
  then show "\<exists>s. mark_dead_at w q ex = (set_segment w q s, ok) \<and> base (set_segment w q s)
      \<and> refers (set_segment w q s) (f(k := None)) \<and> keeps w (set_segment w q s) f
      \<and> accounts (set_segment w q s) (f(k := None)) \<and> q \<in> set (w_owned w)"
    using s q(1) refers_remove unfolding accounts_def by blast
qed

definition erase_record :: "worker \<Rightarrow> hashed_key \<Rightarrow> record_input" where
  "erase_record w key =
     \<lparr> ri_sequence = w_next_sequence w, ri_opcode = opcode_erase, ri_type = type_bytes, ri_flags = 0,
       ri_key_hash = hk_hash key, ri_expire_at_ns = 0, ri_key = hk_key key, ri_value = [] \<rparr>"

definition erase_failure :: "worker_env \<Rightarrow> worker \<Rightarrow> hashed_key \<Rightarrow> error_code \<Rightarrow> bool" where
  "erase_failure ev w key e \<longleftrightarrow>
     quiesced w \<and> e = Sequence_conflict \<or> ev_fail_rotate ev \<and> e = Invalid_reference
   \<or> kMaxNormalRecordSize < rec_size (erase_record w key) \<and> e = Record_too_large
   \<or> gm_next_id (w_manager w) = - 1 \<and> e = Arithmetic_overflow"

text \<open>The steps of an erase behind the append, on the key's entry \<open>ex\<close> in segment \<open>q\<close>.\<close>

lemma erase_commit:
  assumes inv: "worker_inv w" and key: "hashed_for (w_index w) key"
    and ex: "tab (w_index w) (hk_key key) = Some ex" "find_owned_segment w (rr_segment_id ex) = Some q"
  obtains w4 t m where "mark_dead_at w q ex = (w4, ok)" "swiss_erase (w_index w4) key = (t, m)" "mr_previous m = Some ex"
    "worker_inv (maybe_retire (w4\<lparr> w_index := t \<rparr>) q)" "same_config w (maybe_retire (w4\<lparr> w_index := t \<rparr>) q)"
    "hashed_for (w_index (maybe_retire (w4\<lparr> w_index := t \<rparr>) q)) = hashed_for (w_index w)"
    "content (maybe_retire (w4\<lparr> w_index := t \<rparr>) q) = (content w)(hk_key key := None)" "w_active w4 = w_active w"
proof -
  let ?f = "tab (w_index w)" and ?k = "hk_key key"
  have b: "base w" "refers w ?f" "accounts w ?f" using inv by (simp_all add: worker_inv_def)
  obtain s where s: "mark_dead_at w q ex = (set_segment w q s, ok)" "base (set_segment w q s)"
    "refers (set_segment w q s) (?f(?k := None))" "keeps w (set_segment w q s) ?f"
    "accounts (set_segment w q s) (?f(?k := None))" "q \<in> set (w_owned w)"
    using remove_accounts(2) [OF b finite_tab ex] by blast
  obtain t m where e: "swiss_erase (w_index w) key = (t, m)" by fastforce
  have ti: "table_inv (w_index w)" using b(1) by (simp add: base_def)
  have t: "table_inv t" "hashed_for t = hashed_for (w_index w)" "tab t = ?f(?k := None)" "mr_previous m = Some ex"
    using hashed_index.remove_law [OF ti key e] ex(1) by simp_all
  let ?w5 = "(set_segment w q s)\<lparr> w_index := t \<rparr>"
  have b5: "base ?w5" "refers ?w5 (tab t)" "accounts ?w5 (tab t)" "q \<in> set (w_owned ?w5)"
    using base_index [OF s(2) t(1)] s(3,5,6) t(3) by simp_all
  have o5: "owns ?w5" using b5(1) by (simp add: base_def)
  note ret = maybe_retire_ok [OF b5] and fl = maybe_retire_fields [OF o5 b5(4)]
  have "keeps w (set_segment w q s) (tab t)" unfolding t(3) by (rule keeps_remove [OF s(4)])
  then have "keeps w ?w5 (tab t)" by (simp add: keeps_def)
  then have k: "keeps w (maybe_retire ?w5 q) (tab t)" using keeps_trans ret by blast
  have "content (maybe_retire ?w5 q) = content_of w (tab t)" using content_keeps [OF k] fl by (simp add: content_def)
  also have "\<dots> = (content w)(?k := None)" unfolding t(3) content_upd(1) by (simp add: content_def)
  finally have c: "content (maybe_retire ?w5 q) = (content w)(?k := None)" .
  show thesis
    by (rule that [OF s(1)]) (use e t ret fl c in \<open>auto simp: worker_inv_def same_config_def\<close>)
qed

lemma erase_ok:
  assumes inv: "worker_inv w" and key: "hashed_for (w_index w) key"
    and run: "erase_locked_published ev w key = (w', res)"
  shows "worker_inv w' \<and> same_config w w' \<and> hashed_for (w_index w') = hashed_for (w_index w)
    \<and> (case res of
         None \<Rightarrow> content w' = content w \<and> ev_commit_throws ev
       | Some (Inl e) \<Rightarrow> content w' = content w
           \<and> (erase_failure ev w key e \<or> e = Not_found \<and> content w (hk_key key) = None)
       | Some (Inr pub) \<Rightarrow> content w (hk_key key) \<noteq> None \<and> content w' = (content w)(hk_key key := None)
           \<and> pub_opcode pub = opcode_erase)"
proof (cases "quiesced w")
  case True
  then show ?thesis using run inv
    by (auto simp: erase_locked_published_def quiesced_def same_config_def erase_failure_def)
next
  case nq: False
  let ?f = "tab (w_index w)" and ?k = "hk_key key" and ?i = "erase_record w key"
  have b: "base w" "refers w ?f" "accounts w ?f" and o: "owns w" using inv by (simp_all add: worker_inv_def base_def)
  obtain t ex where fnd: "swiss_find (w_index w) key = (t, ex)" by fastforce
  have ti: "table_inv (w_index w)" using b(1) by (simp add: base_def)
  have t: "table_inv t" "tab t = ?f" "hashed_for t = hashed_for (w_index w)" "ex = ?f ?k"
    using hashed_index.lookup_law [OF ti key fnd] by simp_all
  let ?w1 = "w\<lparr> w_index := t \<rparr>"
  have inv1: "worker_inv ?w1" using b base_index [OF b(1) t(1)] t(2) by (simp add: worker_inv_def)
  have c1: "content ?w1 = content w" using content_keeps [of w ?w1 ?f] t(2) by (simp add: content_def)
  show ?thesis
  proof (cases ex)
    case None
    then have "w' = ?w1" "res = Some (fail Not_found)"
      using run nq fnd by (auto simp: erase_locked_published_def quiesced_def)
    then show ?thesis using inv1 c1 t(3,4) None content_None [OF inv] by simp
  next
    case (Some x)
    then have x: "tab t ?k = Some x" using t(2,4) by simp
    obtain q where q: "find_owned_segment w (rr_segment_id x) = Some q" using referred [OF o b(2)] x t(2) by metis
    have v: "validate_live_record (seg_at w q) x = ok"
      by (rule remove_accounts(1) [OF b finite_tab _ q]) (use x t(2) in simp)
    let ?w2 = "?w1\<lparr> w_next_sequence := w_next_sequence w + 1 \<rparr>"
    obtain w3 r where app: "append_record ev ?w2 ?i = (w3, r)" by fastforce
    have b2: "base ?w2" "refers ?w2 ?f" "accounts ?w2 ?f" using inv1 t(2) by (simp_all add: worker_inv_def)
    note a = append_record_ok [OF b2 app] and fails = append_record_fails [OF b2(1) app]
    have inv3: "worker_inv w3" and k3: "hashed_for (w_index w3) key" "hashed_for (w_index w3) = hashed_for (w_index w)"
      using a t(2,3) key by (simp_all add: worker_inv_def)
    have cfg: "same_config w w3" using a by (simp add: same_config_def)
    have kp: "keeps w w3 ?f" using a by (simp add: keeps_def)
    have c3: "content w3 = content w" using content_keeps [OF kp] a t(2) by (simp add: content_def)
    have x3: "tab (w_index w3) ?k = Some x" "find_owned_segment w3 (rr_segment_id x) = Some q"
      using a x t(2) q kp by (auto simp: keeps_def)
    obtain w4 t' m where w4: "mark_dead_at w3 q x = (w4, ok)" "swiss_erase (w_index w4) key = (t', m)" "mr_previous m = Some x"
      "worker_inv (maybe_retire (w4\<lparr> w_index := t' \<rparr>) q)" "same_config w3 (maybe_retire (w4\<lparr> w_index := t' \<rparr>) q)"
      "hashed_for (w_index (maybe_retire (w4\<lparr> w_index := t' \<rparr>) q)) = hashed_for (w_index w3)"
      "content (maybe_retire (w4\<lparr> w_index := t' \<rparr>) q) = (content w3)(?k := None)" "w_active w4 = w_active w3"
      by (rule erase_commit [OF inv3 k3(1) x3])
    have step: "erase_locked_published ev w key =
       (case (w3, r) of
          (w, None) \<Rightarrow> (w, None)
        | (w, Some (Inl e)) \<Rightarrow> (w, Some (Inl e))
        | (w, Some (Inr ref)) \<Rightarrow> (maybe_retire (w4\<lparr> w_index := t' \<rparr>) q,
            Some (Inr \<lparr> pub_record = ref, pub_segment = w_active w4, pub_opcode = opcode_erase \<rparr>)))"
    proof -
      have "append_record ev ?w2 \<lparr> ri_sequence = w_next_sequence w, ri_opcode = opcode_erase, ri_type = type_bytes,
          ri_flags = 0, ri_key_hash = hk_hash key, ri_expire_at_ns = 0, ri_key = hk_key key, ri_value = [] \<rparr> = (w3, r)"
        using app by (simp add: erase_record_def)
      then show ?thesis
        using nq [unfolded quiesced_def] w4(1-3) q v fnd Some
        by (cases r rule: reply_cases) (auto simp: erase_locked_published_def next_sequence_def)
    qed
    have ne: "content w ?k \<noteq> None" using content_None [OF inv] x t(2) by simp
    show ?thesis
    proof (cases r rule: reply_cases)
      case none
      then show ?thesis using run step fails cfg inv3 k3 c3 by simp
    next
      case (err e)
      have "e = Record_too_large \<and> kMaxNormalRecordSize < rec_size ?i" if "compute_encoded_size ?i = Inl e"
        by (rule encoded_size_error [OF that]) (simp_all add: erase_record_def)
      then show ?thesis using run step fails cfg inv3 k3 c3 err by (auto simp: erase_failure_def)
    next
      case (ref ref)
      then show ?thesis using run step w4 cfg k3 c3 ne by (auto simp: same_config_def)
    qed
  qed
qed

end
