(* ===== verification/Worker_Refine.thy ===== *)
theory Worker_Refine
  imports Worker_Ops
begin

text \<open>
  The contract of an expiring key-value store, a client of it, and the Worker as a store of that
  kind.
\<close>

section \<open>Get\<close>

definition expired_at :: "u64 \<Rightarrow> u64 \<Rightarrow> bool" where
  "expired_at e now \<longleftrightarrow> e \<noteq> 0 \<and> now \<noteq> 0 \<and> e \<le> now"

lemma expired_view [simp]: "expired v now = expired_at (rv_expire_at_ns v) now"
  by (simp add: expired_def expired_at_def)

lemma view_of_sel [simp]:
  "rv_value (view_of i) = ri_value i" "rv_expire_at_ns (view_of i) = ri_expire_at_ns i" "rv_key (view_of i) = ri_key i"
  "rv_opcode (view_of i) = ri_opcode i"
  by (simp_all add: view_of_def)

lemma erase_failure_index [simp]: "erase_failure ev (w\<lparr> w_index := t \<rparr>) key e = erase_failure ev w key e"
  by (simp add: erase_failure_def quiesced_def erase_record_def)

lemma get_step:
  assumes inv: "worker_inv w" and key: "hashed_for (w_index w) key"
  obtains t where "worker_inv (w\<lparr> w_index := t \<rparr>)" "content (w\<lparr> w_index := t \<rparr>) = content w"
    "hashed_for t = hashed_for (w_index w)"
    "content w (hk_key key) = None \<Longrightarrow> get_locked ev w key now = (w\<lparr> w_index := t \<rparr>, Some (fail Not_found))"
    "\<And>v e. content w (hk_key key) = Some (v, e) \<Longrightarrow> \<not> expired_at e now \<Longrightarrow>
       \<exists>view. get_locked ev w key now = (w\<lparr> w_index := t \<rparr>, Some (Inr view)) \<and> rv_value view = v
         \<and> rv_expire_at_ns view = e \<and> rv_key view = hk_key key"
    "\<And>v e. content w (hk_key key) = Some (v, e) \<Longrightarrow> expired_at e now \<Longrightarrow>
       get_locked ev w key now = (case erase_locked ev (w\<lparr> w_index := t \<rparr>) key of
          (w, None) \<Rightarrow> (w, None) | (w, Some (Inl e)) \<Rightarrow> (w, Some (Inl e)) | (w, Some (Inr _)) \<Rightarrow> (w, Some (fail Not_found)))"
proof -
  let ?f = "tab (w_index w)" and ?k = "hk_key key"
  have b: "base w" "refers w ?f" "accounts w ?f" and o: "owns w" using inv by (simp_all add: worker_inv_def base_def)
  obtain t ex where fnd: "swiss_find (w_index w) key = (t, ex)" by fastforce
  have ti: "table_inv (w_index w)" using b(1) by (simp add: base_def)
  have t: "table_inv t" "tab t = ?f" "hashed_for t = hashed_for (w_index w)" "ex = ?f ?k"
    using hashed_index.lookup_law [OF ti key fnd] by simp_all
  have inv1: "worker_inv (w\<lparr> w_index := t \<rparr>)" using b base_index [OF b(1) t(1)] t(2) by (simp add: worker_inv_def)
  have c1: "content (w\<lparr> w_index := t \<rparr>) = content w"
    using content_keeps [of w "w\<lparr> w_index := t \<rparr>" ?f] t(2) by (simp add: content_def)
  show thesis
  proof (cases ex)
    case None
    then have "content w ?k = None" using t(4) by (simp add: content_def content_of_def)
    moreover have "get_locked ev w key now = (w\<lparr> w_index := t \<rparr>, Some (fail Not_found))"
      using None fnd by (simp add: get_locked_def)
    ultimately show thesis by (intro that [OF inv1 c1 t(3)]) simp_all
  next
    case (Some x)
    obtain p i where p: "p \<in> set (w_owned w)" "holds (seg_at w p) x i" "ri_key i = ?k" "ri_opcode i = opcode_put"
      using referred [OF o b(2)] Some t(4) by metis
    have rd: "read_ref w x = Inr (view_of i)" by (rule read_holds [OF o p(1,2)])
    have c: "content w ?k = Some (ri_value i, ri_expire_at_ns i)" using Some t(4) rd by (simp add: content_def content_of_def)
    have "get_locked ev w key now =
        (if expired_at (ri_expire_at_ns i) now then
           (case erase_locked ev (w\<lparr> w_index := t \<rparr>) key of
              (w, None) \<Rightarrow> (w, None) | (w, Some (Inl e)) \<Rightarrow> (w, Some (Inl e)) | (w, Some (Inr _)) \<Rightarrow> (w, Some (fail Not_found)))
         else (w\<lparr> w_index := t \<rparr>, Some (Inr (view_of i))))"
      using fnd Some rd p(4) by (simp add: get_locked_def record_enums)
    then show thesis using c p(3) by (intro that [OF inv1 c1 t(3)]) simp_all
  qed
qed

lemma get_ok:
  assumes inv: "worker_inv w" and key: "hashed_for (w_index w) key" and run: "get_locked ev w key now = (w', res)"
  shows "worker_inv w' \<and> same_config w w' \<and> hashed_for (w_index w') = hashed_for (w_index w)
    \<and> (case content w (hk_key key) of
         None \<Rightarrow> res = Some (fail Not_found) \<and> content w' = content w
       | Some (v, e) \<Rightarrow>
           if \<not> expired_at e now
           then (\<exists>view. res = Some (Inr view) \<and> rv_value view = v \<and> rv_expire_at_ns view = e \<and> rv_key view = hk_key key)
              \<and> content w' = content w
           else (case res of
                   None \<Rightarrow> ev_commit_throws ev \<and> content w' = content w
                 | Some (Inl er) \<Rightarrow> er = Not_found \<and> content w' = (content w)(hk_key key := None)
                     \<or> erase_failure ev w key er \<and> content w' = content w
                 | Some (Inr _) \<Rightarrow> False))"
proof (cases "content w (hk_key key)")
  case None
  obtain t where "worker_inv (w\<lparr> w_index := t \<rparr>)" "content (w\<lparr> w_index := t \<rparr>) = content w"
    "hashed_for t = hashed_for (w_index w)" "get_locked ev w key now = (w\<lparr> w_index := t \<rparr>, Some (fail Not_found))"
    by (rule get_step [OF inv key, of ev now]) (use None in blast)
  then show ?thesis using run None by auto
next
  case (Some ve)
  obtain v e where ve: "content w (hk_key key) = Some (v, e)" using Some by (cases ve) simp
  obtain t where t: "worker_inv (w\<lparr> w_index := t \<rparr>)" "content (w\<lparr> w_index := t \<rparr>) = content w"
    "hashed_for t = hashed_for (w_index w)" and
    live: "\<not> expired_at e now \<Longrightarrow> \<exists>view. get_locked ev w key now = (w\<lparr> w_index := t \<rparr>, Some (Inr view)) \<and> rv_value view = v
         \<and> rv_expire_at_ns view = e \<and> rv_key view = hk_key key" and
    gone: "expired_at e now \<Longrightarrow> get_locked ev w key now = (case erase_locked ev (w\<lparr> w_index := t \<rparr>) key of
          (w, None) \<Rightarrow> (w, None) | (w, Some (Inl e)) \<Rightarrow> (w, Some (Inl e)) | (w, Some (Inr _)) \<Rightarrow> (w, Some (fail Not_found)))"
    by (rule get_step [OF inv key, of ev now]) (use ve in blast)
  show ?thesis
  proof (cases "expired_at e now")
    case False
    then show ?thesis using live run t ve by auto
  next
    case True
    obtain w2 r where er: "erase_locked_published ev (w\<lparr> w_index := t \<rparr>) key = (w2, r)" by fastforce
    have "hashed_for (w_index (w\<lparr> w_index := t \<rparr>)) key" using key t(3) by simp
    note e = erase_ok [OF t(1) this er, unfolded t(2)]
    have w': "w' = w2" "res = (case r of None \<Rightarrow> None | Some (Inl e) \<Rightarrow> Some (Inl e) | Some (Inr _) \<Rightarrow> Some (fail Not_found))"
      using run gone True er by (cases r rule: reply_cases; simp add: erase_locked_def)+
    show ?thesis using e ve t(3) True unfolding w' by (cases r rule: reply_cases) (simp_all add: same_config_def)
  qed
qed

section \<open>The contract of an expiring store\<close>

locale expiring_store =
  fixes inv :: "'w \<Rightarrow> bool" and content :: "'w \<Rightarrow> bytes \<Rightarrow> (bytes \<times> u64) option"
    and name :: "'k \<Rightarrow> bytes" and usable :: "'w \<Rightarrow> 'k \<Rightarrow> bool"
    and put :: "'w \<Rightarrow> 'k \<Rightarrow> bytes \<Rightarrow> u64 \<Rightarrow> 'w \<times> status option"
    and erase :: "'w \<Rightarrow> 'k \<Rightarrow> 'w \<times> status option"
    and get :: "'w \<Rightarrow> 'k \<Rightarrow> u64 \<Rightarrow> 'w \<times> record_view result option"
  assumes put_law: "inv w \<Longrightarrow> usable w k \<Longrightarrow> put w k v e = (w', r) \<Longrightarrow>
      inv w' \<and> usable w' = usable w
      \<and> content w' = (if r = Some ok then (content w)(name k \<mapsto> (v, e)) else content w)"
    and erase_law: "inv w \<Longrightarrow> usable w k \<Longrightarrow> erase w k = (w', r) \<Longrightarrow>
      inv w' \<and> usable w' = usable w
      \<and> content w' = (if r = Some ok then (content w)(name k := None) else content w)
      \<and> (r = Some ok \<longrightarrow> content w (name k) \<noteq> None) \<and> (r = Some (fail Not_found) \<longrightarrow> content w (name k) = None)"
    and get_law: "inv w \<Longrightarrow> usable w k \<Longrightarrow> get w k now = (w', g) \<Longrightarrow>
      inv w' \<and> usable w' = usable w
      \<and> (case content w (name k) of
           None \<Rightarrow> g = Some (fail Not_found) \<and> content w' = content w
         | Some (v, e) \<Rightarrow>
             if expired_at e now
             then (\<forall>view. g \<noteq> Some (Inr view))
                \<and> content w' = (if g = Some (fail Not_found) then (content w)(name k := None) else content w)
             else (\<exists>view. g = Some (Inr view) \<and> rv_value view = v \<and> rv_expire_at_ns view = e) \<and> content w' = content w)"

text \<open>A client: a sequence of operations, the answers it gets and the answers a map gives.\<close>

datatype 'k store_op = St_put 'k bytes u64 | St_erase 'k | St_get 'k u64
datatype store_reply = Rs_status "status option" | Rs_get "record_view result option"

fun store_key :: "'k store_op \<Rightarrow> 'k" where
  "store_key (St_put k v e) = k"
| "store_key (St_erase k) = k"
| "store_key (St_get k now) = k"

fun store_step :: "('w \<Rightarrow> 'k \<Rightarrow> bytes \<Rightarrow> u64 \<Rightarrow> 'w \<times> status option) \<Rightarrow> ('w \<Rightarrow> 'k \<Rightarrow> 'w \<times> status option)
    \<Rightarrow> ('w \<Rightarrow> 'k \<Rightarrow> u64 \<Rightarrow> 'w \<times> record_view result option) \<Rightarrow> 'w \<Rightarrow> 'k store_op \<Rightarrow> 'w \<times> store_reply" where
  "store_step p e g w (St_put k v x) = (let (w, r) = p w k v x in (w, Rs_status r))"
| "store_step p e g w (St_erase k) = (let (w, r) = e w k in (w, Rs_status r))"
| "store_step p e g w (St_get k now) = (let (w, r) = g w k now in (w, Rs_get r))"

fun store_run where
  "store_run p e g w [] = (w, [])"
| "store_run p e g w (x # xs) =
     (let (w, r) = store_step p e g w x; (w, rs) = store_run p e g w xs in (w, r # rs))"

text \<open>
  A write or an erase that fails leaves the map as it is; a lookup returns the stored value until
  it expires; the lookup of an expired entry answers that the key is absent and removes it, or
  fails and leaves it.
\<close>

fun map_step :: "('k \<Rightarrow> bytes) \<Rightarrow> (bytes \<Rightarrow> (bytes \<times> u64) option) \<Rightarrow> 'k store_op \<Rightarrow> store_reply
    \<Rightarrow> (bytes \<Rightarrow> (bytes \<times> u64) option) option" where
  "map_step nm m (St_put k v e) (Rs_status r) = Some (if r = Some ok then m(nm k \<mapsto> (v, e)) else m)"
| "map_step nm m (St_erase k) (Rs_status r) =
     (if r = Some ok then (if m (nm k) = None then None else Some (m(nm k := None)))
      else if r = Some (fail Not_found) \<and> m (nm k) \<noteq> None then None else Some m)"
| "map_step nm m (St_get k now) (Rs_get r) =
     (case m (nm k) of
        None \<Rightarrow> if r = Some (fail Not_found) then Some m else None
      | Some (v, e) \<Rightarrow>
          (case r of
             Some (Inr view) \<Rightarrow>
               if \<not> expired_at e now \<and> rv_value view = v \<and> rv_expire_at_ns view = e then Some m else None
           | _ \<Rightarrow> if expired_at e now then Some (if r = Some (fail Not_found) then m(nm k := None) else m) else None))"
| "map_step nm m x r = None"

fun map_run where
  "map_run nm m [] [] = Some m"
| "map_run nm m (x # xs) (r # rs) = (case map_step nm m x r of None \<Rightarrow> None | Some m \<Rightarrow> map_run nm m xs rs)"
| "map_run nm m xs rs = None"

context expiring_store
begin

lemma step_refines:
  assumes "inv w" "usable w (store_key x)" "store_step put erase get w x = (w', r)"
  shows "inv w' \<and> usable w' = usable w \<and> map_step name (content w) x r = Some (content w')"
proof (cases x)
  case (St_put k v e)
  then obtain y where y: "put w k v e = (w', y)" "r = Rs_status y" using assms(3) by (auto split: prod.splits)
  show ?thesis using put_law [OF assms(1) _ y(1)] assms(2) St_put y(2) by simp
next
  case (St_erase k)
  then obtain y where y: "erase w k = (w', y)" "r = Rs_status y" using assms(3) by (auto split: prod.splits)
  show ?thesis using erase_law [OF assms(1) _ y(1)] assms(2) St_erase y(2) by auto
next
  case (St_get k now)
  then obtain y where y: "get w k now = (w', y)" "r = Rs_get y" using assms(3) by (auto split: prod.splits)
  have "usable w k" using assms(2) St_get by simp
  note law = get_law [OF assms(1) this y(1)]
  show ?thesis
  proof (cases "content w (name k)")
    case None
    then show ?thesis using law St_get y(2) by simp
  next
    case (Some ve)
    obtain v e where ve: "ve = (v, e)" by (cases ve)
    show ?thesis
    proof (cases "expired_at e now")
      case True
      then show ?thesis using law Some ve St_get y(2) by (cases y rule: reply_cases) auto
    next
      case False
      then show ?thesis using law Some ve St_get y(2) by auto
    qed
  qed
qed

theorem run_refines:
  "inv w \<Longrightarrow> \<forall>x \<in> set xs. usable w (store_key x) \<Longrightarrow> store_run put erase get w xs = (w', rs) \<Longrightarrow>
   inv w' \<and> map_run name (content w) xs rs = Some (content w')"
proof (induction xs arbitrary: w rs)
  case (Cons x xs)
  obtain w1 r where s: "store_step put erase get w x = (w1, r)" by fastforce
  obtain w2 rs' where u: "store_run put erase get w1 xs = (w2, rs')" by fastforce
  have "inv w1 \<and> usable w1 = usable w \<and> map_step name (content w) x r = Some (content w1)"
    by (rule step_refines [OF Cons.prems(1) _ s]) (use Cons.prems(2) in simp)
  then show ?case using Cons.IH [of w1 rs'] Cons.prems(2,3) s u by auto
qed simp

end

section \<open>The Worker as an expiring store\<close>

text \<open>Each call has its own environment.\<close>

type_synonym worker_key = "worker_env \<times> hashed_key"

definition wk_name :: "worker_key \<Rightarrow> bytes" where
  "wk_name = (\<lambda>(ev, key). hk_key key)"

definition wk_usable :: "worker \<Rightarrow> worker_key \<Rightarrow> bool" where
  "wk_usable w = (\<lambda>(ev, key). hashed_for (w_index w) key)"

definition wk_put :: "worker \<Rightarrow> worker_key \<Rightarrow> bytes \<Rightarrow> u64 \<Rightarrow> worker \<times> status option" where
  "wk_put w = (\<lambda>(ev, key) v e. worker_put ev w key v e)"

definition wk_erase :: "worker \<Rightarrow> worker_key \<Rightarrow> worker \<times> status option" where
  "wk_erase w = (\<lambda>(ev, key). worker_erase ev w key)"

definition wk_get :: "worker \<Rightarrow> worker_key \<Rightarrow> u64 \<Rightarrow> worker \<times> record_view result option" where
  "wk_get w = (\<lambda>(ev, key) now. worker_get ev w key now)"

lemmas wk_defs = wk_name_def wk_usable_def wk_put_def wk_erase_def wk_get_def worker_put_def worker_erase_def worker_get_def

interpretation worker_store: expiring_store worker_inv content wk_name wk_usable wk_put wk_erase wk_get
proof
  fix w k v e w' r assume a: "worker_inv w" "wk_usable w k" "wk_put w k v e = (w', r)"
  obtain ev key where k: "k = (ev, key)" by (cases k)
  obtain x where x: "put_locked_published ev w key v e = (w', x)" "r = map_option (\<lambda>r. bind_result r (\<lambda>_. ok)) x"
    using a(3) by (auto simp: k wk_defs put_locked_def split: prod.splits)
  have "hashed_for (w_index w) key" using a(2) by (simp add: k wk_defs)
  from put_ok [OF a(1) this x(1)]
  show "worker_inv w' \<and> wk_usable w' = wk_usable w
      \<and> content w' = (if r = Some ok then (content w)(wk_name k \<mapsto> (v, e)) else content w)"
    by (cases x rule: reply_cases) (auto simp: x(2) k wk_defs)
next
  fix w k w' r assume a: "worker_inv w" "wk_usable w k" "wk_erase w k = (w', r)"
  obtain ev key where k: "k = (ev, key)" by (cases k)
  obtain x where x: "erase_locked_published ev w key = (w', x)" "r = map_option (\<lambda>r. bind_result r (\<lambda>_. ok)) x"
    using a(3) by (auto simp: k wk_defs erase_locked_def split: prod.splits)
  have "hashed_for (w_index w) key" using a(2) by (simp add: k wk_defs)
  from erase_ok [OF a(1) this x(1)]
  show "worker_inv w' \<and> wk_usable w' = wk_usable w
      \<and> content w' = (if r = Some ok then (content w)(wk_name k := None) else content w)
      \<and> (r = Some ok \<longrightarrow> content w (wk_name k) \<noteq> None) \<and> (r = Some (fail Not_found) \<longrightarrow> content w (wk_name k) = None)"
    by (cases x rule: reply_cases) (auto simp: x(2) k wk_defs erase_failure_def)
next
  fix w k now w' r assume a: "worker_inv w" "wk_usable w k" "wk_get w k now = (w', r)"
  obtain ev key where k: "k = (ev, key)" by (cases k)
  have g: "get_locked ev w key now = (w', r)" "hashed_for (w_index w) key" using a by (simp_all add: k wk_defs)
  note law = get_ok [OF a(1) g(2,1)]
  show "worker_inv w' \<and> wk_usable w' = wk_usable w
      \<and> (case content w (wk_name k) of
           None \<Rightarrow> r = Some (fail Not_found) \<and> content w' = content w
         | Some (v, e) \<Rightarrow>
             if expired_at e now
             then (\<forall>view. r \<noteq> Some (Inr view))
                \<and> content w' = (if r = Some (fail Not_found) then (content w)(wk_name k := None) else content w)
             else (\<exists>view. r = Some (Inr view) \<and> rv_value view = v \<and> rv_expire_at_ns view = e) \<and> content w' = content w)"
  proof (cases "content w (hk_key key)")
    case None
    then show ?thesis using law by (simp add: k wk_defs)
  next
    case (Some ve)
    obtain v e where ve: "ve = (v, e)" by (cases ve)
    show ?thesis
    proof (cases "expired_at e now")
      case True
      then show ?thesis using law Some ve by (cases r rule: reply_cases) (auto simp: k wk_defs erase_failure_def)
    next
      case False
      then show ?thesis using law Some ve by (auto simp: k wk_defs)
    qed
  qed
qed

section \<open>A new Worker\<close>

lemma make_worker_inv:
  assumes "gm_inv h m" "gm_next_id m \<noteq> - 1"
  shows "\<exists>w. make_worker u h m wid routing sd = (w, Some ()) \<and> worker_inv w \<and> content w = Map.empty
    \<and> w_index w = make_swiss_table routing sd \<and> \<not> w_exclusive_writer w
    \<and> gm_next_id (w_manager w) = gm_next_id m + 1"
proof -
  obtain h' m' p where al: "allocate_active u h m wid = (h', m', p)" by (metis prod.exhaust)
  note a = allocate_active_inv [OF assms al]
  let ?t = "make_swiss_table routing sd"
  define w where "w = \<lparr> w_heap = h', w_manager = m', w_id = wid, w_index = ?t, w_active = p, w_next_sequence = 1,
    w_owned = [p], w_owned_by_id = [(gm_next_id m, p)], w_exclusive_writer = False, w_index_quiesce_active = False \<rparr>"
  have at: "seg_at w p = make_segment u (gm_next_id m) wid 1" using a(3) by (simp add: w_def)
  have run: "make_worker u h m wid routing sd = (w, Some ())"
    using al a(3) by (simp add: make_worker_def register_owned_segment_def w_def Let_def)
  have lg: "\<exists>log. seg_log (make_segment u (gm_next_id m) wid 1) log" using make_segment_log by blast
  have "owns w" unfolding owns_def using a(2,3) lg by (auto simp: w_def)
  moreover have "table_inv ?t" "tab ?t = Map.empty" by (simp_all add: make_swiss_table_ok)
  moreover have "refers w Map.empty" "accounts w Map.empty"
    using at by (simp_all add: refers_def accounts_def counted_def w_def live_keys_def live_size_def)
  ultimately have "worker_inv w" using a(1) by (simp add: worker_inv_def base_def) (simp add: w_def)
  moreover have "content w = Map.empty"
    using \<open>tab ?t = Map.empty\<close> by (simp add: content_def content_of_def w_def fun_eq_iff)
  moreover have "gm_next_id m' = gm_next_id m + 1"
    using al by (auto simp: allocate_active_def Let_def split: prod.splits)
  ultimately show ?thesis using run by (auto simp: w_def)
qed

text \<open>A Worker for examples, and a put that succeeds.\<close>

definition quiet_env :: worker_env where
  "quiet_env = \<lparr> ev_uninit = (\<lambda>_. 0), ev_debug = False, ev_fail_rotate = False, ev_fail_index_account = False,
     ev_commit_throws = False \<rparr>"

definition example_worker :: worker where
  "example_worker = fst (make_worker (\<lambda>_. 0xCD) \<lparr> hp_mem = (\<lambda>_. None), hp_next = 0 \<rparr> (make_manager 1) 3 default_routing 0)"

definition example_key :: hashed_key where
  "example_key = compute_hashed_key default_routing [104, 105]"

lemma example_worker_run:
  "make_worker (\<lambda>_. 0xCD) \<lparr> hp_mem = (\<lambda>_. None), hp_next = 0 \<rparr> (make_manager 1) 3 default_routing 0 = (example_worker, Some ())"
  "worker_inv example_worker" "content example_worker = Map.empty"
  "w_index example_worker = make_swiss_table default_routing 0" "\<not> w_exclusive_writer example_worker"
  "gm_next_id (w_manager example_worker) = 2" "hashed_for (w_index example_worker) example_key" "hk_key example_key = [104, 105]"
proof -
  have "gm_next_id (make_manager 1) \<noteq> - 1" by (simp add: make_manager_def)
  from make_worker_inv [OF gm_inv_make this, of "\<lambda>_. 0xCD" "\<lparr> hp_mem = (\<lambda>_. None), hp_next = 0 \<rparr>" 3 default_routing 0]
  show "make_worker (\<lambda>_. 0xCD) \<lparr> hp_mem = (\<lambda>_. None), hp_next = 0 \<rparr> (make_manager 1) 3 default_routing 0 = (example_worker, Some ())"
    "worker_inv example_worker" "content example_worker = Map.empty"
    and ix: "w_index example_worker = make_swiss_table default_routing 0" and "\<not> w_exclusive_writer example_worker"
    "gm_next_id (w_manager example_worker) = 2"
    by (auto simp: example_worker_def make_manager_def)
  show "hashed_for (w_index example_worker) example_key" "hk_key example_key = [104, 105]"
    by (simp_all add: ix hashed_for_def make_swiss_table_ok example_key_def compute_hashed_key_def)
qed

lemma example_put:
  "\<exists>w' pub. put_locked_published quiet_env example_worker example_key [7] e = (w', Some (Inr pub))
     \<and> worker_inv w' \<and> content w' = [[104, 105] \<mapsto> ([7], e)] \<and> hashed_for (w_index w') example_key"
proof -
  obtain w' r where run: "put_locked_published quiet_env example_worker example_key [7] e = (w', r)" by fastforce
  note p = put_ok [OF example_worker_run(2,7) run]
  have "rec_size (put_record example_worker example_key [7] e) \<le> kMaxNormalRecordSize"
    by (simp add: rec_size_def put_record_def record_consts record_extent_def example_worker_run(8))
  moreover have "arena_fits (w_index example_worker) (hk_key example_key)" "st_capacity (w_index example_worker) = 8"
    by (simp_all add: example_worker_run arena_fits_def make_swiss_table_def kSwissGroupSize_def)
  ultimately have "\<exists>pub. r = Some (Inr pub)"
    using p example_worker_run(5,6,8) by (cases r rule: reply_cases) (auto simp: quiesced_def quiet_env_def kSizeMax_def)
  then show ?thesis using run p example_worker_run(3,7,8) by auto
qed

section \<open>Properties\<close>

text \<open>
  C1.  A new Worker is an expiring map: every sequence of put, erase and get calls, with any
  environment in each call, is answered as a map from keys to values with an expiry answers it.
  A value is returned until it expires and the lookup of an expired key removes it; a call that
  fails or throws leaves the map as it is.  The sequence may rotate and retire segments and grow
  the index any number of times.
\<close>

theorem worker_refines_store:
  assumes "gm_inv h m" "gm_next_id m \<noteq> - 1" "make_worker u h m wid routing sd = (w, Some ())"
    and "\<forall>x \<in> set ops. hk_hash (snd (store_key x)) = hash_key_routing (hk_key (snd (store_key x))) routing"
    and "store_run wk_put wk_erase wk_get w ops = (w', replies)"
  shows "map_run wk_name Map.empty ops replies = Some (content w')"
proof -
  have w: "worker_inv w" "content w = Map.empty" "st_routing (w_index w) = routing"
    using make_worker_inv [OF assms(1,2), of u wid routing sd] assms(3) by (auto simp: make_swiss_table_ok)
  have "\<forall>x \<in> set ops. wk_usable w (store_key x)"
    using assms(4) w(3) by (auto simp: wk_defs hashed_for_def split: prod.splits)
  from worker_store.run_refines [OF w(1) this assms(5)] show ?thesis using w(2) by simp
qed

theorem worker_refines_store_witness:
  "\<exists>w' replies. store_run wk_put wk_erase wk_get example_worker
       [St_put (quiet_env, example_key) [7] 5, St_get (quiet_env, example_key) 3, St_get (quiet_env, example_key) 9,
        St_erase (quiet_env, example_key)] = (w', replies)
     \<and> map_run wk_name Map.empty
       [St_put (quiet_env, example_key) [7] 5, St_get (quiet_env, example_key) 3, St_get (quiet_env, example_key) 9,
        St_erase (quiet_env, example_key)] replies = Some (content w')"
proof -
  let ?ops = "[St_put (quiet_env, example_key) [7] 5, St_get (quiet_env, example_key) 3, St_get (quiet_env, example_key) 9,
        St_erase (quiet_env, example_key)]"
  obtain w' replies where run: "store_run wk_put wk_erase wk_get example_worker ?ops = (w', replies)" by fastforce
  have "gm_next_id (make_manager 1) \<noteq> - 1" by (simp add: make_manager_def)
  moreover have "\<forall>x \<in> set ?ops. hk_hash (snd (store_key x)) = hash_key_routing (hk_key (snd (store_key x))) default_routing"
    by (simp add: example_key_def compute_hashed_key_def)
  ultimately show ?thesis
    using worker_refines_store [OF gm_inv_make _ example_worker_run(1) _ run] run by blast
qed

text \<open>
  C2.  A put that is answered with a publication makes the value visible to the next lookup, at
  every time before its expiry; the published reference reads back the record with the key, the
  value and the sequence number the Worker assigned.
\<close>

theorem put_then_get:
  assumes "worker_inv w" "hashed_for (w_index w) key"
    and "put_locked_published ev w key val exp = (w', Some (Inr pub))" "\<not> expired_at exp now"
    and "get_locked ev' w' key now = (w'', res)"
  shows "\<exists>view. res = Some (Inr view) \<and> rv_value view = val \<and> rv_expire_at_ns view = exp \<and> rv_key view = hk_key key
     \<and> read_ref w' (pub_record pub) = Inr (view_of (put_record w key val exp)) \<and> worker_inv w''"
proof -
  note p = put_ok [OF assms(1-3), simplified]
  have "hashed_for (w_index w') key" using p assms(2) by simp
  with get_ok [OF _ this assms(5)] p assms(4) show ?thesis by auto
qed

theorem put_then_get_witness:
  "\<exists>w' pub w'' view. put_locked_published quiet_env example_worker example_key [7] 5 = (w', Some (Inr pub))
     \<and> get_locked quiet_env w' example_key 3 = (w'', Some (Inr view)) \<and> rv_value view = [7]"
proof -
  obtain w' pub where p: "put_locked_published quiet_env example_worker example_key [7] 5 = (w', Some (Inr pub))"
    using example_put by blast
  obtain w'' res where g: "get_locked quiet_env w' example_key 3 = (w'', res)" by fastforce
  have "\<not> expired_at 5 3" by (simp add: expired_at_def)
  from put_then_get [OF example_worker_run(2,7) p this g] p g show ?thesis by blast
qed

text \<open>
  C3.  A put fails for one of these reasons only: the index is quiesced under an exclusive Writer,
  an injected fault, an encoded record above 1 MiB, no segment id left for a rotation, or an
  insertion the index refuses.  It then leaves every key as it was and keeps the invariant.
\<close>

theorem put_failures_exact:
  assumes "worker_inv w" "hashed_for (w_index w) key"
    and "put_locked_published ev w key val exp = (w', Some (Inl e))"
  shows "worker_inv w' \<and> content w' = content w
     \<and> (quiesced w \<and> e = Sequence_conflict \<or> ev_fail_rotate ev \<and> e = Invalid_reference
        \<or> kMaxNormalRecordSize < rec_size (put_record w key val exp) \<and> e = Record_too_large
        \<or> gm_next_id (w_manager w) = - 1 \<and> e = Arithmetic_overflow
        \<or> e = Unavailable \<and> (ev_fail_index_account ev \<or> 2 ^ 31 \<le> length (hk_key key)
             \<or> \<not> arena_fits (w_index w) (hk_key key) \<or> kSizeMax div 2 < st_capacity (w_index w)))"
  using put_ok [OF assms] by simp

theorem put_failures_exact_witness:
  "\<exists>w'. put_locked_published (quiet_env\<lparr> ev_fail_rotate := True \<rparr>) example_worker example_key [7] 5
      = (w', Some (Inl Invalid_reference)) \<and> content w' = Map.empty"
proof -
  have "put_locked_published (quiet_env\<lparr> ev_fail_rotate := True \<rparr>) example_worker example_key [7] 5
      = (fst (next_sequence example_worker), Some (Inl Invalid_reference))"
    using example_worker_run(5) by (simp add: put_locked_published_def append_record_def next_sequence_def)
  from put_failures_exact [OF example_worker_run(2,7) this] this show ?thesis using example_worker_run(3) by auto
qed

text \<open>
  C30.  Under an exclusive Writer a lookup of an expired key through the quiesce gate answers
  \<open>sequence_conflict\<close>: the lookup holds the gate while it erases the key, and the erase refuses to
  run while the gate is armed.  The key is not removed.
\<close>

theorem expired_get_conflicts:
  assumes "worker_inv w" "hashed_for (w_index w) key" "w_exclusive_writer w" "w_index_quiesce_active w"
    and "content w (hk_key key) = Some (v, e)" "expired_at e now"
  shows "\<exists>w'. get_locked ev w key now = (w', Some (fail Sequence_conflict)) \<and> content w' = content w"
proof -
  obtain t where t: "content (w\<lparr> w_index := t \<rparr>) = content w" and
    g: "get_locked ev w key now = (case erase_locked ev (w\<lparr> w_index := t \<rparr>) key of
          (w, None) \<Rightarrow> (w, None) | (w, Some (Inl e)) \<Rightarrow> (w, Some (Inl e)) | (w, Some (Inr _)) \<Rightarrow> (w, Some (fail Not_found)))"
    by (rule get_step [OF assms(1,2), of ev now]) (use assms(5,6) in blast)
  have "erase_locked ev (w\<lparr> w_index := t \<rparr>) key = (w\<lparr> w_index := t \<rparr>, Some (fail Sequence_conflict))"
    using assms(3,4) by (simp add: erase_locked_def erase_locked_published_def)
  then show ?thesis using g t by simp
qed

lemma quiesced_frame:
  "worker_inv (w\<lparr> w_exclusive_writer := x, w_index_quiesce_active := y \<rparr>) = worker_inv w"
  "content (w\<lparr> w_exclusive_writer := x, w_index_quiesce_active := y \<rparr>) = content w"
  by (simp_all add: worker_inv_def base_def owns_def refers_def accounts_def counted_def content_def content_of_def
      read_ref_def find_owned_segment_def fun_eq_iff cong: option.case_cong)

theorem expired_get_conflicts_witness:
  "\<exists>w w'. get_locked quiet_env (w\<lparr> w_exclusive_writer := True, w_index_quiesce_active := True \<rparr>) example_key 9
       = (w', Some (fail Sequence_conflict))
     \<and> fst (put_locked_published quiet_env example_worker example_key [7] 5) = w
     \<and> content w' [104, 105] = Some ([7], 5)"
proof -
  obtain w pub where p: "put_locked_published quiet_env example_worker example_key [7] 5 = (w, Some (Inr pub))"
    "worker_inv w" "content w = [[104, 105] \<mapsto> ([7], 5)]" "hashed_for (w_index w) example_key"
    using example_put by blast
  let ?w = "w\<lparr> w_exclusive_writer := True, w_index_quiesce_active := True \<rparr>"
  have "worker_inv ?w" "hashed_for (w_index ?w) example_key" "content ?w (hk_key example_key) = Some ([7], 5)"
    "expired_at 5 9" using p by (simp_all add: quiesced_frame example_worker_run(8) expired_at_def)
  from expired_get_conflicts [OF this(1,2) _ _ this(3,4), of quiet_env] p show ?thesis by (auto simp: quiesced_frame)
qed

end
