(* ===== verification/Vacuum.thy ===== *)
theory Vacuum
  imports Worker_Store
begin

text \<open>
  Compaction: \<open>src/include/glifistore/vacuum/vacuum.hpp\<close>, \<open>src/src/vacuum/vacuum.cpp\<close> and
  \<open>Worker::compact\<close> of \<open>src/src/worker/worker.cpp\<close>.  The planner picks sealed segments with little
  live data, the builder copies what the index still refers to in them into new segments and
  builds a new index, and the Worker publishes both.

  The ratio of two counters is a \<open>double\<close>, so the division is a parameter into a linear order; so
  is the sort by it, which leaves the order of equal ratios open.  The allocator of replacement
  segments is an argument with a state of its own, as the \<open>std::function\<close> is in the source.
\<close>

section \<open>The planner\<close>

record 'r vacuum_policy =
  maximum_live_ratio :: 'r
  maximum_segments_per_run :: nat

definition candidates ::
  "(u64 \<Rightarrow> nat \<Rightarrow> 'r::linorder) \<Rightarrow> ((u64 \<times> 'r) list \<Rightarrow> (u64 \<times> 'r) list) \<Rightarrow> 'r vacuum_policy \<Rightarrow> seg_heap \<Rightarrow> ptr list \<Rightarrow> u64 list" where
  "candidates ratio_of sorted_by_ratio policy h segs =
     (let ratio = (\<lambda>p. ratio_of (ss_live_bytes (seg_stats (deref h p))) (ss_used_bytes (seg_stats (deref h p))));
          ranked = map (\<lambda>p. (seg_id (deref h p), ratio p))
            (filter (\<lambda>p. \<not> (seg_state (deref h p) \<noteq> Seg_sealed \<or> ss_record_count (seg_stats (deref h p)) = 0)
                         \<and> ratio p \<le> maximum_live_ratio policy) segs);
          ranked = sorted_by_ratio ranked;
          ranked = (if length ranked > maximum_segments_per_run policy
                    then take (maximum_segments_per_run policy) ranked else ranked)
      in map fst ranked)"

section \<open>The builder\<close>

record vacuum_stats =
  vc_source_records_verified :: u64
  vc_source_bytes_verified :: u64
  vc_records_copied :: u64
  vc_bytes_copied :: u64
  vc_expired_records_dropped :: u64
  vc_old_segments :: u64
  vc_new_segments :: u64

record vacuum_result =
  vr_index :: swiss_table
  vr_segments :: "ptr list"
  vr_stats :: vacuum_stats

record source_accounting =
  sa_segment :: ptr
  sa_records :: u64
  sa_bytes :: u64

type_synonym sources = "(u64 \<times> source_accounting) list"
type_synonym 'a allocator = "seg_heap \<Rightarrow> 'a \<Rightarrow> seg_heap \<times> 'a \<times> ptr option result"

definition make_catalog :: "seg_heap \<Rightarrow> ptr list \<Rightarrow> catalog" where
  "make_catalog h segs =
     foldl (\<lambda>result p. let sid = seg_id (deref h p) in
              if map_of result sid = None then AList.update sid p result else result) [] segs"

text \<open>The first loop of \<open>rebuild\<close>; the owner is absent until the first source has given it.\<close>

fun collect_sources :: "seg_heap \<Rightarrow> catalog \<Rightarrow> sources \<Rightarrow> u32 option \<Rightarrow> u64 list \<Rightarrow> (sources \<times> u32 option) result" where
  "collect_sources h catalog sources source_owner [] = Inr (sources, source_owner)"
| "collect_sources h catalog sources source_owner (sid # rest) =
     (case map_of catalog sid of
        None \<Rightarrow> fail Invalid_reference
      | Some p \<Rightarrow>
          if seg_state (deref h p) \<noteq> Seg_sealed then fail Invalid_reference
          else if map_of sources sid \<noteq> None then fail Invalid_argument
          else
            let sources = AList.update sid \<lparr> sa_segment = p, sa_records = 0, sa_bytes = 0 \<rparr> sources in
            (case source_owner of
               None \<Rightarrow> collect_sources h catalog sources (Some (seg_owner (deref h p))) rest
             | Some owner \<Rightarrow>
                 if seg_owner (deref h p) \<noteq> owner then fail Invalid_argument
                 else collect_sources h catalog sources source_owner rest))"

text \<open>The variables of the copying loop.\<close>

record 'a vacuum_state =
  vs_heap :: seg_heap
  vs_alloc :: 'a
  vs_sources :: sources
  vs_index :: swiss_table
  vs_segments :: "ptr list"
  vs_stats :: vacuum_stats

definition allocate_replacement ::
  "'a allocator \<Rightarrow> catalog \<Rightarrow> u32 option \<Rightarrow> 'a vacuum_state \<Rightarrow> 'a vacuum_state \<times> status" where
  "allocate_replacement allocate_segment catalog source_owner st =
     (let (h, a, allocated) = allocate_segment (vs_heap st) (vs_alloc st);
          st = st\<lparr> vs_heap := h, vs_alloc := a \<rparr>
      in case allocated of
           Inl e \<Rightarrow> (st, Inl e)
         | Inr None \<Rightarrow> (st, fail Invalid_argument)
         | Inr (Some p) \<Rightarrow>
             let s = deref h p in
             if seg_state s \<noteq> Seg_active
                \<or> (case source_owner of None \<Rightarrow> False | Some owner \<Rightarrow> seg_owner s \<noteq> owner)
                \<or> map_of catalog (seg_id s) \<noteq> None
             then (st, fail Invalid_argument)
             else if \<exists>q \<in> set (vs_segments st). seg_id (deref h q) = seg_id s
             then (st, fail Invalid_argument)
             else (st\<lparr> vs_segments := vs_segments st @ [p] \<rparr>, ok))"

text \<open>\<open>append\<close>, \<open>seal\<close> and \<open>mark_live\<close> on \<open>new_segments.back()\<close>.\<close>

definition append_back :: "bool \<Rightarrow> 'a vacuum_state \<Rightarrow> record_input \<Rightarrow> 'a vacuum_state \<times> record_ref result" where
  "append_back debug st inp =
     (let p = last (vs_segments st); (s, ref) = segment_append debug (deref (vs_heap st) p) inp
      in (st\<lparr> vs_heap := assign (vs_heap st) p s \<rparr>, ref))"

definition seal_back :: "'a vacuum_state \<Rightarrow> 'a vacuum_state \<times> status" where
  "seal_back st =
     (let p = last (vs_segments st); (s, r) = segment_seal (deref (vs_heap st) p)
      in (st\<lparr> vs_heap := assign (vs_heap st) p s \<rparr>, r))"

definition mark_live_back :: "'a vacuum_state \<Rightarrow> record_ref \<Rightarrow> 'a vacuum_state \<times> status" where
  "mark_live_back st ref =
     (let p = last (vs_segments st); (s, r) = segment_mark_live (deref (vs_heap st) p) ref
      in (st\<lparr> vs_heap := assign (vs_heap st) p s \<rparr>, r))"

definition append_replacement ::
  "bool \<Rightarrow> 'a allocator \<Rightarrow> catalog \<Rightarrow> u32 option \<Rightarrow> 'a vacuum_state \<Rightarrow> record_input \<Rightarrow> 'a vacuum_state \<times> record_ref result" where
  "append_replacement debug allocate_segment catalog source_owner st inp =
     (case (if vs_segments st = [] then allocate_replacement allocate_segment catalog source_owner st else (st, ok)) of
        (st, Inl e) \<Rightarrow> (st, Inl e)
      | (st, Inr _) \<Rightarrow>
          (case append_back debug st inp of
             (st, ref) \<Rightarrow>
               if ref \<noteq> fail Segment_full then (st, ref)
               else
                 (case seal_back st of
                    (st, Inl e) \<Rightarrow> (st, Inl e)
                  | (st, Inr _) \<Rightarrow>
                      (case allocate_replacement allocate_segment catalog source_owner st of
                         (st, Inl e) \<Rightarrow> (st, Inl e)
                       | (st, Inr _) \<Rightarrow> append_back debug st inp))))"

text \<open>One round of the copying loop.\<close>

definition vacuum_entry ::
  "bool \<Rightarrow> 'a allocator \<Rightarrow> catalog \<Rightarrow> u32 option \<Rightarrow> u64 \<Rightarrow> 'a vacuum_state \<Rightarrow> bytes \<times> record_ref \<Rightarrow> 'a vacuum_state \<times> status" where
  "vacuum_entry debug allocate_segment catalog source_owner now_ns st entry =
     (let key = fst entry; record = snd entry in
      case map_of catalog (rr_segment_id record) of
        None \<Rightarrow> (st, fail Invalid_reference)
      | Some found \<Rightarrow>
          (case map_of (vs_sources st) (rr_segment_id record) of
             None \<Rightarrow>
               let (t, inserted) = index_insert_or_assign (vs_index st) key record
               in (st\<lparr> vs_index := t \<rparr>, bind_result inserted (\<lambda>_. ok))
           | Some source \<Rightarrow>
               (case segment_read (deref (vs_heap st) found) record of
                  Inl e \<Rightarrow> (st, Inl e)
                | Inr view \<Rightarrow>
                    let size = ucast (rr_size record);
                        source = source\<lparr> sa_records := sa_records source + 1, sa_bytes := sa_bytes source + size \<rparr>;
                        stats = vs_stats st;
                        stats = stats\<lparr> vc_source_records_verified := vc_source_records_verified stats + 1,
                                       vc_source_bytes_verified := vc_source_bytes_verified stats + size \<rparr>;
                        st = st\<lparr> vs_sources := AList.update (rr_segment_id record) source (vs_sources st), vs_stats := stats \<rparr>
                    in if expired view now_ns
                       then (st\<lparr> vs_stats := stats\<lparr> vc_expired_records_dropped := vc_expired_records_dropped stats + 1 \<rparr> \<rparr>, ok)
                       else
                         (case append_replacement debug allocate_segment catalog source_owner st (input_of view) of
                            (st, Inl e) \<Rightarrow> (st, Inl e)
                          | (st, Inr ref) \<Rightarrow>
                              (case mark_live_back st ref of
                                 (st, Inl e) \<Rightarrow> (st, Inl e)
                               | (st, Inr _) \<Rightarrow>
                                   (case index_insert_or_assign (vs_index st) key ref of
                                      (t, Inl e) \<Rightarrow> (st\<lparr> vs_index := t \<rparr>, Inl e)
                                    | (t, Inr _) \<Rightarrow>
                                        (st\<lparr> vs_index := t,
                                             vs_stats := (vs_stats st)\<lparr> vc_records_copied := vc_records_copied (vs_stats st) + 1,
                                               vc_bytes_copied := vc_bytes_copied (vs_stats st) + ucast (rr_size ref) \<rparr> \<rparr>,
                                         ok)))))))"

fun vacuum_entries ::
  "bool \<Rightarrow> 'a allocator \<Rightarrow> catalog \<Rightarrow> u32 option \<Rightarrow> u64 \<Rightarrow> 'a vacuum_state \<Rightarrow> (bytes \<times> record_ref) list \<Rightarrow> 'a vacuum_state \<times> status" where
  "vacuum_entries debug allocate_segment catalog source_owner now_ns st [] = (st, ok)"
| "vacuum_entries debug allocate_segment catalog source_owner now_ns st (entry # rest) =
     (case vacuum_entry debug allocate_segment catalog source_owner now_ns st entry of
        (st, Inl e) \<Rightarrow> (st, Inl e)
      | (st, Inr _) \<Rightarrow> vacuum_entries debug allocate_segment catalog source_owner now_ns st rest)"

text \<open>The comparison of the sources' counters with what the loop saw, in any order.\<close>

definition sources_agree :: "seg_heap \<Rightarrow> sources \<Rightarrow> bool" where
  "sources_agree h sources \<longleftrightarrow>
     list_all (\<lambda>(_, source). let stats = seg_stats (deref h (sa_segment source)) in
       sa_records source = ss_live_records stats \<and> sa_bytes source = ss_live_bytes stats) sources"

fun seal_all :: "seg_heap \<Rightarrow> ptr list \<Rightarrow> seg_heap \<times> status" where
  "seal_all h [] = (h, ok)"
| "seal_all h (p # rest) =
     (if seg_state (deref h p) = Seg_active then
        let (s, r) = segment_seal (deref h p); h = assign h p s
        in (case r of Inl e \<Rightarrow> (h, Inl e) | Inr _ \<Rightarrow> seal_all h rest)
      else seal_all h rest)"

definition rebuild ::
  "bool \<Rightarrow> swiss_table \<Rightarrow> ptr list \<Rightarrow> u64 list \<Rightarrow> 'a allocator option \<Rightarrow> u64 \<Rightarrow> seg_heap \<Rightarrow> 'a
   \<Rightarrow> seg_heap \<times> 'a \<times> vacuum_result result" where
  "rebuild debug current_index current_segments cands allocate_segment now_ns h a =
     (case allocate_segment of
        None \<Rightarrow> (h, a, fail Invalid_argument)
      | Some allocate_segment \<Rightarrow>
          let catalog = make_catalog h current_segments in
          (case collect_sources h catalog [] None cands of
             Inl e \<Rightarrow> (h, a, Inl e)
           | Inr (sources, source_owner) \<Rightarrow>
               (case reserve (make_empty current_index) (st_size current_index) of
                  (_, Inl e) \<Rightarrow> (h, a, Inl e)
                | (new_index, Inr _) \<Rightarrow>
                    let st = \<lparr> vs_heap = h, vs_alloc = a, vs_sources = sources, vs_index = new_index, vs_segments = [],
                               vs_stats = \<lparr> vc_source_records_verified = 0, vc_source_bytes_verified = 0,
                                 vc_records_copied = 0, vc_bytes_copied = 0, vc_expired_records_dropped = 0,
                                 vc_old_segments = of_nat (length cands), vc_new_segments = 0 \<rparr> \<rparr>
                    in (case vacuum_entries debug allocate_segment catalog source_owner now_ns st (swiss_entries current_index) of
                          (st, Inl e) \<Rightarrow> (vs_heap st, vs_alloc st, Inl e)
                        | (st, Inr _) \<Rightarrow>
                            if \<not> sources_agree (vs_heap st) (vs_sources st)
                            then (vs_heap st, vs_alloc st, fail Corrupted_data)
                            else
                              (case seal_all (vs_heap st) (vs_segments st) of
                                 (h, Inl e) \<Rightarrow> (h, vs_alloc st, Inl e)
                               | (h, Inr _) \<Rightarrow>
                                   (h, vs_alloc st,
                                    Inr \<lparr> vr_index = vs_index st, vr_segments = vs_segments st,
                                          vr_stats = (vs_stats st)\<lparr> vc_new_segments := of_nat (length (vs_segments st)) \<rparr> \<rparr>))))))"

text \<open>The overload that replaces every segment; its allocator counts up from a first id.\<close>

definition counting_allocator :: "(nat \<Rightarrow> byte) \<Rightarrow> u32 \<Rightarrow> (u64 \<times> bool) allocator" where
  "counting_allocator uninit owner h a =
     (let (next_id, exhausted) = a in
      if exhausted then (h, a, fail Arithmetic_overflow)
      else
        let sid = next_id;
            a = (if next_id = - 1 then (next_id, True) else (next_id + 1, exhausted));
            (h, p) = make_shared h (make_segment uninit sid owner 1)
        in (h, a, Inr (Some p)))"

definition rebuild_all ::
  "bool \<Rightarrow> (nat \<Rightarrow> byte) \<Rightarrow> swiss_table \<Rightarrow> ptr list \<Rightarrow> u64 \<Rightarrow> u32 \<Rightarrow> seg_heap \<Rightarrow> seg_heap \<times> vacuum_result result" where
  "rebuild_all debug uninit current_index current_segments first_new_segment owner h =
     (let cands = map (\<lambda>p. seg_id (deref h p)) current_segments;
          (h, _, r) = rebuild debug current_index current_segments cands
             (Some (counting_allocator uninit owner)) 0 h (first_new_segment, False)
      in (h, r))"

section \<open>Compaction of a Worker\<close>

definition manager_allocator :: "(nat \<Rightarrow> byte) \<Rightarrow> u32 \<Rightarrow> manager allocator" where
  "manager_allocator uninit owner h m =
     (let (h, m, r) = prepare_segment uninit h m owner in (h, m, bind_result r (\<lambda>p. Inr (Some p))))"

fun index_owned :: "seg_heap \<Rightarrow> (u64 \<times> ptr) list \<Rightarrow> ptr list \<Rightarrow> (u64 \<times> ptr) list result" where
  "index_owned h by_id [] = Inr by_id"
| "index_owned h by_id (p # rest) =
     (if map_of by_id (seg_id (deref h p)) \<noteq> None then fail Corrupted_data
      else index_owned h (AList.update (seg_id (deref h p)) p by_id) rest)"

text \<open>The lambda \<open>restore_liveness\<close> and the loop that marks the copied records dead.\<close>

fun restore_liveness :: "u64 list \<Rightarrow> nat \<Rightarrow> nat \<Rightarrow> worker \<Rightarrow> (bytes \<times> record_ref) list \<Rightarrow> worker" where
  "restore_liveness cands marked_dead restored w [] = w"
| "restore_liveness cands marked_dead restored w ((key, record) # rest) =
     (if rr_segment_id record \<notin> set cands then restore_liveness cands marked_dead restored w rest
      else if restored = marked_dead then w
      else
        let w = (case find_owned_segment w (rr_segment_id record) of
                   None \<Rightarrow> w
                 | Some p \<Rightarrow> fst (mark_live_at w p record))
        in restore_liveness cands marked_dead (restored + 1) w rest)"

fun mark_copied_dead :: "u64 list \<Rightarrow> nat \<Rightarrow> worker \<Rightarrow> (bytes \<times> record_ref) list \<Rightarrow> worker \<times> nat \<times> status" where
  "mark_copied_dead cands marked_dead w [] = (w, marked_dead, ok)"
| "mark_copied_dead cands marked_dead w ((key, record) # rest) =
     (if rr_segment_id record \<notin> set cands then mark_copied_dead cands marked_dead w rest
      else
        (case find_owned_segment w (rr_segment_id record) of
           None \<Rightarrow> (w, marked_dead, fail Invalid_reference)
         | Some p \<Rightarrow>
             (case mark_dead_at w p record of
                (w, Inl e) \<Rightarrow> (w, marked_dead, Inl e)
              | (w, Inr _) \<Rightarrow> mark_copied_dead cands (marked_dead + 1) w rest)))"

text \<open>The publication of a vacuumed index; \<open>throw_at\<close> is as in \<open>replace_sealed\<close>.\<close>

definition publish_vacuumed :: "nat option \<Rightarrow> worker \<Rightarrow> u64 list \<Rightarrow> vacuum_result \<Rightarrow> worker \<times> vacuum_stats option result option" where
  "publish_vacuumed throw_at w cands vacuumed =
     (let next_owned = filter (\<lambda>p. seg_id (seg_at w p) \<notin> set cands) (w_owned w) @ vr_segments vacuumed in
      case index_owned (w_heap w) [] next_owned of
        Inl e \<Rightarrow> (w, Some (Inl e))
      | Inr next_owned_by_id \<Rightarrow>
          if map_of next_owned_by_id (seg_id (seg_at w (w_active w))) = None then (w, Some (fail Corrupted_data))
          else
            let entries = swiss_entries (w_index w);
                (w, marked_dead, marked) = mark_copied_dead cands 0 w entries
            in case marked of
                 Inl e \<Rightarrow> (restore_liveness cands marked_dead 0 w entries, Some (Inl e))
               | Inr _ \<Rightarrow>
                   let (h, m, published) = replace_sealed throw_at (w_heap w) (w_manager w) cands (map Some (vr_segments vacuumed));
                       w = w\<lparr> w_heap := h, w_manager := m \<rparr>
                   in (case published of
                         None \<Rightarrow> (restore_liveness cands marked_dead 0 w entries, None)
                       | Some (Inl e) \<Rightarrow> (restore_liveness cands marked_dead 0 w entries, Some (Inl e))
                       | Some (Inr _) \<Rightarrow>
                           (w\<lparr> w_index := vr_index vacuumed, w_owned := next_owned, w_owned_by_id := next_owned_by_id \<rparr>,
                            Some (Inr (Some (vr_stats vacuumed))))))"

definition compact_locked ::
  "worker_env \<Rightarrow> (u64 \<Rightarrow> nat \<Rightarrow> 'r::linorder) \<Rightarrow> ((u64 \<times> 'r) list \<Rightarrow> (u64 \<times> 'r) list) \<Rightarrow> nat option
   \<Rightarrow> worker \<Rightarrow> u64 \<Rightarrow> 'r vacuum_policy \<Rightarrow> worker \<times> vacuum_stats option result option" where
  "compact_locked ev ratio_of sorted_by_ratio throw_at w now_ns policy =
     (let cands = candidates ratio_of sorted_by_ratio policy (w_heap w) (w_owned w) in
      if cands = [] then (w, Some (Inr None))
      else
        let (h, m, vacuumed) = rebuild (ev_debug ev) (w_index w) (w_owned w) cands
              (Some (manager_allocator (ev_uninit ev) (w_id w))) now_ns (w_heap w) (w_manager w);
            w = w\<lparr> w_heap := h, w_manager := m \<rparr>
        in case vacuumed of
             Inl e \<Rightarrow> (w, Some (Inl e))
           | Inr r \<Rightarrow>
               if length (vr_segments r) \<ge> length cands then (w, Some (Inr None))
               else publish_vacuumed throw_at w cands r)"

text \<open>With an exclusive Writer the index is quiesced around the work.\<close>

definition quiesce_index :: "worker \<Rightarrow> bool \<Rightarrow> worker" where
  "quiesce_index w active = (if w_exclusive_writer w then w\<lparr> w_index_quiesce_active := active \<rparr> else w)"

definition compact ::
  "worker_env \<Rightarrow> (u64 \<Rightarrow> nat \<Rightarrow> 'r::linorder) \<Rightarrow> ((u64 \<times> 'r) list \<Rightarrow> (u64 \<times> 'r) list) \<Rightarrow> nat option
   \<Rightarrow> worker \<Rightarrow> u64 \<Rightarrow> 'r vacuum_policy \<Rightarrow> worker \<times> vacuum_stats option result option" where
  "compact ev ratio_of sorted_by_ratio throw_at w now_ns policy =
     (let (w, r) = compact_locked ev ratio_of sorted_by_ratio throw_at (quiesce_index w True) now_ns policy
      in (quiesce_index w False, r))"

end
