(* ===== verification/Vacuum_Inv.thy ===== *)
theory Vacuum_Inv
  imports Vacuum
begin

text \<open>
  The copying loop of compaction.  While it runs, the segments of the Worker stay as they are, the
  new segments hold the copied records, and the new index maps every key seen so far to its old
  record, to its copy, or to nothing when the record has expired.
\<close>

section \<open>Sources\<close>

lemma make_catalog_map:
  assumes "distinct (map (\<lambda>p. seg_id (deref h p)) ps)"
  shows "map_of (make_catalog h ps) sid = Some p \<longleftrightarrow> p \<in> set ps \<and> seg_id (deref h p) = sid"
  using assms
proof (induction ps arbitrary: sid p rule: rev_induct)
  case (snoc q ps)
  have "map_of (make_catalog h ps) (seg_id (deref h q)) = None"
  proof (cases "map_of (make_catalog h ps) (seg_id (deref h q))")
    case (Some r)
    then have "r \<in> set ps" "seg_id (deref h r) = seg_id (deref h q)" using snoc by simp_all
    then show ?thesis using snoc.prems by (auto simp: image_iff)
  qed
  then have "make_catalog h (ps @ [q]) = AList.update (seg_id (deref h q)) q (make_catalog h ps)"
    by (simp add: make_catalog_def Let_def)
  then show ?case using snoc by (auto simp: AList.update_conv' image_iff)
qed (simp add: make_catalog_def)

lemma catalog_owned:
  assumes "owns w"
  shows "map_of (make_catalog (w_heap w) (w_owned w)) = map_of (w_owned_by_id w)"
proof
  fix sid
  have "distinct (map (\<lambda>p. seg_id (seg_at w p)) (w_owned w))"
    using assms owned_id_inj [OF assms] by (auto simp: owns_def distinct_map inj_on_def)
  then have "map_of (make_catalog (w_heap w) (w_owned w)) sid = Some p \<longleftrightarrow> map_of (w_owned_by_id w) sid = Some p" for p
    using make_catalog_map owned_lookup [OF assms] by simp
  then show "map_of (make_catalog (w_heap w) (w_owned w)) sid = map_of (w_owned_by_id w) sid"
    by (metis not_None_eq)
qed

definition good_source :: "seg_heap \<Rightarrow> catalog \<Rightarrow> sources \<Rightarrow> u64 \<Rightarrow> bool" where
  "good_source h cat srcs sid \<longleftrightarrow> map_of srcs sid = None \<and> (\<exists>p. map_of cat sid = Some p \<and> seg_state (deref h p) = Seg_sealed)"

lemma collect_sources_ok:
  assumes "\<And>sid p. map_of cat sid = Some p \<Longrightarrow> seg_owner (deref h p) = wid"
  shows "ow = None \<or> ow = Some wid \<Longrightarrow> distinct (map fst srcs) \<Longrightarrow>
    case collect_sources h cat srcs ow ids of
      Inl e \<Rightarrow> \<not> (distinct ids \<and> (\<forall>sid \<in> set ids. good_source h cat srcs sid))
    | Inr (srcs', ow') \<Rightarrow> distinct ids \<and> (\<forall>sid \<in> set ids. good_source h cat srcs sid) \<and> (ow' = None \<or> ow' = Some wid)
        \<and> distinct (map fst srcs')
        \<and> map_of srcs' = (\<lambda>sid. if sid \<in> set ids then Some \<lparr> sa_segment = the (map_of cat sid), sa_records = 0, sa_bytes = 0 \<rparr>
                              else map_of srcs sid)"
proof (induction ids arbitrary: srcs ow)
  case (Cons sid rest)
  show ?case
  proof (cases "good_source h cat srcs sid")
    case False
    then have "\<exists>e. collect_sources h cat srcs ow (sid # rest) = Inl e"
      by (cases "map_of cat sid") (auto simp: good_source_def)
    then show ?thesis using False by auto
  next
    case True
    then obtain p where p: "map_of cat sid = Some p" "seg_state (deref h p) = Seg_sealed" "map_of srcs sid = None"
      by (auto simp: good_source_def)
    let ?s = "AList.update sid \<lparr> sa_segment = p, sa_records = 0, sa_bytes = 0 \<rparr> srcs"
    have run: "collect_sources h cat srcs ow (sid # rest) = collect_sources h cat ?s (Some wid) rest"
      using p Cons.prems assms [OF p(1)] by auto
    have new: "good_source h cat ?s j \<longleftrightarrow> good_source h cat srcs j \<and> j \<noteq> sid" for j
      by (auto simp: good_source_def AList.update_conv')
    have "distinct (map fst ?s)" using Cons.prems(2) by (simp add: distinct_update)
    note ih = Cons.IH [OF _ this, of "Some wid"]
    show ?thesis
    proof (cases "collect_sources h cat ?s (Some wid) rest")
      case (Inl e)
      then show ?thesis using ih new unfolding run by auto
    next
      case (Inr x)
      then obtain srcs' ow' where x: "collect_sources h cat ?s (Some wid) rest = Inr (srcs', ow')" by (cases x) simp
      then have r: "distinct rest" "\<forall>j \<in> set rest. good_source h cat srcs j \<and> j \<noteq> sid" "ow' = None \<or> ow' = Some wid"
        "distinct (map fst srcs')"
        "map_of srcs' = (\<lambda>j. if j \<in> set rest then Some \<lparr> sa_segment = the (map_of cat j), sa_records = 0, sa_bytes = 0 \<rparr> else map_of ?s j)"
        using ih new by simp_all
      then show ?thesis using True p(1) unfolding run x by (auto simp: AList.update_conv' fun_eq_iff)
    qed
  qed
qed simp

section \<open>The heap during the loop\<close>

text \<open>The store has grown: what the Worker had is unchanged and the catalog too.\<close>

definition grown :: "worker \<Rightarrow> seg_heap \<Rightarrow> manager \<Rightarrow> bool" where
  "grown w h m \<longleftrightarrow> gm_inv h m \<and> gm_catalog m = gm_catalog (w_manager w)
     \<and> gm_next_id (w_manager w) \<le> gm_next_id m \<and> hp_next (w_heap w) \<le> hp_next h
     \<and> (\<forall>p < hp_next (w_heap w). hp_mem h p = hp_mem (w_heap w) p)"

text \<open>The new segments; \<open>act\<close> is the one that takes records, \<open>c\<close> and \<open>b\<close> their live counters.\<close>

definition news :: "worker \<Rightarrow> seg_heap \<Rightarrow> manager \<Rightarrow> ptr list \<Rightarrow> ptr option \<Rightarrow> (u64 \<Rightarrow> nat) \<Rightarrow> (u64 \<Rightarrow> nat) \<Rightarrow> bool" where
  "news w h m ps act c b \<longleftrightarrow>
     distinct ps \<and> inj_on (\<lambda>p. seg_id (deref h p)) (set ps)
   \<and> (\<forall>p \<in> set ps. hp_next (w_heap w) \<le> p \<and> p < hp_next h \<and> hp_mem h p \<noteq> None
        \<and> gm_next_id (w_manager w) \<le> seg_id (deref h p) \<and> seg_id (deref h p) < gm_next_id m
        \<and> seg_owner (deref h p) = w_id w \<and> (\<exists>log. seg_log (deref h p) log)
        \<and> seg_state (deref h p) = (if act = Some p then Seg_active else Seg_sealed)
        \<and> unat (ss_live_records (seg_stats (deref h p))) = c (seg_id (deref h p))
        \<and> unat (ss_live_bytes (seg_stats (deref h p))) = b (seg_id (deref h p)))"

definition act_of :: "ptr list \<Rightarrow> ptr option" where
  "act_of ps = (if ps = [] then None else Some (last ps))"

lemma newsD:
  assumes "news w h m ps act c b" "p \<in> set ps"
  shows "hp_next (w_heap w) \<le> p" "p < hp_next h" "hp_mem h p \<noteq> None" "gm_next_id (w_manager w) \<le> seg_id (deref h p)"
    "seg_id (deref h p) < gm_next_id m" "seg_owner (deref h p) = w_id w" "\<exists>log. seg_log (deref h p) log"
    "seg_state (deref h p) = (if act = Some p then Seg_active else Seg_sealed)"
    "unat (ss_live_records (seg_stats (deref h p))) = c (seg_id (deref h p))"
    "unat (ss_live_bytes (seg_stats (deref h p))) = b (seg_id (deref h p))"
  using assms by (simp_all add: news_def)

lemma deref_assign [simp]: "deref (assign h p s) q = (if q = p then s else deref h q)"
  by (simp add: assign_def deref_def)

lemma assign_same: "hp_mem h p \<noteq> None \<Longrightarrow> assign h p (deref h p) = h"
  by (auto simp: assign_def deref_def fun_upd_idem)

lemma grown_assign:
  assumes "grown w h m" "hp_next (w_heap w) \<le> p" "hp_mem h p \<noteq> None" "seg_id s = seg_id (deref h p)"
    "seg_state s = Seg_active \<or> seg_state s = Seg_sealed"
  shows "grown w (assign h p s) m"
proof -
  have "gm_inv (assign h p s) m" by (rule gm_inv_assign) (use assms in \<open>auto simp: grown_def\<close>)
  then show ?thesis using assms(1,2) by (auto simp: grown_def assign_def)
qed

text \<open>A new segment is replaced by one that extends it.\<close>

lemma news_assign:
  assumes n: "news w h m ps act c b" and p: "p \<in> set ps" and e: "extends (deref h p) s"
    and st: "seg_state s = (if act' = Some p then Seg_active else Seg_sealed)"
      "\<And>q. q \<in> set ps \<Longrightarrow> q \<noteq> p \<Longrightarrow> act' = Some q \<longleftrightarrow> act = Some q"
    and cnt: "unat (ss_live_records (seg_stats s)) = c' (seg_id (deref h p))"
      "unat (ss_live_bytes (seg_stats s)) = b' (seg_id (deref h p))"
      "\<And>sid. sid \<noteq> seg_id (deref h p) \<Longrightarrow> c' sid = c sid \<and> b' sid = b sid"
  shows "news w (assign h p s) m ps act' c' b'"
proof -
  have i: "seg_id s = seg_id (deref h p)" "seg_owner s = seg_owner (deref h p)" "\<exists>log. seg_log s log"
    using e newsD(7) [OF n p] by (auto simp: extends_def)
  have ids: "seg_id (deref (assign h p s) q) = seg_id (deref h q)" for q using i(1) by simp
  have other: "seg_id (deref h q) \<noteq> seg_id (deref h p)" if "q \<in> set ps" "q \<noteq> p" for q
    using n p that by (auto simp: news_def inj_on_def)
  show ?thesis
    unfolding news_def ids
  proof (intro conjI ballI)
    show "distinct ps" "inj_on (\<lambda>p. seg_id (deref h p)) (set ps)" using n by (simp_all add: news_def)
    fix q assume q: "q \<in> set ps"
    note d = newsD [OF n q]
    show "hp_next (w_heap w) \<le> q" "q < hp_next (assign h p s)" "hp_mem (assign h p s) q \<noteq> None"
      "gm_next_id (w_manager w) \<le> seg_id (deref h q)" "seg_id (deref h q) < gm_next_id m"
      using d by (simp_all add: assign_def)
    show "seg_owner (deref (assign h p s) q) = w_id w" using d(6) i(2) by auto
    show "\<exists>log. seg_log (deref (assign h p s) q) log" using d(7) i(3) by auto
    show "seg_state (deref (assign h p s) q) = (if act' = Some q then Seg_active else Seg_sealed)"
      using d(8) st(1) st(2) [OF q] by (cases "q = p") simp_all
    show "unat (ss_live_records (seg_stats (deref (assign h p s) q))) = c' (seg_id (deref h q))"
      "unat (ss_live_bytes (seg_stats (deref (assign h p s) q))) = b' (seg_id (deref h q))"
      using d(9,10) cnt other [OF q] by (cases "q = p"; simp)+
  qed
qed

lemma manager_allocator_unfold:
  "manager_allocator u wid h m =
     (if gm_next_id m = - 1 then (h, m, fail Arithmetic_overflow)
      else (fst (make_shared h (make_segment u (gm_next_id m) wid 1)), m\<lparr> gm_next_id := gm_next_id m + 1 \<rparr>,
            Inr (Some (hp_next h))))"
  by (simp add: manager_allocator_def prepare_segment_def make_shared_def)

lemma allocate_unfold:
  fixes st :: "manager vacuum_state" and u :: "nat \<Rightarrow> byte" and wid :: u32
  defines "h1 \<equiv> fst (make_shared (vs_heap st) (make_segment u (gm_next_id (vs_alloc st)) wid 1))"
  defines "st1 \<equiv> st\<lparr> vs_heap := h1, vs_alloc := (vs_alloc st)\<lparr> gm_next_id := gm_next_id (vs_alloc st) + 1 \<rparr> \<rparr>"
  shows "allocate_replacement (manager_allocator u wid) cat ow st =
    (if gm_next_id (vs_alloc st) = - 1 then (st, fail Arithmetic_overflow)
     else if (ow \<noteq> None \<and> ow \<noteq> Some wid) \<or> map_of cat (gm_next_id (vs_alloc st)) \<noteq> None
     then (st1, fail Invalid_argument)
     else if \<exists>q \<in> set (vs_segments st). seg_id (deref h1 q) = gm_next_id (vs_alloc st) then (st1, fail Invalid_argument)
     else (st1\<lparr> vs_segments := vs_segments st @ [hp_next (vs_heap st)] \<rparr>, ok))"
proof -
  have "deref h1 (hp_next (vs_heap st)) = make_segment u (gm_next_id (vs_alloc st)) wid 1"
    by (simp add: h1_def make_shared_def deref_def)
  then show ?thesis
    unfolding allocate_replacement_def manager_allocator_unfold h1_def [symmetric]
    by (cases "gm_next_id (vs_alloc st) = - 1") (auto simp: st1_def Let_def split: option.split)
qed

lemma allocate_ok:
  assumes g: "grown w (vs_heap st) (vs_alloc st)" and n: "news w (vs_heap st) (vs_alloc st) (vs_segments st) None c b"
    and z: "\<And>sid. gm_next_id (vs_alloc st) \<le> sid \<Longrightarrow> c sid = 0 \<and> b sid = 0"
    and run: "allocate_replacement (manager_allocator u (w_id w)) cat ow st = (st', r)"
  shows "grown w (vs_heap st') (vs_alloc st')" "vs_index st' = vs_index st" "vs_sources st' = vs_sources st"
    "gm_next_id (vs_alloc st) \<le> gm_next_id (vs_alloc st')"
    "r = ok \<Longrightarrow> \<exists>p. vs_segments st' = vs_segments st @ [p] \<and> seg_write_offset (deref (vs_heap st') p) = 4096
       \<and> news w (vs_heap st') (vs_alloc st') (vs_segments st') (Some p) c b
       \<and> (\<forall>q \<in> set (vs_segments st). deref (vs_heap st') q = deref (vs_heap st) q)"
    "r = Inl e \<Longrightarrow> e = Arithmetic_overflow \<and> gm_next_id (vs_alloc st) = - 1
       \<or> e = Invalid_argument \<and> gm_next_id (vs_alloc st) \<noteq> - 1
         \<and> (ow \<noteq> None \<and> ow \<noteq> Some (w_id w) \<or> map_of cat (gm_next_id (vs_alloc st)) \<noteq> None)"
proof -
  let ?h = "vs_heap st" and ?m = "vs_alloc st" and ?ps = "vs_segments st"
  let ?p = "hp_next ?h"
  define s where "s = make_segment u (gm_next_id ?m) (w_id w) 1"
  define h1 where "h1 = fst (make_shared ?h s)"
  define m1 where "m1 = ?m\<lparr> gm_next_id := gm_next_id ?m + 1 \<rparr>"
  have gi: "gm_inv ?h ?m" using g by (simp add: grown_def)
  have keep: "deref h1 q = deref ?h q" if "q < ?p" for q using that by (simp add: h1_def make_shared_def deref_def)
  have below: "q < ?p" "seg_id (deref ?h q) < gm_next_id ?m" if "q \<in> set ?ps" for q using newsD(2,5) [OF n that] .
  have nodup: "\<not> (\<exists>q \<in> set ?ps. seg_id (deref h1 q) = gm_next_id ?m)" using below keep by fastforce
  consider (full) "gm_next_id ?m = - 1" "st' = st" "r = fail Arithmetic_overflow"
    | (bad) "gm_next_id ?m \<noteq> - 1" "st' = st\<lparr> vs_heap := h1, vs_alloc := m1 \<rparr>" "r = fail Invalid_argument"
      "ow \<noteq> None \<and> ow \<noteq> Some (w_id w) \<or> map_of cat (gm_next_id ?m) \<noteq> None"
    | (fine) "gm_next_id ?m \<noteq> - 1" "st' = st\<lparr> vs_heap := h1, vs_alloc := m1, vs_segments := ?ps @ [?p] \<rparr>" "r = ok"
    using run nodup unfolding allocate_unfold s_def [symmetric] h1_def [symmetric] m1_def [symmetric] by (simp split: if_splits)
  note runs = this
  have new: "deref h1 ?p = s" by (simp add: h1_def make_shared_def deref_def)
  have g1: "grown w h1 m1" if "gm_next_id ?m \<noteq> - 1"
  proof -
    have "prepare_segment u ?h ?m (w_id w) = (h1, m1, Inr ?p)" using that by (simp add: prepare_segment_def make_shared_def h1_def m1_def s_def)
    then have "gm_inv h1 m1" using prepare_segment_inv(1) [OF gi] by blast
    moreover have "gm_next_id (w_manager w) \<le> gm_next_id ?m + 1"
      by (rule order_trans [OF _ less_imp_le [OF next_id_grows(2) [OF that]]]) (use g in \<open>simp add: grown_def\<close>)
    moreover have "hp_next (w_heap w) \<le> hp_next h1" "\<forall>p < hp_next (w_heap w). hp_mem h1 p = hp_mem ?h p"
      using g by (simp_all add: grown_def make_shared_def h1_def)
    moreover have "gm_catalog m1 = gm_catalog ?m" "gm_next_id m1 = gm_next_id ?m + 1" by (simp_all add: m1_def)
    ultimately show ?thesis using g unfolding grown_def by simp
  qed
  have ends: "vs_heap st' = ?h \<and> vs_alloc st' = ?m \<or> gm_next_id ?m \<noteq> - 1 \<and> vs_heap st' = h1 \<and> vs_alloc st' = m1"
    using runs
  proof cases
    case full
    show ?thesis unfolding full(2) by simp
  next
    case bad
    show ?thesis unfolding bad(2) using bad(1) by simp
  next
    case fine
    show ?thesis unfolding fine(2) using fine(1) by simp
  qed
  then show "grown w (vs_heap st') (vs_alloc st')" using g g1 by (elim disjE conjE) (simp_all only: not_False_eq_True)
  show "vs_index st' = vs_index st" using runs by cases simp_all
  show "vs_sources st' = vs_sources st" using runs by cases simp_all
  show "gm_next_id ?m \<le> gm_next_id (vs_alloc st')" 
    using ends less_imp_le [OF next_id_grows(2) [of "gm_next_id ?m"]] by (elim disjE conjE) (simp_all add: m1_def)
  show "r = Inl e \<Longrightarrow> e = Arithmetic_overflow \<and> gm_next_id ?m = - 1
       \<or> e = Invalid_argument \<and> gm_next_id ?m \<noteq> - 1
         \<and> (ow \<noteq> None \<and> ow \<noteq> Some (w_id w) \<or> map_of cat (gm_next_id ?m) \<noteq> None)"
    using runs by cases simp_all
  assume "r = ok"
  with runs have "gm_next_id ?m \<noteq> - 1 \<and> st' = st\<lparr> vs_heap := h1, vs_alloc := m1, vs_segments := ?ps @ [?p] \<rparr>"
    by cases simp_all
  note f = conjunct1 [OF this] conjunct2 [OF this]
  have at: "deref h1 q = (if q = ?p then s else deref ?h q)" if "q \<in> set (?ps @ [?p])" for q
    using that keep below new by auto
  have lg: "\<exists>log. seg_log s log" using make_segment_log s_def by blast
  have "news w h1 m1 (?ps @ [?p]) (Some ?p) c b"
    unfolding news_def
  proof (intro conjI ballI)
    show "distinct (?ps @ [?p])" using n below(1) by (auto simp: news_def)
    show "inj_on (\<lambda>p. seg_id (deref h1 p)) (set (?ps @ [?p]))"
    proof (rule inj_onI)
      fix x y assume x: "x \<in> set (?ps @ [?p])" "y \<in> set (?ps @ [?p])" "seg_id (deref h1 x) = seg_id (deref h1 y)"
      have inj: "inj_on (\<lambda>p. seg_id (deref ?h p)) (set ?ps)" using n by (simp add: news_def)
      have "seg_id (deref ?h q) \<noteq> seg_id s" if "q \<in> set ?ps" for q using less_imp_neq [OF below(2) [OF that]] by (simp add: s_def)
      then show "x = y" using x(3) x(1,2) inj_onD [OF inj, of x y] unfolding at [OF x(1)] at [OF x(2)]
        by (auto split: if_splits)
    qed
    fix q assume q: "q \<in> set (?ps @ [?p])"
    show "hp_next (w_heap w) \<le> q" "q < hp_next h1" "hp_mem h1 q \<noteq> None"
      using q newsD(1-3) [OF n, of q] g by (auto simp: grown_def make_shared_def h1_def)
    show "gm_next_id (w_manager w) \<le> seg_id (deref h1 q)" "seg_id (deref h1 q) < gm_next_id m1"
      using q newsD(4,5) [OF n, of q] g next_id_grows(1) [OF _ f(1), of "seg_id (deref ?h q)"] next_id_grows(2) [OF f(1)]
      unfolding at [OF q] by (cases "q = ?p"; simp add: grown_def s_def m1_def)+
    show "seg_owner (deref h1 q) = w_id w" "\<exists>log. seg_log (deref h1 q) log"
      "seg_state (deref h1 q) = (if Some ?p = Some q then Seg_active else Seg_sealed)"
      "unat (ss_live_records (seg_stats (deref h1 q))) = c (seg_id (deref h1 q))"
      "unat (ss_live_bytes (seg_stats (deref h1 q))) = b (seg_id (deref h1 q))"
      using q newsD(6-10) [OF n, of q] below(1) [of q] lg z [of "gm_next_id ?m"] unfolding at [OF q] by (auto simp: s_def)
  qed
  moreover have "seg_write_offset s = 4096" by (simp add: s_def make_segment_def header_sizes)
  ultimately show "\<exists>p. vs_segments st' = ?ps @ [p] \<and> seg_write_offset (deref (vs_heap st') p) = 4096
       \<and> news w (vs_heap st') (vs_alloc st') (vs_segments st') (Some p) c b
       \<and> (\<forall>q \<in> set ?ps. deref (vs_heap st') q = deref ?h q)"
    using f(2) new keep below(1) by (intro exI [of _ ?p]) simp
qed

text \<open>The operations on the last new segment.\<close>

lemma append_back_ok:
  assumes g: "grown w (vs_heap st) (vs_alloc st)"
    and n: "news w (vs_heap st) (vs_alloc st) (vs_segments st) (Some (last (vs_segments st))) c b"
    and ne: "vs_segments st \<noteq> []" and run: "append_back d st i = (st', r)"
  shows "(case r of
      Inl e \<Rightarrow> st' = st \<and> (compute_encoded_size i = Inl e
        \<or> e = Segment_full \<and> seg_write_offset (deref (vs_heap st) (last (vs_segments st))) + rec_size i > 67108864)
    | Inr ref \<Rightarrow> holds (deref (vs_heap st') (last (vs_segments st))) ref i)
    \<and> (\<exists>h. st' = st\<lparr> vs_heap := h \<rparr> \<and> grown w h (vs_alloc st)
       \<and> news w h (vs_alloc st) (vs_segments st) (Some (last (vs_segments st))) c b
       \<and> (\<forall>q \<in> set (vs_segments st). extends (deref (vs_heap st) q) (deref h q)))"
proof -
  let ?h = "vs_heap st" and ?p = "last (vs_segments st)"
  have p: "?p \<in> set (vs_segments st)" using ne by simp
  note d = newsD [OF n p]
  obtain s where s: "segment_append d (deref ?h ?p) i = (s, r)" and st': "st' = st\<lparr> vs_heap := assign ?h ?p s \<rparr>"
    using run by (auto simp: append_back_def Let_def split: prod.splits)
  obtain log where log: "seg_log (deref ?h ?p) log" using d(7) by blast
  note ext = append_extends [OF log s]
  have k: "seg_id s = seg_id (deref ?h ?p)" "seg_state s = Seg_active"
    "ss_live_records (seg_stats s) = ss_live_records (seg_stats (deref ?h ?p))"
    "ss_live_bytes (seg_stats s) = ss_live_bytes (seg_stats (deref ?h ?p))"
    using append_keeps [of d "deref ?h ?p" i] s d(8) by simp_all
  have "grown w (assign ?h ?p s) (vs_alloc st)" by (rule grown_assign [OF g d(1,3) k(1)]) (simp add: k(2))
  moreover have "news w (assign ?h ?p s) (vs_alloc st) (vs_segments st) (Some ?p) c b"
    by (rule news_assign [OF n p ext(1)]) (use k d(9,10) in simp_all)
  moreover have "extends (deref ?h q) (deref (assign ?h ?p s) q)" for q using ext(1) by simp
  moreover have "case r of
      Inl e \<Rightarrow> st' = st \<and> (compute_encoded_size i = Inl e \<or> e = Segment_full \<and> seg_write_offset (deref ?h ?p) + rec_size i > 67108864)
    | Inr ref \<Rightarrow> holds (deref (vs_heap st') ?p) ref i"
  proof (cases r)
    case (Inl e)
    note f = segment_append_fails [OF log s [unfolded Inl]]
    have "st' = st" using f st' assign_same [OF d(3)] by simp
    then show ?thesis using f d(8) Inl by auto
  next
    case (Inr ref)
    then show ?thesis using ext(2) [of ref] st' by simp
  qed
  ultimately show ?thesis using st' by blast
qed

lemma seal_back_ok:
  assumes g: "grown w (vs_heap st) (vs_alloc st)"
    and n: "news w (vs_heap st) (vs_alloc st) (vs_segments st) (Some (last (vs_segments st))) c b"
    and ne: "vs_segments st \<noteq> []" and run: "seal_back st = (st', r)"
  shows "r = ok \<and> (\<exists>h. st' = st\<lparr> vs_heap := h \<rparr> \<and> grown w h (vs_alloc st) \<and> news w h (vs_alloc st) (vs_segments st) None c b
       \<and> (\<forall>q \<in> set (vs_segments st). extends (deref (vs_heap st) q) (deref h q)))"
proof -
  let ?h = "vs_heap st" and ?p = "last (vs_segments st)"
  let ?s = "(deref ?h ?p)\<lparr> seg_state := Seg_sealed \<rparr>"
  have p: "?p \<in> set (vs_segments st)" using ne by simp
  note d = newsD [OF n p]
  have st': "st' = st\<lparr> vs_heap := assign ?h ?p ?s \<rparr>" "r = ok"
    using run d(8) by (auto simp: seal_back_def segment_seal_def Let_def)
  have "grown w (assign ?h ?p ?s) (vs_alloc st)" by (rule grown_assign [OF g d(1,3)]) simp_all
  moreover have "news w (assign ?h ?p ?s) (vs_alloc st) (vs_segments st) None c b"
    by (rule news_assign [OF n p extends_seal]) (use d(9,10) in simp_all)
  moreover have "extends (deref ?h q) (deref (assign ?h ?p ?s) q)" for q using extends_seal by simp
  ultimately show ?thesis using st' by blast
qed

lemma mark_live_back_ok:
  assumes g: "grown w (vs_heap st) (vs_alloc st)"
    and n: "news w (vs_heap st) (vs_alloc st) (vs_segments st) (Some (last (vs_segments st))) c b"
    and ne: "vs_segments st \<noteq> []" and hold: "holds (deref (vs_heap st) (last (vs_segments st))) ref i"
    and small: "c (rr_segment_id ref) < 2 ^ 32" "b (rr_segment_id ref) < 2 ^ 32"
    and run: "mark_live_back st ref = (st', r)"
  shows "r = ok \<and> (\<exists>h. st' = st\<lparr> vs_heap := h \<rparr> \<and> grown w h (vs_alloc st)
       \<and> news w h (vs_alloc st) (vs_segments st) (Some (last (vs_segments st)))
           (c(rr_segment_id ref := c (rr_segment_id ref) + 1))
           (b(rr_segment_id ref := b (rr_segment_id ref) + unat (rr_size ref)))
       \<and> (\<forall>q \<in> set (vs_segments st). extends (deref (vs_heap st) q) (deref h q)))"
proof -
  let ?h = "vs_heap st" and ?p = "last (vs_segments st)"
  have p: "?p \<in> set (vs_segments st)" using ne by simp
  note d = newsD [OF n p]
  have sid: "rr_segment_id ref = seg_id (deref ?h ?p)" using holds_read(3) [OF hold] .
  have sm: "unat (ss_live_records (seg_stats (deref ?h ?p))) < 2 ^ 32" "unat (ss_live_bytes (seg_stats (deref ?h ?p))) < 2 ^ 32"
    using small d(9,10) sid by simp_all
  obtain s where s: "segment_mark_live (deref ?h ?p) ref = (s, ok)" "extends (deref ?h ?p) s"
    "seg_state s = seg_state (deref ?h ?p)" "seg_id s = seg_id (deref ?h ?p)"
    "unat (ss_live_records (seg_stats s)) = unat (ss_live_records (seg_stats (deref ?h ?p))) + 1"
    "unat (ss_live_bytes (seg_stats s)) = unat (ss_live_bytes (seg_stats (deref ?h ?p))) + unat (rr_size ref)"
    using mark_live_counts [OF hold sm] by blast
  have st': "st' = st\<lparr> vs_heap := assign ?h ?p s \<rparr>" "r = ok" using run s(1) by (auto simp: mark_live_back_def Let_def)
  have "grown w (assign ?h ?p s) (vs_alloc st)" by (rule grown_assign [OF g d(1,3) s(4)]) (use s(3) d(8) in simp)
  moreover have "news w (assign ?h ?p s) (vs_alloc st) (vs_segments st) (Some ?p)
      (c(rr_segment_id ref := c (rr_segment_id ref) + 1)) (b(rr_segment_id ref := b (rr_segment_id ref) + unat (rr_size ref)))"
    by (rule news_assign [OF n p s(2)]) (use s(3,5,6) d(8-10) sid in simp_all)
  moreover have "extends (deref ?h q) (deref (assign ?h ?p s) q)" for q using s(2) by simp
  ultimately show ?thesis using st' by blast
qed

section \<open>Appending a copy\<close>

definition unused :: "u64 \<Rightarrow> (u64 \<Rightarrow> nat) \<Rightarrow> (u64 \<Rightarrow> nat) \<Rightarrow> bool" where
  "unused n c b \<longleftrightarrow> (\<forall>sid \<ge> n. c sid = 0 \<and> b sid = 0)"

definition framed :: "worker \<Rightarrow> manager vacuum_state \<Rightarrow> manager vacuum_state \<Rightarrow> bool" where
  "framed w st st' \<longleftrightarrow> grown w (vs_heap st') (vs_alloc st') \<and> vs_index st' = vs_index st \<and> vs_sources st' = vs_sources st
     \<and> gm_next_id (vs_alloc st) \<le> gm_next_id (vs_alloc st')"

definition extended :: "worker \<Rightarrow> (u64 \<Rightarrow> nat) \<Rightarrow> (u64 \<Rightarrow> nat) \<Rightarrow> manager vacuum_state \<Rightarrow> manager vacuum_state \<Rightarrow> bool" where
  "extended w c b st st' \<longleftrightarrow> vs_segments st' \<noteq> []
     \<and> news w (vs_heap st') (vs_alloc st') (vs_segments st') (Some (last (vs_segments st'))) c b
     \<and> set (vs_segments st) \<subseteq> set (vs_segments st')
     \<and> (\<forall>q \<in> set (vs_segments st). extends (deref (vs_heap st) q) (deref (vs_heap st') q))"

lemma framed_trans: "framed w st st' \<Longrightarrow> framed w st' st'' \<Longrightarrow> framed w st st''"
  unfolding framed_def using order_trans by auto

lemma extended_trans: "extended w c b st st' \<Longrightarrow> extended w c' b' st' st'' \<Longrightarrow> extended w c' b' st st''"
  unfolding extended_def using extends_trans by blast

lemma allocate_step:
  assumes "grown w (vs_heap st) (vs_alloc st)" "news w (vs_heap st) (vs_alloc st) (vs_segments st) None c b"
    and "unused (gm_next_id (vs_alloc st)) c b" "allocate_replacement (manager_allocator u (w_id w)) cat ow st = (st', r)"
    and cat: "ow = None \<or> ow = Some (w_id w)" "\<And>sid. gm_next_id (w_manager w) \<le> sid \<Longrightarrow> map_of cat sid = None"
  shows "framed w st st'" "r = ok \<Longrightarrow> extended w c b st st' \<and> seg_write_offset (deref (vs_heap st') (last (vs_segments st'))) = 4096"
    "r = Inl e \<Longrightarrow> e = Arithmetic_overflow"
proof -
  have z: "gm_next_id (vs_alloc st) \<le> sid \<Longrightarrow> c sid = 0 \<and> b sid = 0" for sid using assms(3) by (simp add: unused_def)
  note a = allocate_ok [OF assms(1,2) z assms(4)]
  show "framed w st st'" using a(1-4) by (simp add: framed_def)
  have "map_of cat (gm_next_id (vs_alloc st)) = None" by (rule cat(2)) (use assms(1) in \<open>simp add: grown_def\<close>)
  then show "r = Inl e \<Longrightarrow> e = Arithmetic_overflow" using a(6) cat(1) by auto
  assume "r = ok"
  then obtain p where p: "vs_segments st' = vs_segments st @ [p]" "seg_write_offset (deref (vs_heap st') p) = 4096"
    "news w (vs_heap st') (vs_alloc st') (vs_segments st') (Some p) c b"
    "\<forall>q \<in> set (vs_segments st). deref (vs_heap st') q = deref (vs_heap st) q" using a(5) by blast
  then show "extended w c b st st' \<and> seg_write_offset (deref (vs_heap st') (last (vs_segments st'))) = 4096"
    by (auto simp: extended_def)
qed

lemma append_step:
  assumes "extended w c b st0 st" "grown w (vs_heap st) (vs_alloc st)" "append_back d st i = (st', r)"
  shows "framed w st st'" "extended w c b st st'"
    "r = Inr ref \<Longrightarrow> holds (deref (vs_heap st') (last (vs_segments st'))) ref i"
    "r = Inl e \<Longrightarrow> st' = st \<and> (compute_encoded_size i = Inl e
        \<or> e = Segment_full \<and> seg_write_offset (deref (vs_heap st) (last (vs_segments st))) + rec_size i > 67108864)"
proof -
  have n: "news w (vs_heap st) (vs_alloc st) (vs_segments st) (Some (last (vs_segments st))) c b" "vs_segments st \<noteq> []"
    using assms(1) by (simp_all add: extended_def)
  note a = append_back_ok [OF assms(2) n assms(3)]
  from a obtain h where h: "st' = st\<lparr> vs_heap := h \<rparr>" "grown w h (vs_alloc st)"
    "news w h (vs_alloc st) (vs_segments st) (Some (last (vs_segments st))) c b"
    "\<forall>q \<in> set (vs_segments st). extends (deref (vs_heap st) q) (deref h q)" by blast
  show "framed w st st'" "extended w c b st st'" using h n(2) by (simp_all add: framed_def extended_def)
  show "r = Inr ref \<Longrightarrow> holds (deref (vs_heap st') (last (vs_segments st'))) ref i" using a h(1) by simp
  show "r = Inl e \<Longrightarrow> st' = st \<and> (compute_encoded_size i = Inl e
        \<or> e = Segment_full \<and> seg_write_offset (deref (vs_heap st) (last (vs_segments st))) + rec_size i > 67108864)"
    using a by simp
qed

lemma unused_mono: "unused n c b \<Longrightarrow> n \<le> n' \<Longrightarrow> unused n' c b"
  unfolding unused_def using order_trans by blast

lemma append_replacement_ok:
  assumes g: "grown w (vs_heap st) (vs_alloc st)"
    and n: "news w (vs_heap st) (vs_alloc st) (vs_segments st) (act_of (vs_segments st)) c b"
    and z: "unused (gm_next_id (vs_alloc st)) c b"
    and fits: "rec_ok i" and cat: "ow = None \<or> ow = Some (w_id w)" "\<And>sid. gm_next_id (w_manager w) \<le> sid \<Longrightarrow> map_of cat sid = None"
    and run: "append_replacement d (manager_allocator u (w_id w)) cat ow st i = (st', r)"
  shows "framed w st st' \<and> (\<forall>ref. r = Inr ref \<longrightarrow> extended w c b st st'
           \<and> holds (deref (vs_heap st') (last (vs_segments st'))) ref i)
    \<and> (\<forall>e. r = Inl e \<longrightarrow> e = Arithmetic_overflow)"
proof -
  have enc: "compute_encoded_size i \<noteq> Inl e" for e
    using encoded_record_size_ok [of i "rec_size i"] fits by (simp add: encoded_record_size_def)
  let ?al = "allocate_replacement (manager_allocator u (w_id w)) cat ow"
  obtain st1 a where first: "(if vs_segments st = [] then ?al st else (st, ok)) = (st1, a)" by fastforce
  have f1: "framed w st st1 \<and> (a = ok \<longrightarrow> extended w c b st st1) \<and> (\<forall>e. a = Inl e \<longrightarrow> e = Arithmetic_overflow)"
  proof (cases "vs_segments st = []")
    case True
    then have "news w (vs_heap st) (vs_alloc st) (vs_segments st) None c b" using n by (simp add: act_of_def)
    then show ?thesis using allocate_step [OF g _ z _ cat, of u st1 a] first True by simp
  next
    case False
    then have "st1 = st" "a = ok" using first by simp_all
    then show ?thesis using g n False by (simp add: framed_def extended_def act_of_def)
  qed
  show ?thesis
  proof (cases a)
    case (Inl e)
    then have "st' = st1" "r = Inl e" using run first by (auto simp: append_replacement_def)
    then show ?thesis using f1 Inl by simp
  next
    case (Inr x)
    then have e1: "extended w c b st st1" "grown w (vs_heap st1) (vs_alloc st1)" using f1 by (simp_all add: framed_def)
    obtain st2 r2 where ap: "append_back d st1 i = (st2, r2)" by fastforce
    note f2 = append_step [OF e1 ap]
    have f02: "framed w st st2" "extended w c b st st2"
      using framed_trans [OF conjunct1 [OF f1] f2(1)] extended_trans [OF e1(1) f2(2)] by simp_all
    show ?thesis
    proof (cases "r2 = fail Segment_full")
      case False
      then have "st' = st2" "r = r2" using run first Inr ap by (auto simp: append_replacement_def)
      then show ?thesis using f02 f2(3) f2(4) enc False by auto
    next
      case True
      obtain st3 sl where se: "seal_back st2 = (st3, sl)" by fastforce
      have n2: "grown w (vs_heap st2) (vs_alloc st2)" "vs_segments st2 \<noteq> []"
        "news w (vs_heap st2) (vs_alloc st2) (vs_segments st2) (Some (last (vs_segments st2))) c b"
        using f02 by (simp_all add: framed_def extended_def)
      obtain h where h: "sl = ok" "st3 = st2\<lparr> vs_heap := h \<rparr>" "grown w h (vs_alloc st2)"
        "news w h (vs_alloc st2) (vs_segments st2) None c b"
        "\<forall>q \<in> set (vs_segments st2). extends (deref (vs_heap st2) q) (deref h q)"
        using seal_back_ok [OF n2(1,3,2) se] by blast
      have f3: "framed w st2 st3" using h by (simp add: framed_def)
      have f03: "framed w st st3" by (rule framed_trans [OF f02(1) f3])
      have e3: "set (vs_segments st) \<subseteq> set (vs_segments st3)" "\<forall>q \<in> set (vs_segments st). extends (deref (vs_heap st) q) (deref (vs_heap st3) q)"
      proof -
        show "set (vs_segments st) \<subseteq> set (vs_segments st3)" using f02(2) h(2) by (simp add: extended_def)
        have "extends (deref (vs_heap st) q) (deref h q)" if "q \<in> set (vs_segments st)" for q
          using f02(2) h(5) that extends_trans unfolding extended_def by blast
        then show "\<forall>q \<in> set (vs_segments st). extends (deref (vs_heap st) q) (deref (vs_heap st3) q)" using h(2) by simp
      qed
      obtain st4 a4 where al: "?al st3 = (st4, a4)" by fastforce
      have z3: "unused (gm_next_id (vs_alloc st3)) c b" by (rule unused_mono [OF z]) (use f03 in \<open>simp add: framed_def\<close>)
      have g3: "grown w (vs_heap st3) (vs_alloc st3)" "news w (vs_heap st3) (vs_alloc st3) (vs_segments st3) None c b"
        using h by simp_all
      note f4 = allocate_step [OF g3 z3 al cat]
      have f04: "framed w st st4" by (rule framed_trans [OF f03 f4(1)])
      show ?thesis
      proof (cases a4)
        case e4: (Inl e)
        then have "st' = st4" "r = Inl e" using run first Inr ap True se h(1) al by (auto simp: append_replacement_def)
        then show ?thesis using f04 f4(3) e4 by simp
      next
        case x4: (Inr x)
        then have e4: "extended w c b st3 st4" using f4(2) by simp
        have e04: "extended w c b st st4" using e3 e4 extends_trans unfolding extended_def by blast
        have ap5: "append_back d st4 i = (st', r)"
          using run first Inr ap True se h(1) al x4 by (auto simp: append_replacement_def)
        have g4: "grown w (vs_heap st4) (vs_alloc st4)" using f04 by (simp add: framed_def)
        note f5 = append_step [OF e4 g4 ap5]
        have "r \<noteq> Inl e" for e using f5(4) [of e] enc f4(2) x4 rec_size_bounds(2) [OF fits] by auto
        then show ?thesis using framed_trans [OF f04 f5(1)] extended_trans [OF e04 f5(2)] f5(3) by simp
      qed
    qed
  qed
qed

section \<open>Sealing the new segments\<close>

lemma seal_all_ok:
  "grown w h m \<Longrightarrow> news w h m ps act c b \<Longrightarrow> set qs \<subseteq> set ps \<Longrightarrow>
   \<exists>h'. seal_all h qs = (h', ok) \<and> grown w h' m \<and> news w h' m ps (if act \<in> Some ` set qs then None else act) c b
      \<and> (\<forall>q \<in> set ps. extends (deref h q) (deref h' q))"
proof (induction qs arbitrary: h act)
  case (Cons p qs)
  have p: "p \<in> set ps" using Cons.prems(3) by simp
  note d = newsD [OF Cons.prems(2) p]
  show ?case
  proof (cases "act = Some p")
    case True
    let ?s = "(deref h p)\<lparr> seg_state := Seg_sealed \<rparr>"
    have g: "grown w (assign h p ?s) m" by (rule grown_assign [OF Cons.prems(1) d(1,3)]) simp_all
    have n: "news w (assign h p ?s) m ps None c b"
      by (rule news_assign [OF Cons.prems(2) p extends_seal]) (use d(9,10) True in simp_all)
    obtain h' where h': "seal_all (assign h p ?s) qs = (h', ok)" "grown w h' m" "news w h' m ps None c b"
      "\<forall>q \<in> set ps. extends (deref (assign h p ?s) q) (deref h' q)"
      using Cons.IH [OF g n] Cons.prems(3) by auto
    have "extends (deref h q) (deref (assign h p ?s) q)" for q using extends_seal by simp
    then have "\<forall>q \<in> set ps. extends (deref h q) (deref h' q)" using h'(4) extends_trans by blast
    moreover have "seal_all h (p # qs) = (h', ok)" using h'(1) d(8) True by (simp add: segment_seal_def)
    ultimately show ?thesis using h'(2,3) True by simp
  next
    case False
    then have "seal_all h (p # qs) = seal_all h qs" using d(8) by simp
    moreover have "act \<in> Some ` set (p # qs) \<longleftrightarrow> act \<in> Some ` set qs" using False by auto
    ultimately show ?thesis using Cons.IH [OF Cons.prems(1,2)] Cons.prems(3) by simp
  qed
qed auto

end
