(* ===== verification/Vacuum_Loop.thy ===== *)
theory Vacuum_Loop
  imports Vacuum_Inv
begin

text \<open>
  The invariant of the copying loop and its preservation: what the new index maps the keys seen so
  far to, and what the sources have been found to hold.
\<close>

section \<open>The invariant\<close>

text \<open>The new entry of a key whose record lies in a source.\<close>

definition moved :: "worker \<Rightarrow> seg_heap \<Rightarrow> u64 \<Rightarrow> ptr list \<Rightarrow> bytes \<Rightarrow> record_ref \<Rightarrow> record_ref option \<Rightarrow> bool" where
  "moved w h now ps k ref r \<longleftrightarrow>
     (\<exists>i. read_ref w ref = Inr (view_of i) \<and> ri_key i = k \<and> ri_opcode i = opcode_put
        \<and> (expired (view_of i) now \<and> r = None
           \<or> \<not> expired (view_of i) now \<and> (\<exists>ref' p. r = Some ref' \<and> p \<in> set ps \<and> holds (deref h p) ref' i)))"

definition copied :: "worker \<Rightarrow> seg_heap \<Rightarrow> u64 set \<Rightarrow> u64 \<Rightarrow> ptr list \<Rightarrow> (bytes \<Rightarrow> record_ref option) \<Rightarrow> (bytes \<Rightarrow> record_ref option) \<Rightarrow> bool" where
  "copied w h C now ps f g \<longleftrightarrow>
     (\<forall>k. case f k of
        None \<Rightarrow> g k = None
      | Some ref \<Rightarrow> if rr_segment_id ref \<in> C then moved w h now ps k ref (g k) else g k = Some ref)"

lemma copiedD:
  assumes "copied w h C now ps f g"
  shows "f k = None \<Longrightarrow> g k = None" "f k = Some ref \<Longrightarrow> rr_segment_id ref \<in> C \<Longrightarrow> moved w h now ps k ref (g k)"
    "f k = Some ref \<Longrightarrow> rr_segment_id ref \<notin> C \<Longrightarrow> g k = Some ref"
  using assms [unfolded copied_def, rule_format, of k] by simp_all

lemma copiedI:
  assumes "\<And>k. f k = None \<Longrightarrow> g k = None"
    and "\<And>k ref. f k = Some ref \<Longrightarrow> rr_segment_id ref \<in> C \<Longrightarrow> moved w h now ps k ref (g k)"
    and "\<And>k ref. f k = Some ref \<Longrightarrow> rr_segment_id ref \<notin> C \<Longrightarrow> g k = Some ref"
  shows "copied w h C now ps f g"
  unfolding copied_def using assms by (auto split: option.split)

lemma moved_mono:
  assumes "moved w h now ps k ref r" "set ps \<subseteq> set ps'" "\<And>q. q \<in> set ps \<Longrightarrow> extends (deref h q) (deref h' q)"
  shows "moved w h' now ps' k ref r"
proof -
  obtain i where i: "read_ref w ref = Inr (view_of i)" "ri_key i = k" "ri_opcode i = opcode_put"
    "expired (view_of i) now \<and> r = None \<or> \<not> expired (view_of i) now \<and> (\<exists>ref' p. r = Some ref' \<and> p \<in> set ps \<and> holds (deref h p) ref' i)"
    using assms(1) unfolding moved_def by blast
  have "holds (deref h' p) ref' i" if "p \<in> set ps" "holds (deref h p) ref' i" for p ref'
    using assms(3) [OF that(1)] that(2) by (simp add: extends_def)
  then have "expired (view_of i) now \<and> r = None
      \<or> \<not> expired (view_of i) now \<and> (\<exists>ref' p. r = Some ref' \<and> p \<in> set ps' \<and> holds (deref h' p) ref' i)"
    using i(4) assms(2) by blast
  then show ?thesis using i(1-3) unfolding moved_def by blast
qed

definition accounted :: "worker \<Rightarrow> sources \<Rightarrow> (bytes \<Rightarrow> record_ref option) \<Rightarrow> bool" where
  "accounted w srcs f \<longleftrightarrow> distinct (map fst srcs)
   \<and> (\<forall>sid a. map_of srcs sid = Some a \<longrightarrow> find_owned_segment w sid = Some (sa_segment a)
        \<and> sa_records a = of_nat (card (live_keys f sid)) \<and> sa_bytes a = of_nat (live_size f sid))"

definition loop_inv :: "worker \<Rightarrow> u64 set \<Rightarrow> u64 \<Rightarrow> (bytes \<Rightarrow> record_ref option) \<Rightarrow> manager vacuum_state \<Rightarrow> bool" where
  "loop_inv w C now f st \<longleftrightarrow>
     grown w (vs_heap st) (vs_alloc st) \<and> table_inv (vs_index st) \<and> hashed_for (vs_index st) = hashed_for (w_index w)
   \<and> news w (vs_heap st) (vs_alloc st) (vs_segments st) (act_of (vs_segments st))
       (\<lambda>sid. card (live_keys (tab (vs_index st)) sid)) (live_size (tab (vs_index st)))
   \<and> copied w (vs_heap st) C now (vs_segments st) f (tab (vs_index st))
   \<and> dom (map_of (vs_sources st)) = C \<and> accounted w (vs_sources st) f"

lemma copied_mono:
  assumes "copied w h C now ps f g" "set ps \<subseteq> set ps'" "\<And>q. q \<in> set ps \<Longrightarrow> extends (deref h q) (deref h' q)"
  shows "copied w h' C now ps' f g"
  by (rule copiedI) (use copiedD [OF assms(1)] moved_mono [OF _ assms(2,3)] in blast)+

text \<open>Every entry of the new index refers to an old segment or to a copy of its key.\<close>

lemma copied_ref:
  assumes inv: "worker_inv w" and sub: "f \<subseteq>\<^sub>m tab (w_index w)" and c: "copied w h C now ps f g" and k: "g k = Some ref"
  shows "(\<exists>q \<in> set (w_owned w). rr_segment_id ref = seg_id (seg_at w q)) \<or> (\<exists>p \<in> set ps. \<exists>i. holds (deref h p) ref i \<and> ri_key i = k)"
proof -
  have o: "owns w" "refers w (tab (w_index w))" using inv by (simp_all add: worker_inv_def base_def)
  show ?thesis
  proof (cases "f k")
    case None
    then show ?thesis using copiedD(1) [OF c] k by simp
  next
    case (Some r)
    then have "tab (w_index w) k = Some r" using sub by (auto simp: map_le_def dom_def)
    then obtain q where q: "q \<in> set (w_owned w)" "rr_segment_id r = seg_id (seg_at w q)" using referred [OF o] by blast
    show ?thesis
    proof (cases "rr_segment_id r \<in> C")
      case False
      then have "ref = r" using copiedD(3) [OF c Some] k by simp
      then show ?thesis using q by blast
    next
      case True
      then show ?thesis using copiedD(2) [OF c Some] k unfolding moved_def by auto
    qed
  qed
qed

lemma owned_below: "worker_inv w \<Longrightarrow> q \<in> set (w_owned w) \<Longrightarrow> seg_id (seg_at w q) < gm_next_id (w_manager w)"
  using base_mem(3) by (simp add: worker_inv_def)

lemma copied_into:
  assumes "worker_inv w" "f \<subseteq>\<^sub>m tab (w_index w)" "copied w h C now ps f g" "news w h m ps act c b" "p \<in> set ps"
  shows "refers_into (deref h p) g"
  unfolding refers_into_def
proof (intro allI impI)
  fix k ref assume k: "g k = Some ref" "rr_segment_id ref = seg_id (deref h p)"
  from copied_ref [OF assms(1-3) k(1)] show "\<exists>i. holds (deref h p) ref i \<and> ri_key i = k"
  proof
    assume "\<exists>q \<in> set (w_owned w). rr_segment_id ref = seg_id (seg_at w q)"
    then have "seg_id (deref h p) < gm_next_id (w_manager w)" using k(2) owned_below [OF assms(1)] by auto
    then show ?thesis using newsD(4) [OF assms(4,5)] by (meson leD)
  next
    assume "\<exists>p \<in> set ps. \<exists>i. holds (deref h p) ref i \<and> ri_key i = k"
    then obtain q i where q: "q \<in> set ps" "holds (deref h q) ref i" "ri_key i = k" by blast
    have inj: "inj_on (\<lambda>p. seg_id (deref h p)) (set ps)" using assms(4) by (simp add: news_def)
    have "seg_id (deref h q) = seg_id (deref h p)" using holds_read(3) [OF q(2)] k(2) by simp
    then have "q = p" using inj_onD [OF inj _ q(1) assms(5)] by blast
    then show ?thesis using q by blast
  qed
qed

lemma copied_unused:
  assumes "worker_inv w" "f \<subseteq>\<^sub>m tab (w_index w)" "copied w h C now ps f g" "news w h m ps act c b" "grown w h m"
  shows "unused (gm_next_id m) (\<lambda>sid. card (live_keys g sid)) (live_size g)"
proof -
  have "live_keys g sid = {}" if sid: "gm_next_id m \<le> sid" for sid
  proof -
    have "rr_segment_id ref \<noteq> sid" if k: "g k = Some ref" for k ref
    proof -
      have "rr_segment_id ref < gm_next_id m"
        using copied_ref [OF assms(1-3) k]
      proof
        assume "\<exists>q \<in> set (w_owned w). rr_segment_id ref = seg_id (seg_at w q)"
        then have "rr_segment_id ref < gm_next_id (w_manager w)" using owned_below [OF assms(1)] by auto
        then show ?thesis by (rule less_le_trans) (use assms(5) in \<open>simp add: grown_def\<close>)
      next
        assume "\<exists>p \<in> set ps. \<exists>i. holds (deref h p) ref i \<and> ri_key i = k"
        then show ?thesis using newsD(5) [OF assms(4)] holds_read(3) by auto
      qed
      then show ?thesis using sid by (meson leD)
    qed
    then show ?thesis by (auto simp: live_keys_def)
  qed
  then show ?thesis by (simp add: unused_def live_size_def)
qed

section \<open>One round of the loop\<close>

lemma news_cong:
  assumes "news w h m ps act c b" "\<And>p. p \<in> set ps \<Longrightarrow> c' (seg_id (deref h p)) = c (seg_id (deref h p)) \<and> b' (seg_id (deref h p)) = b (seg_id (deref h p))"
  shows "news w h m ps act c' b'"
  using assms unfolding news_def by simp

lemma index_insert_short:
  assumes "table_inv t" "index_insert_or_assign t k ref = (t', r)" "length k < 2147483648"
  shows "table_inv t'" "hashed_for t' = hashed_for t" "r = Inl e \<Longrightarrow> e = Arithmetic_overflow" "r = Inr mu \<Longrightarrow> tab t' = (tab t)(k \<mapsto> ref)"
proof -
  note a = insert_or_assign_ok [OF assms(1) hashed_for_hashed(1) assms(2) [unfolded index_insert_or_assign_def], unfolded hashed_for_hashed(2)]
  show "table_inv t'" using a by simp
  have "st_routing t' = st_routing t" "st_seed t' = st_seed t" using a by simp_all
  then show "hashed_for t' = hashed_for t" by (simp add: hashed_for_def fun_eq_iff)
  show "e = Arithmetic_overflow" if "r = Inl e" using a assms(3) unfolding that sum.case by linarith
  show "tab t' = (tab t)(k \<mapsto> ref)" if "r = Inr mu" using a unfolding that sum.case by simp
qed

text \<open>The entry of the index the loop is looking at.\<close>

lemma entry_facts:
  assumes "worker_inv w" "tab (w_index w) k = Some ref"
  obtains q i where "q \<in> set (w_owned w)" "find_owned_segment w (rr_segment_id ref) = Some q" "rr_segment_id ref = seg_id (seg_at w q)"
    "segment_read (seg_at w q) ref = Inr (view_of i)" "read_ref w ref = Inr (view_of i)" "ri_key i = k" "ri_opcode i = opcode_put"
    "rec_ok i" "length k < 2147483648" "q < hp_next (w_heap w)"
proof -
  have o: "owns w" "refers w (tab (w_index w))" "base w" using assms(1) by (simp_all add: worker_inv_def base_def)
  obtain q i where q: "q \<in> set (w_owned w)" "holds (seg_at w q) ref i" "ri_key i = k" "ri_opcode i = opcode_put"
    "find_owned_segment w (rr_segment_id ref) = Some q" "rr_segment_id ref = seg_id (seg_at w q)"
    using referred [OF o(1,2) assms(2)] by blast
  have r: "segment_read (seg_at w q) ref = Inr (view_of i)" "rec_ok i" using holds_read(1,4) [OF q(2)] .
  have rr: "read_ref w ref = Inr (view_of i)" by (rule read_holds [OF o(1) q(1,2)])
  have "length (ri_key i) \<le> rec_size i"
    using record_extent_bounds(1) [of "length (ri_key i)" "length (ri_value i)"] by (simp add: rec_size_def)
  then have "length k < 2147483648" using rec_size_bounds(2) [OF r(2)] q(3) by simp
  from that [OF q(1,5,6) r(1) rr q(3,4) r(2) this base_mem(2) [OF o(3) q(1)]] show thesis .
qed

lemma accounted_other:
  assumes "accounted w srcs f" "map_of srcs (rr_segment_id ref) = None" "finite (dom f)" "f k = None"
  shows "accounted w srcs (f(k \<mapsto> ref))"
  unfolding accounted_def
proof (intro conjI allI impI)
  show "distinct (map fst srcs)" using assms(1) by (simp add: accounted_def)
  fix sid a assume a: "map_of srcs sid = Some a"
  then have "sid \<noteq> rr_segment_id ref" using assms(2) by auto
  then have "card (live_keys (f(k \<mapsto> ref)) sid) = card (live_keys f sid)" "live_size (f(k \<mapsto> ref)) sid = live_size f sid"
    using fun_cong [OF live_store(1) [OF assms(3,4), of ref], of sid] fun_cong [OF live_store(2) [OF assms(3,4), of ref], of sid]
    by simp_all
  then show "find_owned_segment w sid = Some (sa_segment a)" "sa_records a = of_nat (card (live_keys (f(k \<mapsto> ref)) sid))"
    "sa_bytes a = of_nat (live_size (f(k \<mapsto> ref)) sid)"
    using assms(1) a unfolding accounted_def by (simp_all only:)
qed

lemma accounted_source:
  assumes "accounted w srcs f" "map_of srcs (rr_segment_id ref) = Some a" "finite (dom f)" "f k = None"
  shows "accounted w (AList.update (rr_segment_id ref) (a\<lparr> sa_records := sa_records a + 1, sa_bytes := sa_bytes a + ucast (rr_size ref) \<rparr>) srcs)
    (f(k \<mapsto> ref))"
  unfolding accounted_def
proof (intro conjI [OF _ allI [OF allI [OF impI]]])
  show "distinct (map fst (AList.update (rr_segment_id ref) (a\<lparr> sa_records := sa_records a + 1, sa_bytes := sa_bytes a + ucast (rr_size ref) \<rparr>) srcs))"
    using assms(1) by (simp add: accounted_def distinct_update)
  fix sid x
  let ?n = "a\<lparr> sa_records := sa_records a + 1, sa_bytes := sa_bytes a + ucast (rr_size ref) \<rparr>"
  assume x: "map_of (AList.update (rr_segment_id ref) ?n srcs) sid = Some x"
  note cnt = fun_cong [OF live_store(1) [OF assms(3,4), of ref], of sid] fun_cong [OF live_store(2) [OF assms(3,4), of ref], of sid]
  show "find_owned_segment w sid = Some (sa_segment x) \<and> sa_records x = of_nat (card (live_keys (f(k \<mapsto> ref)) sid))
      \<and> sa_bytes x = of_nat (live_size (f(k \<mapsto> ref)) sid)"
  proof (cases "sid = rr_segment_id ref")
    case True
    have "(ucast (rr_size ref) :: u64) = of_nat (unat (rr_size ref))" by (simp add: unsigned_of_nat)
    then show ?thesis using x True assms(1,2) cnt by (auto simp: AList.update_conv' accounted_def)
  next
    case False
    then show ?thesis using x assms(1) cnt by (simp add: AList.update_conv' accounted_def)
  qed
qed

lemma copied_step:
  assumes "copied w h C now ps f g" "f k = None"
    and "rr_segment_id ref \<in> C \<Longrightarrow> moved w h now ps k ref r" "rr_segment_id ref \<notin> C \<Longrightarrow> r = Some ref"
  shows "copied w h C now ps (f(k \<mapsto> ref)) (g(k := r))"
proof (rule copiedI)
  fix j assume "(f(k \<mapsto> ref)) j = None"
  then show "(g(k := r)) j = None" using copiedD(1) [OF assms(1), of j] by (auto split: if_splits)
next
  fix j ref' assume "(f(k \<mapsto> ref)) j = Some ref'" "rr_segment_id ref' \<in> C"
  then show "moved w h now ps j ref' ((g(k := r)) j)"
    using copiedD(2) [OF assms(1), of j ref'] assms(3) by (cases "j = k") simp_all
next
  fix j ref' assume "(f(k \<mapsto> ref)) j = Some ref'" "rr_segment_id ref' \<notin> C"
  then show "(g(k := r)) j = Some ref'"
    using copiedD(3) [OF assms(1), of j ref'] assms(4) by (cases "j = k") simp_all
qed

text \<open>A record outside the sources keeps its reference.\<close>

lemma keep_entry:
  assumes inv: "worker_inv w" and sub: "f \<subseteq>\<^sub>m tab (w_index w)" and l: "loop_inv w C now f st"
    and k: "tab (w_index w) k = Some ref" "f k = None" "rr_segment_id ref \<notin> C"
    and ins: "index_insert_or_assign (vs_index st) k ref = (t, r)"
  shows "r = Inr mu \<Longrightarrow> loop_inv w C now (f(k \<mapsto> ref)) (st\<lparr> vs_index := t \<rparr>)" "r = Inl e \<Longrightarrow> e = Arithmetic_overflow"
proof -
  let ?g = "tab (vs_index st)" and ?ps = "vs_segments st" and ?h = "vs_heap st"
  have L: "grown w ?h (vs_alloc st)" "table_inv (vs_index st)" "hashed_for (vs_index st) = hashed_for (w_index w)"
    "news w ?h (vs_alloc st) ?ps (act_of ?ps) (\<lambda>sid. card (live_keys ?g sid)) (live_size ?g)"
    "copied w ?h C now ?ps f ?g" "dom (map_of (vs_sources st)) = C" "accounted w (vs_sources st) f"
    using l by (simp_all add: loop_inv_def)
  obtain q i where q: "q \<in> set (w_owned w)" "rr_segment_id ref = seg_id (seg_at w q)" "length k < 2147483648"
    by (rule entry_facts [OF inv k(1)])
  note I = index_insert_short [OF L(2) ins q(3)]
  show "r = Inl e \<Longrightarrow> e = Arithmetic_overflow" by (rule I(3))
  assume "r = Inr mu"
  then have t: "tab t = ?g(k \<mapsto> ref)" by (rule I(4))
  have gk: "?g k = None" by (rule copiedD(1) [OF L(5) k(2)])
  have fin: "finite (dom ?g)" "finite (dom f)" using finite_subset [OF map_le_implies_dom_le [OF sub]] by simp_all
  have "card (live_keys (tab t) (seg_id (deref ?h p))) = card (live_keys ?g (seg_id (deref ?h p)))
      \<and> live_size (tab t) (seg_id (deref ?h p)) = live_size ?g (seg_id (deref ?h p))" if p: "p \<in> set ?ps" for p
  proof -
    have "rr_segment_id ref \<noteq> seg_id (deref ?h p)"
      using owned_below [OF inv q(1)] newsD(4) [OF L(4) p] q(2) by (metis leD)
    then show ?thesis
      using fun_cong [OF live_store(1) [OF fin(1) gk, of ref], of "seg_id (deref ?h p)"]
        fun_cong [OF live_store(2) [OF fin(1) gk, of ref], of "seg_id (deref ?h p)"] by (simp add: t)
  qed
  then have "news w ?h (vs_alloc st) ?ps (act_of ?ps) (\<lambda>sid. card (live_keys (tab t) sid)) (live_size (tab t))"
    by (rule news_cong [OF L(4)])
  moreover have "copied w ?h C now ?ps (f(k \<mapsto> ref)) (tab t)"
    unfolding t by (rule copied_step [OF L(5) k(2)]) (use k(3) in simp_all)
  moreover have "map_of (vs_sources st) (rr_segment_id ref) = None" using L(6) k(3) by auto
  then have "accounted w (vs_sources st) (f(k \<mapsto> ref))" by (rule accounted_other [OF L(7) _ fin(2) k(2)])
  ultimately show "loop_inv w C now (f(k \<mapsto> ref)) (st\<lparr> vs_index := t \<rparr>)"
    using L(1,3,6) I(1,2) by (simp add: loop_inv_def)
qed

lemma act_of_last: "ps \<noteq> [] \<Longrightarrow> act_of ps = Some (last ps)"
  by (simp add: act_of_def)

text \<open>A record in a source is counted; then it is dropped or copied.\<close>

lemma count_entry:
  assumes l: "loop_inv w C now f st" and k: "f k = None" "finite (dom f)" and a: "map_of (vs_sources st) (rr_segment_id ref) = Some a"
  defines "srcs \<equiv> AList.update (rr_segment_id ref) (a\<lparr> sa_records := sa_records a + 1, sa_bytes := sa_bytes a + ucast (rr_size ref) \<rparr>) (vs_sources st)"
  shows "dom (map_of srcs) = C" "accounted w srcs (f(k \<mapsto> ref))"
proof -
  have L: "dom (map_of (vs_sources st)) = C" "accounted w (vs_sources st) f" using l by (simp_all add: loop_inv_def)
  have "rr_segment_id ref \<in> dom (map_of (vs_sources st))" using a by blast
  then show "dom (map_of srcs) = C" using L(1) by (auto simp: srcs_def AList.update_conv')
  show "accounted w srcs (f(k \<mapsto> ref))" unfolding srcs_def by (rule accounted_source [OF L(2) a k(2,1)])
qed

lemma copy_entry:
  assumes inv: "worker_inv w" and sub: "f \<subseteq>\<^sub>m tab (w_index w)" and l: "loop_inv w C now f st"
    and k: "tab (w_index w) k = Some ref" "f k = None" "rr_segment_id ref \<in> C"
    and i: "read_ref w ref = Inr (view_of i)" "ri_key i = k" "ri_opcode i = opcode_put" "\<not> expired (view_of i) now" "rec_ok i"
    and cat: "ow = None \<or> ow = Some (w_id w)" "\<forall>sid \<ge> gm_next_id (w_manager w). map_of cat sid = None"
    and srcs: "dom (map_of srcs) = C" "accounted w srcs (f(k \<mapsto> ref))"
    and st1: "st1 = st\<lparr> vs_sources := srcs, vs_stats := stats \<rparr>"
    and app: "append_replacement d (manager_allocator u (w_id w)) cat ow st1 i = (st2, r)"
  shows "grown w (vs_heap st2) (vs_alloc st2)" "r = Inl e \<Longrightarrow> e = Arithmetic_overflow"
    "r = Inr ref' \<Longrightarrow> \<exists>h. mark_live_back st2 ref' = (st2\<lparr> vs_heap := h \<rparr>, ok) \<and> grown w h (vs_alloc st2)
       \<and> (\<forall>t ins. index_insert_or_assign (vs_index st2) k ref' = (t, ins) \<longrightarrow>
            (\<forall>e. ins = Inl e \<longrightarrow> e = Arithmetic_overflow)
          \<and> (\<forall>mu s. ins = Inr mu \<longrightarrow> loop_inv w C now (f(k \<mapsto> ref)) (st2\<lparr> vs_heap := h, vs_index := t, vs_stats := s \<rparr>)))"
proof -
  let ?g = "tab (vs_index st)" and ?ps = "vs_segments st" and ?h = "vs_heap st"
  let ?c = "\<lambda>sid. card (live_keys ?g sid)" and ?b = "live_size ?g"
  have L: "grown w ?h (vs_alloc st)" "table_inv (vs_index st)" "hashed_for (vs_index st) = hashed_for (w_index w)"
    "news w ?h (vs_alloc st) ?ps (act_of ?ps) ?c ?b" "copied w ?h C now ?ps f ?g"
    using l by (simp_all add: loop_inv_def)
  have z: "unused (gm_next_id (vs_alloc st)) ?c ?b" by (rule copied_unused [OF inv sub L(5,4,1)])
  have A: "framed w st1 st2 \<and> (\<forall>ref. r = Inr ref \<longrightarrow> extended w ?c ?b st1 st2 \<and> holds (deref (vs_heap st2) (last (vs_segments st2))) ref i)
      \<and> (\<forall>e. r = Inl e \<longrightarrow> e = Arithmetic_overflow)"
    by (rule append_replacement_ok [OF _ _ _ i(5) cat(1) _ app]) (use L(1,4) z cat(2) in \<open>simp_all add: st1\<close>)
  then show g2: "grown w (vs_heap st2) (vs_alloc st2)" "r = Inl e \<Longrightarrow> e = Arithmetic_overflow" by (simp_all add: framed_def)
  assume r: "r = Inr ref'"
  have F: "vs_index st2 = vs_index st" "vs_sources st2 = srcs" "vs_segments st2 \<noteq> []" "set ?ps \<subseteq> set (vs_segments st2)"
    "\<And>q. q \<in> set ?ps \<Longrightarrow> extends (deref ?h q) (deref (vs_heap st2) q)"
    and n2: "news w (vs_heap st2) (vs_alloc st2) (vs_segments st2) (Some (last (vs_segments st2))) ?c ?b"
    and hold: "holds (deref (vs_heap st2) (last (vs_segments st2))) ref' i"
    using A r by (simp_all add: framed_def extended_def st1)
  have c2: "copied w (vs_heap st2) C now (vs_segments st2) f ?g" by (rule copied_mono [OF L(5) F(4,5)])
  have last: "last (vs_segments st2) \<in> set (vs_segments st2)" using F(3) by simp
  have sid: "rr_segment_id ref' = seg_id (deref (vs_heap st2) (last (vs_segments st2)))" using holds_read(3) [OF hold] .
  obtain log where log: "seg_log (deref (vs_heap st2) (last (vs_segments st2))) log" using newsD(7) [OF n2 last] by blast
  have small: "?c (rr_segment_id ref') < 2 ^ 32" "?b (rr_segment_id ref') < 2 ^ 32"
    using live_bounds_into(1,2) [OF copied_into [OF inv sub c2 n2 last] log] by (simp_all add: sid)
  obtain st3 x where "mark_live_back st2 ref' = (st3, x)" by fastforce
  from mark_live_back_ok [OF g2(1) n2 F(3) hold small this] this obtain h where
    h: "mark_live_back st2 ref' = (st2\<lparr> vs_heap := h \<rparr>, ok)" "grown w h (vs_alloc st2)"
      "news w h (vs_alloc st2) (vs_segments st2) (Some (last (vs_segments st2)))
         (?c(rr_segment_id ref' := ?c (rr_segment_id ref') + 1)) (?b(rr_segment_id ref' := ?b (rr_segment_id ref') + unat (rr_size ref')))"
      "\<forall>q \<in> set (vs_segments st2). extends (deref (vs_heap st2) q) (deref h q)" by auto
  have gk: "?g k = None" by (rule copiedD(1) [OF L(5) k(2)])
  have fin: "finite (dom ?g)" by simp
  have len: "length k < 2147483648" by (rule entry_facts [OF inv k(1)])
  have "(\<forall>e. ins = Inl e \<longrightarrow> e = Arithmetic_overflow)
      \<and> (\<forall>mu s. ins = Inr mu \<longrightarrow> loop_inv w C now (f(k \<mapsto> ref)) (st2\<lparr> vs_heap := h, vs_index := t, vs_stats := s \<rparr>))"
    if ins: "index_insert_or_assign (vs_index st2) k ref' = (t, ins)" for t ins
  proof (intro conjI allI impI)
    note I = index_insert_short [OF L(2) ins [unfolded F(1)] len]
    show "e = Arithmetic_overflow" if "ins = Inl e" for e by (rule I(3) [OF that])
    fix mu s assume "ins = Inr mu"
    then have t: "tab t = ?g(k \<mapsto> ref')" by (rule I(4))
    have c3: "copied w h C now (vs_segments st2) f ?g" by (rule copied_mono [OF c2]) (use h(4) in simp_all)
    have "holds (deref h (last (vs_segments st2))) ref' i" using h(4) last hold by (auto simp: extends_def)
    then have "moved w h now (vs_segments st2) k ref (Some ref')" unfolding moved_def using i last by blast
    then have "copied w h C now (vs_segments st2) (f(k \<mapsto> ref)) (tab t)"
      unfolding t using k(3) by (intro copied_step [OF c3 k(2)]) simp_all
    moreover have "news w h (vs_alloc st2) (vs_segments st2) (act_of (vs_segments st2)) (\<lambda>sid. card (live_keys (tab t) sid)) (live_size (tab t))"
      using h(3) unfolding t live_store [OF fin gk] act_of_last [OF F(3)] .
    ultimately show "loop_inv w C now (f(k \<mapsto> ref)) (st2\<lparr> vs_heap := h, vs_index := t, vs_stats := s \<rparr>)"
      using h(2) I(1,2) L(3) F(2) srcs by (simp add: loop_inv_def)
  qed
  then show "\<exists>h. mark_live_back st2 ref' = (st2\<lparr> vs_heap := h \<rparr>, ok) \<and> grown w h (vs_alloc st2)
       \<and> (\<forall>t ins. index_insert_or_assign (vs_index st2) k ref' = (t, ins) \<longrightarrow>
            (\<forall>e. ins = Inl e \<longrightarrow> e = Arithmetic_overflow)
          \<and> (\<forall>mu s. ins = Inr mu \<longrightarrow> loop_inv w C now (f(k \<mapsto> ref)) (st2\<lparr> vs_heap := h, vs_index := t, vs_stats := s \<rparr>)))"
    using h(1,2) by (intro exI [of _ h] conjI) simp_all
qed

lemma drop_entry:
  assumes l: "loop_inv w C now f st" and k: "f k = None" "rr_segment_id ref \<in> C"
    and i: "read_ref w ref = Inr (view_of i)" "ri_key i = k" "ri_opcode i = opcode_put" "expired (view_of i) now"
    and srcs: "dom (map_of srcs) = C" "accounted w srcs (f(k \<mapsto> ref))"
  shows "loop_inv w C now (f(k \<mapsto> ref)) (st\<lparr> vs_sources := srcs, vs_stats := s \<rparr>)"
proof -
  let ?g = "tab (vs_index st)"
  have L: "copied w (vs_heap st) C now (vs_segments st) f ?g" using l by (simp add: loop_inv_def)
  have "moved w (vs_heap st) now (vs_segments st) k ref None" unfolding moved_def using i by blast
  then have "copied w (vs_heap st) C now (vs_segments st) (f(k \<mapsto> ref)) (?g(k := None))"
    using k(2) by (intro copied_step [OF L k(1)]) simp_all
  moreover have "?g(k := None) = ?g" using copiedD(1) [OF L k(1)] by (simp add: fun_upd_idem)
  ultimately show ?thesis using l srcs by (simp add: loop_inv_def)
qed

lemma vacuum_entry_ok:
  assumes inv: "worker_inv w" and sub: "f \<subseteq>\<^sub>m tab (w_index w)" and l: "loop_inv w C now f st"
    and k: "tab (w_index w) k = Some ref" "f k = None"
    and cat: "map_of cat = map_of (w_owned_by_id w)" "ow = None \<or> ow = Some (w_id w)"
    and run: "vacuum_entry d (manager_allocator u (w_id w)) cat ow now st (k, ref) = (st', r)"
  shows "grown w (vs_heap st') (vs_alloc st') \<and> (r = ok \<longrightarrow> loop_inv w C now (f(k \<mapsto> ref)) st') \<and> (\<forall>e. r = Inl e \<longrightarrow> e = Arithmetic_overflow)"
proof -
  have L: "grown w (vs_heap st) (vs_alloc st)" "dom (map_of (vs_sources st)) = C" using l by (simp_all add: loop_inv_def)
  have o: "owns w" using inv by (simp add: worker_inv_def base_def)
  obtain q i where q: "find_owned_segment w (rr_segment_id ref) = Some q" "segment_read (seg_at w q) ref = Inr (view_of i)"
    "q < hp_next (w_heap w)" and i: "read_ref w ref = Inr (view_of i)" "ri_key i = k" "ri_opcode i = opcode_put" "rec_ok i"
    by (rule entry_facts [OF inv k(1)])
  have found: "map_of cat (rr_segment_id ref) = Some q" using q(1) cat(1) by (simp add: find_owned_segment_def)
  have "deref (vs_heap st) q = seg_at w q" using L(1) q(3) by (simp add: grown_def deref_def)
  then have read: "segment_read (deref (vs_heap st) q) ref = Inr (view_of i)" using q(2) by simp
  have "map_of cat sid = None" if sid: "gm_next_id (w_manager w) \<le> sid" for sid
  proof (cases "map_of cat sid")
    case (Some p)
    then have "p \<in> set (w_owned w)" "seg_id (seg_at w p) = sid" using owned_lookup [OF o, of sid p] cat(1) by simp_all
    then show ?thesis using owned_below [OF inv] sid by (meson leD)
  qed
  then have fresh: "\<forall>sid \<ge> gm_next_id (w_manager w). map_of cat sid = None" by blast
  show ?thesis
  proof (cases "map_of (vs_sources st) (rr_segment_id ref)")
    case None
    then have nin: "rr_segment_id ref \<notin> C" using L(2) by (auto simp: domIff)
    obtain t ins where ins: "index_insert_or_assign (vs_index st) k ref = (t, ins)" by fastforce
    have st': "st' = st\<lparr> vs_index := t \<rparr>" "r = bind_result ins (\<lambda>_. ok)"
      using run found None ins by (auto simp: vacuum_entry_def Let_def)
    show ?thesis
    proof (cases ins)
      case (Inl e)
      then show ?thesis using keep_entry(2) [OF inv sub l k nin ins] st' L(1) by simp
    next
      case (Inr mu)
      then show ?thesis using keep_entry(1) [OF inv sub l k nin ins] st' L(1) by simp
    qed
  next
    case (Some a)
    then have inC: "rr_segment_id ref \<in> C" using L(2) by blast
    have fin: "finite (dom f)" using finite_subset [OF map_le_implies_dom_le [OF sub]] by simp
    define srcs where "srcs = AList.update (rr_segment_id ref)
        (a\<lparr> sa_records := sa_records a + 1, sa_bytes := sa_bytes a + ucast (rr_size ref) \<rparr>) (vs_sources st)"
    note src = count_entry [OF l k(2) fin Some, folded srcs_def]
    define stats where "stats = (vs_stats st)\<lparr> vc_source_records_verified := vc_source_records_verified (vs_stats st) + 1,
        vc_source_bytes_verified := vc_source_bytes_verified (vs_stats st) + ucast (rr_size ref) \<rparr>"
    define st1 where "st1 = st\<lparr> vs_sources := srcs, vs_stats := stats \<rparr>"
    show ?thesis
    proof (cases "expired (view_of i) now")
      case True
      have "st' = st\<lparr> vs_sources := srcs, vs_stats := stats\<lparr> vc_expired_records_dropped := vc_expired_records_dropped stats + 1 \<rparr> \<rparr>" "r = ok"
        using run found Some read True by (auto simp: vacuum_entry_def Let_def srcs_def stats_def)
      then show ?thesis using drop_entry [OF l k(2) inC i(1-3) True src] L(1) by simp
    next
      case False
      obtain st2 ar where app: "append_replacement d (manager_allocator u (w_id w)) cat ow st1 i = (st2, ar)" by fastforce
      note C = copy_entry [OF inv sub l k inC i(1-3) False i(4) cat(2) fresh src st1_def app]
      have run2: "(case (st2, ar) of (st, Inl e) \<Rightarrow> (st, Inl e)
          | (st, Inr ref) \<Rightarrow>
              (case mark_live_back st ref of
                 (st, Inl e) \<Rightarrow> (st, Inl e)
               | (st, Inr _) \<Rightarrow>
                   (case index_insert_or_assign (vs_index st) k ref of
                      (t, Inl e) \<Rightarrow> (st\<lparr> vs_index := t \<rparr>, Inl e)
                    | (t, Inr _) \<Rightarrow>
                        (st\<lparr> vs_index := t,
                             vs_stats := (vs_stats st)\<lparr> vc_records_copied := vc_records_copied (vs_stats st) + 1,
                               vc_bytes_copied := vc_bytes_copied (vs_stats st) + ucast (rr_size ref) \<rparr> \<rparr>, ok)))) = (st', r)"
        using run found Some read False
        by (simp add: vacuum_entry_def Let_def app [symmetric] st1_def srcs_def stats_def)
      show ?thesis
      proof (cases ar)
        case (Inl e)
        then have "st' = st2" "r = Inl e" using run2 by simp_all
        then show ?thesis using C(1,2) Inl by simp
      next
        case (Inr ref')
        from C(3) [OF Inr] obtain h where h: "mark_live_back st2 ref' = (st2\<lparr> vs_heap := h \<rparr>, ok)" "grown w h (vs_alloc st2)"
          and nx: "\<forall>t ins. index_insert_or_assign (vs_index st2) k ref' = (t, ins) \<longrightarrow>
            (\<forall>e. ins = Inl e \<longrightarrow> e = Arithmetic_overflow)
          \<and> (\<forall>mu s. ins = Inr mu \<longrightarrow> loop_inv w C now (f(k \<mapsto> ref)) (st2\<lparr> vs_heap := h, vs_index := t, vs_stats := s \<rparr>))"
          by (elim exE conjE)
        obtain t ins where ins: "index_insert_or_assign (vs_index st2) k ref' = (t, ins)" by fastforce
        show ?thesis
        proof (cases ins)
          case e: (Inl e)
          then have "st' = st2\<lparr> vs_heap := h, vs_index := t \<rparr>" "r = Inl e" using run2 Inr h(1) ins by simp_all
          then show ?thesis using h(2) nx ins e by simp
        next
          case mu: (Inr mu)
          define s where "s = (vs_stats st2)\<lparr> vc_records_copied := vc_records_copied (vs_stats st2) + 1,
              vc_bytes_copied := vc_bytes_copied (vs_stats st2) + ucast (rr_size ref') \<rparr>"
          have "st' = st2\<lparr> vs_heap := h, vs_index := t, vs_stats := s \<rparr>" "r = ok"
            using run2 Inr h(1) ins mu by (simp_all add: s_def)
          then show ?thesis using h(2) nx ins mu by simp
        qed
      qed
    qed
  qed
qed

lemma vacuum_entries_ok:
  assumes inv: "worker_inv w" and cat: "map_of cat = map_of (w_owned_by_id w)" "ow = None \<or> ow = Some (w_id w)"
  shows "loop_inv w C now f st \<Longrightarrow> f \<subseteq>\<^sub>m tab (w_index w) \<Longrightarrow> distinct (map fst es) \<Longrightarrow>
    (\<And>k ref. (k, ref) \<in> set es \<Longrightarrow> tab (w_index w) k = Some ref \<and> f k = None) \<Longrightarrow>
    vacuum_entries d (manager_allocator u (w_id w)) cat ow now st es = (st', r) \<Longrightarrow>
    grown w (vs_heap st') (vs_alloc st') \<and> (r = ok \<longrightarrow> loop_inv w C now (f ++ map_of es) st') \<and> (\<forall>e. r = Inl e \<longrightarrow> e = Arithmetic_overflow)"
proof (induction es arbitrary: f st)
  case Nil
  then have "st' = st" "r = ok" by simp_all
  then show ?case using Nil.prems(1) by (simp add: loop_inv_def)
next
  case (Cons e es)
  obtain k ref where e: "e = (k, ref)" by (cases e)
  have k: "tab (w_index w) k = Some ref" "f k = None" using Cons.prems(4) [of k ref] e by simp_all
  obtain st1 r1 where s: "vacuum_entry d (manager_allocator u (w_id w)) cat ow now st (k, ref) = (st1, r1)" by fastforce
  note S = vacuum_entry_ok [OF inv Cons.prems(2,1) k cat s]
  show ?case
  proof (cases r1)
    case (Inl x)
    then have "st' = st1" "r = Inl x" using Cons.prems(5) e s by simp_all
    then show ?thesis using S Inl by simp
  next
    case (Inr x)
    let ?f = "f(k \<mapsto> ref)"
    have run: "vacuum_entries d (manager_allocator u (w_id w)) cat ow now st1 es = (st', r)" using Cons.prems(5) e s Inr by simp
    have sub: "?f \<subseteq>\<^sub>m tab (w_index w)" using Cons.prems(2) k(1) by (auto simp: map_le_def)
    have new: "tab (w_index w) j = Some y \<and> ?f j = None" if "(j, y) \<in> set es" for j y
      using Cons.prems(3) Cons.prems(4) [of j y] e that by (force simp: image_iff)
    have "k \<notin> dom (map_of es)" using Cons.prems(3) e by (simp add: dom_map_of_conv_image_fst)
    then have eq: "f ++ map_of (e # es) = ?f ++ map_of es" unfolding e map_of.simps by (simp add: map_add_upd_left)
    have l1: "loop_inv w C now ?f st1" using S Inr by simp
    have "distinct (map fst es)" using Cons.prems(3) by simp
    from Cons.IH [OF l1 sub this new run] show ?thesis unfolding eq by blast
  qed
qed

end
