(* ===== verification/Vacuum_Publish.thy ===== *)
theory Vacuum_Publish
  imports Vacuum_Loop
begin

text \<open>
  What \<open>rebuild\<close> returns for a Worker, and the publication of it: the copied records are marked dead
  in their old segments, the manager exchanges the segments, and the Worker takes over the new
  index.
\<close>

section \<open>The result of a rebuild\<close>

definition sealed_own :: "worker \<Rightarrow> u64 \<Rightarrow> bool" where
  "sealed_own w sid \<longleftrightarrow> (\<exists>p \<in> set (w_owned w). seg_id (seg_at w p) = sid \<and> seg_state (seg_at w p) = Seg_sealed)"

definition rebuilt :: "worker \<Rightarrow> u64 list \<Rightarrow> u64 \<Rightarrow> seg_heap \<Rightarrow> manager \<Rightarrow> vacuum_result \<Rightarrow> bool" where
  "rebuilt w C now h m res \<longleftrightarrow> distinct C \<and> (\<forall>sid \<in> set C. sealed_own w sid)
     \<and> table_inv (vr_index res) \<and> hashed_for (vr_index res) = hashed_for (w_index w)
     \<and> news w h m (vr_segments res) None (\<lambda>sid. card (live_keys (tab (vr_index res)) sid)) (live_size (tab (vr_index res)))
     \<and> copied w h (set C) now (vr_segments res) (tab (w_index w)) (tab (vr_index res))"

lemma sources_agree_ok:
  assumes inv: "worker_inv w" and g: "grown w h m" and a: "accounted w srcs (tab (w_index w))"
  shows "sources_agree h srcs"
  unfolding sources_agree_def list_all_iff
proof
  fix x assume x: "x \<in> set srcs"
  obtain sid s where xs: "x = (sid, s)" by (cases x)
  have o: "owns w" "accounts w (tab (w_index w))" "base w" using inv by (simp_all add: worker_inv_def base_def)
  have "map_of srcs sid = Some s" using a x xs by (simp add: accounted_def)
  then have s: "find_owned_segment w sid = Some (sa_segment s)" "sa_records s = of_nat (card (live_keys (tab (w_index w)) sid))"
    "sa_bytes s = of_nat (live_size (tab (w_index w)) sid)" using a unfolding accounted_def by blast+
  then have p: "sa_segment s \<in> set (w_owned w)" "seg_id (seg_at w (sa_segment s)) = sid"
    using owned_lookup [OF o(1), of sid "sa_segment s"] by (simp_all add: find_owned_segment_def)
  have "deref h (sa_segment s) = seg_at w (sa_segment s)"
    using g base_mem(2) [OF o(3) p(1)] by (simp add: grown_def deref_def)
  moreover have "unat (ss_live_records (seg_stats (seg_at w (sa_segment s)))) = card (live_keys (tab (w_index w)) sid)"
    "unat (ss_live_bytes (seg_stats (seg_at w (sa_segment s)))) = live_size (tab (w_index w)) sid"
    using o(2) p by (simp_all add: accounts_def counted_def)
  then have "sa_records s = ss_live_records (seg_stats (seg_at w (sa_segment s)))"
    "sa_bytes s = ss_live_bytes (seg_stats (seg_at w (sa_segment s)))"
    unfolding s(2,3) by (metis of_nat_unat_id)+
  ultimately show "case x of (_, source) \<Rightarrow> let stats = seg_stats (deref h (sa_segment source)) in
      sa_records source = ss_live_records stats \<and> sa_bytes source = ss_live_bytes stats"
    by (simp add: xs Let_def)
qed

lemma grown_refl: "worker_inv w \<Longrightarrow> grown w (w_heap w) (w_manager w)"
  by (simp add: grown_def worker_inv_def base_def)

lemma rebuild_ok:
  assumes inv: "worker_inv w"
    and run: "rebuild d (w_index w) (w_owned w) C (Some (manager_allocator u (w_id w))) now (w_heap w) (w_manager w) = (h, m, r)"
  shows "grown w h m \<and> (\<forall>res. r = Inr res \<longrightarrow> rebuilt w C now h m res)
    \<and> (\<forall>e. r = Inl e \<longrightarrow> e = Arithmetic_overflow \<or> \<not> (distinct C \<and> (\<forall>sid \<in> set C. sealed_own w sid)))"
proof -
  have o: "owns w" using inv by (simp add: worker_inv_def base_def)
  note gr = grown_refl [OF inv]
  define cat where "cat = make_catalog (w_heap w) (w_owned w)"
  have cm: "map_of cat = map_of (w_owned_by_id w)" unfolding cat_def by (rule catalog_owned [OF o])
  have own: "seg_owner (seg_at w p) = w_id w" if "map_of cat sid = Some p" for sid p
    using that owned_lookup [OF o, of sid p] ownedD(2) [OF o, of p] by (simp add: cm)
  have good: "good_source (w_heap w) cat [] sid \<longleftrightarrow> sealed_own w sid" for sid
    using owned_lookup [OF o, of sid] by (auto simp: good_source_def sealed_own_def cm)
  have col: "case collect_sources (w_heap w) cat [] None C of
      Inl e \<Rightarrow> \<not> (distinct C \<and> (\<forall>sid \<in> set C. sealed_own w sid))
    | Inr (srcs, ow) \<Rightarrow> distinct C \<and> (\<forall>sid \<in> set C. sealed_own w sid) \<and> (ow = None \<or> ow = Some (w_id w)) \<and> distinct (map fst srcs)
        \<and> map_of srcs = (\<lambda>sid. if sid \<in> set C then Some \<lparr> sa_segment = the (map_of cat sid), sa_records = 0, sa_bytes = 0 \<rparr>
                              else map_of [] sid)"
    by (rule collect_sources_ok [of cat "w_heap w" "w_id w" None "[]" C, unfolded good]) (simp_all add: own)
  show ?thesis
  proof (cases "collect_sources (w_heap w) cat [] None C")
    case (Inl e)
    then have "h = w_heap w" "m = w_manager w" "r = Inl e" using run by (simp_all add: rebuild_def cat_def [symmetric])
    then show ?thesis using gr col Inl by simp
  next
    case (Inr x)
    then obtain srcs ow where x: "collect_sources (w_heap w) cat [] None C = Inr (srcs, ow)" by (cases x) simp
    have src: "distinct C" "\<forall>sid \<in> set C. sealed_own w sid" "ow = None \<or> ow = Some (w_id w)" "distinct (map fst srcs)"
      "map_of srcs = (\<lambda>sid. if sid \<in> set C then Some \<lparr> sa_segment = the (map_of cat sid), sa_records = 0, sa_bytes = 0 \<rparr> else None)"
      using col unfolding x by (simp_all add: fun_eq_iff)
    obtain t rr where re: "reserve (make_empty (w_index w)) (st_size (w_index w)) = (t, rr)" by fastforce
    have emp: "table_inv (make_empty (w_index w))" "tab (make_empty (w_index w)) = Map.empty"
      "st_routing (make_empty (w_index w)) = st_routing (w_index w)" "st_seed (make_empty (w_index w)) = st_seed (w_index w)"
      by (simp_all add: make_empty_def clone_empty_def make_swiss_table_ok) (simp_all add: make_swiss_table_def)
    note R = reserve_ok [OF emp(1) re]
    have t: "table_inv t" "tab t = Map.empty" "hashed_for t = hashed_for (w_index w)" "rr = ok \<or> rr = fail Arithmetic_overflow"
      using R emp by (auto simp: hashed_for_def fun_eq_iff)
    show ?thesis
    proof (cases rr)
      case e: (Inl e)
      then have "h = w_heap w" "m = w_manager w" "r = Inl e" using run x re by (simp_all add: rebuild_def cat_def [symmetric])
      then show ?thesis using gr t(4) e by simp
    next
      case ok: (Inr y)
      define st where "st = \<lparr> vs_heap = w_heap w, vs_alloc = w_manager w, vs_sources = srcs, vs_index = t, vs_segments = [],
         vs_stats = \<lparr> vc_source_records_verified = 0, vc_source_bytes_verified = 0, vc_records_copied = 0, vc_bytes_copied = 0,
           vc_expired_records_dropped = 0, vc_old_segments = of_nat (length C), vc_new_segments = 0 \<rparr> \<rparr>"
      have "sealed_own w sid \<Longrightarrow> find_owned_segment w sid = Some (the (map_of cat sid))" for sid
        using ownedD(5) [OF o] by (auto simp: sealed_own_def find_owned_segment_def cm)
      then have "accounted w srcs Map.empty"
        using src(2,4) unfolding accounted_def src(5) by (auto simp: live_keys_def live_size_def split: if_splits)
      moreover have "dom (map_of srcs) = set C" unfolding src(5) by (auto split: if_splits)
      ultimately have l0: "loop_inv w (set C) now Map.empty st"
        using gr t by (simp add: loop_inv_def st_def news_def copied_def)
      obtain st1 r1 where es: "vacuum_entries d (manager_allocator u (w_id w)) cat ow now st (swiss_entries (w_index w)) = (st1, r1)"
        by fastforce
      have ti: "table_inv (w_index w)" using inv by (simp add: worker_inv_def base_def)
      have dist: "distinct (map fst (swiss_entries (w_index w)))" by (rule distinct_swiss_entries [OF table_invD(10) [OF ti]])
      have ent: "tab (w_index w) k = Some ref \<and> Map.empty k = None" if "(k, ref) \<in> set (swiss_entries (w_index w))" for k ref
        using that dist by (simp add: tab_def)
      note V = vacuum_entries_ok [OF inv cm src(3) l0 _ dist ent es, simplified]
      show ?thesis
      proof (cases r1)
        case e: (Inl e)
        then have "h = vs_heap st1" "m = vs_alloc st1" "r = Inl e"
          using run x re ok es by (simp_all add: rebuild_def cat_def [symmetric] st_def)
        then show ?thesis using V e by simp
      next
        case (Inr y1)
        have l1: "loop_inv w (set C) now (tab (w_index w)) st1" using V Inr by (simp add: tab_def)
        have L: "grown w (vs_heap st1) (vs_alloc st1)" "table_inv (vs_index st1)" "hashed_for (vs_index st1) = hashed_for (w_index w)"
          "news w (vs_heap st1) (vs_alloc st1) (vs_segments st1) (act_of (vs_segments st1))
             (\<lambda>sid. card (live_keys (tab (vs_index st1)) sid)) (live_size (tab (vs_index st1)))"
          "copied w (vs_heap st1) (set C) now (vs_segments st1) (tab (w_index w)) (tab (vs_index st1))"
          "accounted w (vs_sources st1) (tab (w_index w))" using l1 by (simp_all add: loop_inv_def)
        have agree: "sources_agree (vs_heap st1) (vs_sources st1)" by (rule sources_agree_ok [OF inv L(1,6)])
        have "act_of (vs_segments st1) \<in> Some ` set (vs_segments st1) \<or> act_of (vs_segments st1) = None" by (auto simp: act_of_def)
        then obtain h' where h': "seal_all (vs_heap st1) (vs_segments st1) = (h', ok)" "grown w h' (vs_alloc st1)"
          "news w h' (vs_alloc st1) (vs_segments st1) None (\<lambda>sid. card (live_keys (tab (vs_index st1)) sid)) (live_size (tab (vs_index st1)))"
          "\<forall>q \<in> set (vs_segments st1). extends (deref (vs_heap st1) q) (deref h' q)"
          using seal_all_ok [OF L(1,4) order_refl] by auto
        have "copied w h' (set C) now (vs_segments st1) (tab (w_index w)) (tab (vs_index st1))"
          by (rule copied_mono [OF L(5)]) (use h'(4) in simp_all)
        moreover have "h = h'" "m = vs_alloc st1" "r = Inr \<lparr> vr_index = vs_index st1, vr_segments = vs_segments st1,
            vr_stats = (vs_stats st1)\<lparr> vc_new_segments := of_nat (length (vs_segments st1)) \<rparr> \<rparr>"
          using run x re ok es Inr agree h'(1) by (simp_all add: rebuild_def cat_def [symmetric] st_def)
        ultimately show ?thesis using h'(2,3) L(2,3) src(1,2) by (auto simp: rebuilt_def)
      qed
    qed
  qed
qed

end
