(* ===== verification/Vacuum_Mark.thy ===== *)
theory Vacuum_Mark
  imports Vacuum_Publish
begin

text \<open>
  The steps of publishing a vacuumed index: marking the copied records dead never fails,
  \<open>restore_liveness\<close> undoes it, and the manager accepts the exchange of the segments.
\<close>

section \<open>Marking records\<close>

text \<open>Only the heap has changed, and there only the counters of owned segments.\<close>

definition touched :: "worker \<Rightarrow> worker \<Rightarrow> bool" where
  "touched w w' \<longleftrightarrow> w' = w\<lparr> w_heap := w_heap w' \<rparr> \<and> hp_next (w_heap w') = hp_next (w_heap w)
     \<and> (\<forall>q. q \<notin> set (w_owned w) \<longrightarrow> hp_mem (w_heap w') q = hp_mem (w_heap w) q)
     \<and> (\<forall>q \<in> set (w_owned w). extends (seg_at w q) (seg_at w' q) \<and> seg_state (seg_at w' q) = seg_state (seg_at w q))"

lemma touched_refl [simp]: "touched w w"
  by (simp add: touched_def)

lemma touched_fields:
  assumes "touched w w'"
  shows "w_owned w' = w_owned w" "w_owned_by_id w' = w_owned_by_id w" "w_manager w' = w_manager w" "w_id w' = w_id w"
    "w_active w' = w_active w" "w_index w' = w_index w" "same_config w w'" "w_next_sequence w' = w_next_sequence w"
    "find_owned_segment w' = find_owned_segment w"
proof -
  have e: "w' = w\<lparr> w_heap := w_heap w' \<rparr>" using assms by (simp add: touched_def)
  show "w_owned w' = w_owned w" "w_owned_by_id w' = w_owned_by_id w" "w_manager w' = w_manager w" "w_id w' = w_id w"
    "w_active w' = w_active w" "w_index w' = w_index w" "same_config w w'" "w_next_sequence w' = w_next_sequence w"
    "find_owned_segment w' = find_owned_segment w"
    by (subst e, simp add: same_config_def find_owned_segment_def fun_eq_iff)+
qed

lemma touched_trans:
  assumes "touched w w'" "touched w' w''"
  shows "touched w w''"
proof -
  have own: "w_owned w' = w_owned w" using assms(1) by (rule touched_fields)
  have "w'' = w'\<lparr> w_heap := w_heap w'' \<rparr>" "w' = w\<lparr> w_heap := w_heap w' \<rparr>" using assms by (simp_all add: touched_def)
  then have "w'' = w\<lparr> w_heap := w_heap w'' \<rparr>" by (metis (no_types) worker.update_convs(1) worker.surjective)
  moreover have "extends (seg_at w q) (seg_at w'' q)" if "q \<in> set (w_owned w)" for q
    using assms that extends_trans unfolding touched_def own by blast
  ultimately show ?thesis using assms unfolding touched_def own by simp
qed

lemma touched_set_segment:
  assumes "p \<in> set (w_owned w)" "extends (seg_at w p) s" "seg_state s = seg_state (seg_at w p)"
  shows "touched w (set_segment w p s)"
  using assms by (auto simp: touched_def set_segment_def assign_def deref_def)

lemma set_segment_inj: "set_segment w p s = set_segment w p s' \<Longrightarrow> s = s'"
  by (drule arg_cong [of _ _ "\<lambda>w. seg_at w p"]) (simp add: set_segment_def)

text \<open>The state of the two marking loops: \<open>f\<close> is the index, \<open>g\<close> the entries counted as live.\<close>

definition marking :: "worker \<Rightarrow> (bytes \<Rightarrow> record_ref option) \<Rightarrow> worker \<Rightarrow> (bytes \<Rightarrow> record_ref option) \<Rightarrow> bool" where
  "marking w0 f w g \<longleftrightarrow> base w \<and> refers w f \<and> accounts w g \<and> g \<subseteq>\<^sub>m f \<and> touched w0 w"

lemma marking_refers: "marking w0 f w g \<Longrightarrow> refers w g"
  by (auto simp: marking_def refers_def map_le_def dom_def)

lemma marking_set_segment:
  assumes m: "marking w0 f w g" and p: "p \<in> set (w_owned w)" "extends (seg_at w p) s" "seg_state s = seg_state (seg_at w p)"
    and b: "base (set_segment w p s)" "accounts (set_segment w p s) g'" "g' \<subseteq>\<^sub>m f"
  shows "marking w0 f (set_segment w p s) g'"
proof -
  have "owns w" "owns (set_segment w p s)" "refers w f" using m b(1) by (simp_all add: marking_def base_def)
  then have "refers (set_segment w p s) f" using kept_set_segment p(2) by blast
  moreover have "touched w0 (set_segment w p s)"
    using touched_trans [OF _ touched_set_segment [OF p]] m by (simp add: marking_def)
  ultimately show ?thesis using b by (simp add: marking_def)
qed

lemma mark_dead_step:
  assumes m: "marking w0 f w g" and fin: "finite (dom f)" and k: "g k = Some ref"
  shows "\<exists>p w'. find_owned_segment w (rr_segment_id ref) = Some p \<and> mark_dead_at w p ref = (w', ok)
    \<and> marking w0 f w' (g(k := None))"
proof -
  have b: "base w" "owns w" "counted w (\<lambda>sid. card (live_keys g sid)) (live_size g)" "g \<subseteq>\<^sub>m f"
    using m by (simp_all add: marking_def base_def accounts_def)
  have fg: "finite (dom g)" using finite_subset [OF map_le_implies_dom_le [OF b(4)] fin] .
  obtain p i where p: "p \<in> set (w_owned w)" "holds (seg_at w p) ref i" "find_owned_segment w (rr_segment_id ref) = Some p"
    using referred [OF b(2) marking_refers [OF m] k] by blast
  note lr = live_remove [OF fg k]
  obtain s where s: "mark_dead_at w p ref = (set_segment w p s, ok)" "base (set_segment w p s)" "extends (seg_at w p) s"
    "counted (set_segment w p s) (\<lambda>sid. card (live_keys (g(k := None)) sid)) (live_size (g(k := None)))"
    using mark_dead_ok(2) [OF b(1) p(1,2) b(3) lr(3,4)] unfolding lr(1,2) by blast
  have "set_segment w p (fst (segment_mark_dead (seg_at w p) ref)) = set_segment w p s"
    using s(1) by (simp add: mark_dead_at_def case_prod_unfold Let_def)
  then have st: "seg_state s = seg_state (seg_at w p)" using set_segment_inj mark_dead_keeps(3) by metis
  have "g(k := None) \<subseteq>\<^sub>m f" using b(4) by (auto simp: map_le_def)
  then have "marking w0 f (set_segment w p s) (g(k := None))"
    by (intro marking_set_segment [OF m p(1) s(3) st s(2)]) (simp_all add: accounts_def s(4))
  then show ?thesis using p(3) s(1) by blast
qed

lemma mark_live_step:
  assumes m: "marking w0 f w g" and fin: "finite (dom f)" and k: "g k = None" "f k = Some ref"
  shows "\<exists>p w'. find_owned_segment w (rr_segment_id ref) = Some p \<and> mark_live_at w p ref = (w', ok)
    \<and> marking w0 f w' (g(k \<mapsto> ref))"
proof -
  have b: "base w" "owns w" "counted w (\<lambda>sid. card (live_keys g sid)) (live_size g)" "g \<subseteq>\<^sub>m f" "refers w f"
    using m by (simp_all add: marking_def base_def accounts_def)
  have fg: "finite (dom g)" using finite_subset [OF map_le_implies_dom_le [OF b(4)] fin] .
  obtain p i where p: "p \<in> set (w_owned w)" "holds (seg_at w p) ref i" "find_owned_segment w (rr_segment_id ref) = Some p"
    "rr_segment_id ref = seg_id (seg_at w p)"
    using referred [OF b(2,5) k(2)] by blast
  note ls = live_store [OF fg k(1), of ref]
  have "card (live_keys g (rr_segment_id ref)) < 2 ^ 32" "live_size g (rr_segment_id ref) < 2 ^ 32"
    using live_bounds(1,2) [OF b(2) marking_refers [OF m] p(1)] by (simp_all add: p(4))
  then obtain s where s: "mark_live_at w p ref = (set_segment w p s, ok)" "base (set_segment w p s)" "extends (seg_at w p) s"
    "counted (set_segment w p s) (\<lambda>sid. card (live_keys (g(k \<mapsto> ref)) sid)) (live_size (g(k \<mapsto> ref)))"
    using mark_live_ok [OF b(1) p(1,2) b(3)] unfolding ls by blast
  have "set_segment w p (fst (segment_mark_live (seg_at w p) ref)) = set_segment w p s"
    using s(1) by (simp add: mark_live_at_def case_prod_unfold Let_def)
  then have st: "seg_state s = seg_state (seg_at w p)" using set_segment_inj mark_live_keeps(3) by metis
  have "g(k \<mapsto> ref) \<subseteq>\<^sub>m f" using b(4) k(2) by (auto simp: map_le_def)
  then have "marking w0 f (set_segment w p s) (g(k \<mapsto> ref))"
    by (intro marking_set_segment [OF m p(1) s(3) st s(2)]) (simp_all add: accounts_def s(4))
  then show ?thesis using p(3) s(1) by blast
qed

text \<open>The entries that both loops treat, and the index without the entries of a list.\<close>

definition stale :: "u64 list \<Rightarrow> (bytes \<times> record_ref) list \<Rightarrow> (bytes \<times> record_ref) list" where
  "stale C es = filter (\<lambda>(_, ref). rr_segment_id ref \<in> set C) es"

definition without :: "(bytes \<Rightarrow> record_ref option) \<Rightarrow> (bytes \<times> record_ref) list \<Rightarrow> bytes \<Rightarrow> record_ref option" where
  "without f es = f |` (- fst ` set es)"

lemma without_Cons: "(without f es)(k := None) = without f (es @ [(k, ref)])"
  by (auto simp: without_def restrict_map_def fun_eq_iff)

lemma mark_copied_dead_ok:
  assumes fin: "finite (dom f)"
  shows "marking w0 f w (without f (stale C pre)) \<Longrightarrow> distinct (map fst (pre @ es))
    \<Longrightarrow> (\<And>k ref. (k, ref) \<in> set es \<Longrightarrow> f k = Some ref)
    \<Longrightarrow> mark_copied_dead C (length (stale C pre)) w es = (w', n, r)
    \<Longrightarrow> r = ok \<and> n = length (stale C (pre @ es)) \<and> marking w0 f w' (without f (stale C (pre @ es)))"
proof (induction es arbitrary: w pre)
  case (Cons e es)
  obtain k ref where e: "e = (k, ref)" by (cases e)
  have d: "distinct (map fst ((pre @ [e]) @ es))" using Cons.prems(2) by simp
  show ?case
  proof (cases "rr_segment_id ref \<in> set C")
    case False
    then have "stale C (pre @ [e]) = stale C pre" by (simp add: stale_def e)
    then show ?thesis using Cons.IH [OF _ d, of w] Cons.prems(1,3,4) False by (simp add: e)
  next
    case True
    then have st: "stale C (pre @ [e]) = stale C pre @ [(k, ref)]" by (simp add: stale_def e)
    have "k \<notin> fst ` set (stale C pre)" using Cons.prems(2) by (auto simp: stale_def e)
    then have "without f (stale C pre) k = Some ref" using Cons.prems(3) [of k ref] by (simp add: without_def e)
    from mark_dead_step [OF Cons.prems(1) fin this] obtain p w1 where w1: "find_owned_segment w (rr_segment_id ref) = Some p"
      "mark_dead_at w p ref = (w1, ok)" "marking w0 f w1 (without f (stale C (pre @ [e])))"
      unfolding without_Cons [of _ _ _ ref] st by blast
    have "mark_copied_dead C (length (stale C (pre @ [e]))) w1 es = (w', n, r)"
      unfolding st using Cons.prems(4) True w1(1,2) by (simp add: e)
    then show ?thesis using Cons.IH [OF w1(3) d] Cons.prems(3) by simp
  qed
qed simp

lemma restore_liveness_ok:
  assumes fin: "finite (dom f)"
  shows "marking w0 f w (without f (stale C es)) \<Longrightarrow> distinct (map fst es)
    \<Longrightarrow> (\<And>k ref. (k, ref) \<in> set es \<Longrightarrow> f k = Some ref)
    \<Longrightarrow> n = restored + length (stale C es)
    \<Longrightarrow> marking w0 f (restore_liveness C n restored w es) f"
proof (induction es arbitrary: w restored)
  case Nil
  then show ?case by (simp add: without_def stale_def)
next
  case (Cons e es)
  obtain k ref where e: "e = (k, ref)" by (cases e)
  show ?case
  proof (cases "rr_segment_id ref \<in> set C")
    case False
    then have "stale C (e # es) = stale C es" by (simp add: stale_def e)
    then show ?thesis using Cons.IH [of w restored] Cons.prems False by (simp add: e)
  next
    case True
    then have st: "stale C (e # es) = (k, ref) # stale C es" by (simp add: stale_def e)
    have f: "f k = Some ref" using Cons.prems(3) [of k ref] by (simp add: e)
    have k: "without f (stale C (e # es)) k = None" by (simp add: st without_def)
    have "k \<notin> fst ` set (stale C es)" using Cons.prems(2) by (auto simp: stale_def e)
    then have upd: "(without f (stale C (e # es)))(k \<mapsto> ref) = without f (stale C es)"
      using f by (auto simp: st without_def restrict_map_def fun_eq_iff)
    from mark_live_step [OF Cons.prems(1) fin k f] obtain p w1 where w1: "find_owned_segment w (rr_segment_id ref) = Some p"
      "mark_live_at w p ref = (w1, ok)" "marking w0 f w1 (without f (stale C es))" unfolding upd by blast
    have n: "n = (restored + 1) + length (stale C es)" "restored \<noteq> n" using Cons.prems(4) by (simp_all add: st)
    have "restore_liveness C n restored w (e # es) = restore_liveness C n (restored + 1) w1 es"
      using True n(2) w1(1,2) by (simp add: e)
    then show ?thesis using Cons.IH [OF w1(3) _ _ n(1)] Cons.prems(2,3) by simp
  qed
qed

section \<open>Exchanging the segments\<close>

lemma check_sources_total:
  "distinct (prev @ ks) \<Longrightarrow> (\<forall>k \<in> set ks. source_ok h c owner k) \<Longrightarrow> (prev \<noteq> [] \<longrightarrow> ow = owner)
   \<Longrightarrow> check_sources h c prev ow ks = Inr (if ks = [] then ow else owner)"
proof (induction ks arbitrary: prev ow)
  case (Cons k ks)
  then obtain p where p: "map_of c k = Some p" "seg_state (deref h p) = Seg_sealed"
    "ss_live_records (seg_stats (deref h p)) = 0" "seg_owner (deref h p) = owner" by (auto simp: source_ok_def)
  then have "check_sources h c prev ow (k # ks) = check_sources h c (prev @ [k]) owner ks"
    using Cons.prems(1,3) by (auto simp: Let_def)
  then show ?case using Cons.IH [of "prev @ [k]" owner] Cons.prems(1,2) by simp
qed simp

lemma check_replacements_total:
  "distinct (map (\<lambda>p. seg_id (deref h p)) (prev @ ps))
   \<Longrightarrow> (\<forall>p \<in> set ps. seg_state (deref h p) = Seg_sealed \<and> seg_owner (deref h p) = owner \<and> map_of c (seg_id (deref h p)) = None)
   \<Longrightarrow> check_replacements h c owner prev (map Some ps) = Inr (prev @ ps)"
proof (induction ps arbitrary: prev)
  case (Cons p ps)
  have "\<not> (\<exists>q \<in> set prev. seg_id (deref h q) = seg_id (deref h p))" using Cons.prems(1) by (auto simp: image_iff)
  then have "check_replacements h c owner prev (map Some (p # ps)) = check_replacements h c owner (prev @ [p]) (map Some ps)"
    using Cons.prems(2) by (simp add: Let_def)
  then show ?case using Cons.IH [of "prev @ [p]"] Cons.prems by simp
qed simp

text \<open>On the arguments of a compaction the manager never answers with an error.\<close>

lemma replace_sealed_runs:
  assumes inv: "gm_inv h m" and src: "ks \<noteq> []" "distinct ks" "\<forall>k \<in> set ks. source_ok h (gm_catalog m) owner k"
    and new: "distinct (map (\<lambda>p. seg_id (deref h p)) ps)"
      "\<forall>p \<in> set ps. issued h m p \<and> seg_state (deref h p) = Seg_sealed \<and> seg_owner (deref h p) = owner
         \<and> map_of (gm_catalog m) (seg_id (deref h p)) = None"
    and run: "replace_sealed throw_at h m ks (map Some ps) = (h', m', r)"
  shows "r = Some ok \<and> replaced h m ks ps h' m' \<and> gm_inv h' m'
    \<or> r = None \<and> (\<exists>n < length ps. throw_at = Some n) \<and> h' = h \<and> gm_inv h' m' \<and> map_of (gm_catalog m') = map_of (gm_catalog m)"
proof -
  have iss: "\<And>p. Some p \<in> set (map Some ps) \<Longrightarrow> issued h m p" using new(2) by auto
  note cases = replace_sealed_cases_inv [OF inv iss run]
  have chk: "check_sources h (gm_catalog m) [] 0 ks = Inr owner"
    using check_sources_total [of "[]" ks h "gm_catalog m" owner 0] src by simp
  have rep: "check_replacements h (gm_catalog m) owner [] (map Some ps) = Inr ps"
    using check_replacements_total [of h "[]" ps owner "gm_catalog m"] new by simp
  consider (thr) n where "throw_at = Some n" "n < length ps" | (fine) "\<not> (case throw_at of Some n \<Rightarrow> n < length ps | None \<Rightarrow> False)"
    by (cases throw_at) auto
  then show ?thesis
  proof cases
    case thr
    have "r = None" using run src(1) chk rep thr by (auto simp: replace_sealed_def Let_def)
    then show ?thesis using cases thr by auto
  next
    case fine
    have "r = Some ok" using run src(1) chk rep fine by (auto simp: replace_sealed_def split: prod.splits)
    then obtain qs where "map Some ps = map Some qs" "replaced h m ks qs h' m'" "gm_inv h' m'" using cases by auto
    then show ?thesis using \<open>r = Some ok\<close> by simp
  qed
qed

lemma index_owned_ok:
  "distinct (map fst by_id) \<Longrightarrow> distinct (map (\<lambda>p. seg_id (deref h p)) ps)
   \<Longrightarrow> (\<forall>p \<in> set ps. map_of by_id (seg_id (deref h p)) = None)
   \<Longrightarrow> \<exists>by_id'. index_owned h by_id ps = Inr by_id' \<and> distinct (map fst by_id')
     \<and> (\<forall>sid p. map_of by_id' sid = Some p \<longleftrightarrow> map_of by_id sid = Some p \<or> p \<in> set ps \<and> seg_id (deref h p) = sid)"
proof (induction ps arbitrary: by_id)
  case (Cons q ps)
  let ?b = "AList.update (seg_id (deref h q)) q by_id"
  have none: "map_of by_id (seg_id (deref h q)) = None" using Cons.prems(3) by simp
  have "distinct (map fst ?b)" using Cons.prems(1) by (simp add: distinct_update)
  moreover have "\<forall>p \<in> set ps. map_of ?b (seg_id (deref h p)) = None"
    using Cons.prems(2,3) by (auto simp: AList.update_conv' image_iff)
  ultimately obtain b' where b': "index_owned h ?b ps = Inr b'" "distinct (map fst b')"
    "\<And>sid p. map_of b' sid = Some p \<longleftrightarrow> map_of ?b sid = Some p \<or> p \<in> set ps \<and> seg_id (deref h p) = sid"
    using Cons.IH [of ?b] Cons.prems(2) by auto
  have "map_of ?b sid = Some p \<longleftrightarrow> map_of by_id sid = Some p \<or> p = q \<and> seg_id (deref h q) = sid" for sid p
    using none by (auto simp: AList.update_conv')
  then have "map_of b' sid = Some p \<longleftrightarrow> map_of by_id sid = Some p \<or> p \<in> set (q # ps) \<and> seg_id (deref h p) = sid" for sid p
    unfolding b'(3) by auto
  then show ?case using none b'(1,2) by (intro exI [of _ b']) simp
qed simp

end
