(* ===== verification/Vacuum_Refine.thy ===== *)
theory Vacuum_Refine
  imports Vacuum_Mark Worker_Refine
begin

text \<open>
  Compaction keeps the map of a Worker, up to entries that have expired: the exchange of the
  segments and of the index establishes the invariant again, and every other path leaves the Worker
  with the index and the segments it had.
\<close>

section \<open>A Worker in a grown store\<close>

lemma owns_view:
  assumes "owns w" "\<And>p. p \<in> set (w_owned w) \<Longrightarrow> seg_at w' p = seg_at w p"
    and "map_of (gm_catalog (w_manager w')) = map_of (gm_catalog (w_manager w))"
    and "w_id w' = w_id w" "w_active w' = w_active w" "w_owned w' = w_owned w" "w_owned_by_id w' = w_owned_by_id w"
  shows "owns w'" "refers w' f = refers w f" "counted w' c b = counted w c b"
proof -
  have "(p \<in> set (w_owned w) \<and> seg_id (seg_at w' p) = sid) = (p \<in> set (w_owned w) \<and> seg_id (seg_at w p) = sid)" for p sid
    using assms(2) by auto
  then show "owns w'" using assms unfolding owns_def by simp
  show "refers w' f = refers w f" "counted w' c b = counted w c b"
    using assms(2,6) by (simp_all add: refers_def counted_def)
qed

lemma grown_worker:
  assumes inv: "worker_inv w" and g: "grown w h m" and v: "v = w\<lparr> w_heap := h, w_manager := m \<rparr>"
  shows "worker_inv v" "content v = content w" "\<And>p. p \<in> set (w_owned w) \<Longrightarrow> seg_at v p = seg_at w p"
proof -
  let ?f = "tab (w_index w)"
  have b: "base w" "owns w" "refers w ?f" "accounts w ?f" using inv by (simp_all add: worker_inv_def base_def)
  show at: "\<And>p. p \<in> set (w_owned w) \<Longrightarrow> seg_at v p = seg_at w p"
    using base_mem(2) [OF b(1)] g by (simp add: v grown_def deref_def)
  have cat: "gm_catalog (w_manager v) = gm_catalog (w_manager w)" using g by (simp add: v grown_def)
  have same: "owns v" "refers v ?f" "counted v (\<lambda>sid. card (live_keys ?f sid)) (live_size ?f)"
    using owns_view [OF b(2) at] b(3,4) by (simp_all add: cat accounts_def) (simp_all add: v)
  show "worker_inv v" using same g b(1) by (simp add: worker_inv_def base_def accounts_def) (simp add: v grown_def)
  have "keeps w v ?f" using kept [OF b(2) same(1) b(3)] at by (simp add: v)
  then show "content v = content w" using content_keeps by (simp add: content_def) (simp add: v)
qed

section \<open>The exchange\<close>

text \<open>
  The Worker after the exchange of the segments \<open>C\<close> for \<open>ps\<close>, as seen from the Worker \<open>v\<close> before it:
  what stays has its records, and what is new is as the builder left it.
\<close>

definition swapped :: "worker \<Rightarrow> u64 list \<Rightarrow> ptr list \<Rightarrow> worker \<Rightarrow> bool" where
  "swapped v C ps v' \<longleftrightarrow> w_id v' = w_id v \<and> w_active v' = w_active v
     \<and> w_owned v' = filter (\<lambda>p. seg_id (seg_at v p) \<notin> set C) (w_owned v) @ ps
     \<and> distinct (map fst (w_owned_by_id v'))
     \<and> (\<forall>sid p. map_of (w_owned_by_id v') sid = Some p \<longleftrightarrow> p \<in> set (w_owned v') \<and> seg_id (seg_at v p) = sid)
     \<and> (\<forall>p \<in> set (w_owned v'). map_of (gm_catalog (w_manager v')) (seg_id (seg_at v p)) = Some p)
     \<and> (\<forall>p \<in> set (w_owned v). seg_id (seg_at v p) \<notin> set C \<longrightarrow>
          extends (seg_at v p) (seg_at v' p) \<and> seg_state (seg_at v' p) = seg_state (seg_at v p))
     \<and> (\<forall>p \<in> set ps. seg_at v' p = seg_at v p)"

lemma swappedD:
  assumes "swapped v C ps v'"
  shows "w_id v' = w_id v" "w_active v' = w_active v" "set (w_owned v') = {p \<in> set (w_owned v). seg_id (seg_at v p) \<notin> set C} \<union> set ps"
    "p \<in> set (w_owned v') \<Longrightarrow> seg_id (seg_at v' p) = seg_id (seg_at v p) \<and> seg_owner (seg_at v' p) = seg_owner (seg_at v p)
       \<and> seg_state (seg_at v' p) = seg_state (seg_at v p)"
    "p \<in> set (w_owned v') \<Longrightarrow> \<exists>log. seg_log (seg_at v p) log \<Longrightarrow> \<exists>log. seg_log (seg_at v' p) log"
    "p \<in> set (w_owned v') \<Longrightarrow> holds (seg_at v p) ref i \<Longrightarrow> holds (seg_at v' p) ref i"
  using assms unfolding swapped_def extends_def by auto

lemma sealed_not_active: "owns w \<Longrightarrow> \<forall>sid \<in> set C. sealed_own w sid \<Longrightarrow> seg_id (seg_at w (w_active w)) \<notin> set C"
proof
  assume o: "owns w" and C: "\<forall>sid \<in> set C. sealed_own w sid" "seg_id (seg_at w (w_active w)) \<in> set C"
  have a: "w_active w \<in> set (w_owned w)" using o by (simp add: owns_def)
  obtain p where p: "p \<in> set (w_owned w)" "seg_id (seg_at w p) = seg_id (seg_at w (w_active w))" "seg_state (seg_at w p) = Seg_sealed"
    using C unfolding sealed_own_def by blast
  then have "p = w_active w" using owned_id_inj [OF o p(1) a] by simp
  then show False using p(3) ownedD(4) [OF o a] by simp
qed

lemma swapped_owns:
  assumes o: "owns v" and new: "news w h m ps None c b" and v: "v = w\<lparr> w_heap := h, w_manager := m \<rparr>"
    and low: "\<And>p. p \<in> set (w_owned v) \<Longrightarrow> p < hp_next (w_heap w)"
    and C: "\<forall>sid \<in> set C. sealed_own v sid" and sw: "swapped v C ps v'"
  shows "owns v'"
proof -
  note D = swappedD [OF sw]
  have old: "seg_owner (seg_at v p) = w_id v" "\<exists>log. seg_log (seg_at v p) log"
    "seg_state (seg_at v p) = (if p = w_active v then Seg_active else Seg_sealed)" if "p \<in> set (w_owned v')" for p
  proof -
    consider "p \<in> set (w_owned v)" | "p \<in> set ps" using \<open>p \<in> set (w_owned v')\<close> unfolding D(3) by blast
    then have "seg_owner (seg_at v p) = w_id v \<and> (\<exists>log. seg_log (seg_at v p) log)
        \<and> seg_state (seg_at v p) = (if p = w_active v then Seg_active else Seg_sealed)"
    proof cases
      case 1
      then show ?thesis using ownedD(2-4) [OF o] by simp
    next
      case 2
      have "w_active v \<in> set (w_owned v)" using o by (simp add: owns_def)
      then have "p \<noteq> w_active v" using newsD(1) [OF new 2] low by fastforce
      then show ?thesis using newsD(6,7,8) [OF new 2] by (simp add: v)
    qed
    then show "seg_owner (seg_at v p) = w_id v" "\<exists>log. seg_log (seg_at v p) log"
      "seg_state (seg_at v p) = (if p = w_active v then Seg_active else Seg_sealed)" by blast+
  qed
  have "set (w_owned v) \<inter> set ps = {}" using newsD(1) [OF new] low by (meson disjoint_iff leD)
  then have "distinct (w_owned v')" using o new sw by (auto simp: swapped_def owns_def news_def)
  moreover have "w_active v' \<in> set (w_owned v')"
    using o sealed_not_active [OF o C] D(2) unfolding D(3) by (simp add: owns_def)
  moreover have "(p \<in> set (w_owned v') \<and> seg_id (seg_at v' p) = sid) = (p \<in> set (w_owned v') \<and> seg_id (seg_at v p) = sid)" for p sid
    using D(4) by auto
  moreover have "map_of (gm_catalog (w_manager v')) (seg_id (seg_at v' p)) = Some p" if "p \<in> set (w_owned v')" for p
    using sw D(4) [OF that] that by (simp add: swapped_def)
  ultimately show ?thesis
    unfolding owns_def using sw D(1,2) D(4,5) old by (simp add: swapped_def)
qed

text \<open>Every entry of the new index refers to a record with the content its key had.\<close>

lemma swapped_entry:
  assumes inv: "worker_inv w" and v: "v = w\<lparr> w_heap := h, w_manager := m \<rparr>" and g: "grown w h m"
    and c: "copied w h (set C) now ps (tab (w_index w)) f'" and sw: "swapped v C ps v'" and k: "f' k = Some ref"
  shows "\<exists>p \<in> set (w_owned v'). \<exists>i. holds (seg_at v' p) ref i \<and> ri_key i = k \<and> ri_opcode i = opcode_put
    \<and> content w k = Some (ri_value i, ri_expire_at_ns i)"
proof -
  let ?f = "tab (w_index w)"
  have o: "owns w" "refers w ?f" using inv by (simp_all add: worker_inv_def base_def)
  note at = grown_worker(3) [OF inv g v] and D = swappedD [OF sw]
  obtain r where r: "?f k = Some r" using copiedD(1) [OF c, of k] k by (cases "?f k") simp_all
  have content: "content w k = Some (ri_value i, ri_expire_at_ns i)" if "read_ref w r = Inr (view_of i)" for i
    using r that by (simp add: content_def content_of_def)
  show ?thesis
  proof (cases "rr_segment_id r \<in> set C")
    case False
    then have e: "r = ref" using copiedD(3) [OF c r] k by simp
    obtain q i where q: "q \<in> set (w_owned w)" "holds (seg_at w q) ref i" "ri_key i = k" "ri_opcode i = opcode_put"
      "rr_segment_id ref = seg_id (seg_at w q)" using referred [OF o r] e by metis
    have mem: "q \<in> set (w_owned v')" using q(1,5) False e at [OF q(1)] unfolding D(3) by (simp add: v)
    have "holds (seg_at v' q) ref i" using D(6) [OF mem] q(2) at [OF q(1)] by simp
    moreover have "read_ref w r = Inr (view_of i)" using read_holds [OF o(1) q(1,2)] e by simp
    ultimately show ?thesis using mem q(3,4) content by blast
  next
    case True
    obtain i ref' p where i: "read_ref w r = Inr (view_of i)" "ri_key i = k" "ri_opcode i = opcode_put"
      "f' k = Some ref'" "p \<in> set ps" "holds (deref h p) ref' i"
      using copiedD(2) [OF c r True] k unfolding moved_def by auto
    then have mem: "p \<in> set (w_owned v')" "ref' = ref" using k unfolding D(3) by simp_all
    have "holds (seg_at v' p) ref i" using D(6) [OF mem(1)] i(6) mem(2) by (simp add: v)
    then show ?thesis using mem(1) i(2,3) content [OF i(1)] by blast
  qed
qed

lemma swapped_content:
  assumes inv: "worker_inv w" and v: "v = w\<lparr> w_heap := h, w_manager := m \<rparr>" and g: "grown w h m"
    and c: "copied w h (set C) now ps (tab (w_index w)) (tab (w_index v'))" and sw: "swapped v C ps v'" and o: "owns v'"
  shows "refers v' (tab (w_index v'))"
    "content v' k = content w k \<or> content v' k = None \<and> (\<exists>x e. content w k = Some (x, e) \<and> expired_at e now)"
proof -
  note entry = swapped_entry [OF inv v g c sw]
  show "refers v' (tab (w_index v'))" unfolding refers_def using entry by blast
  show "content v' k = content w k \<or> content v' k = None \<and> (\<exists>x e. content w k = Some (x, e) \<and> expired_at e now)"
  proof (cases "tab (w_index v') k")
    case (Some ref)
    then obtain p i where p: "p \<in> set (w_owned v')" "holds (seg_at v' p) ref i" "content w k = Some (ri_value i, ri_expire_at_ns i)"
      using entry by blast
    then show ?thesis using read_holds [OF o p(1,2)] Some by (simp add: content_def content_of_def)
  next
    case None
    then have n: "content v' k = None" by (simp add: content_def content_of_def)
    show ?thesis
    proof (cases "tab (w_index w) k")
      case (Some r)
      then have C: "rr_segment_id r \<in> set C" using copiedD(3) [OF c Some] None by auto
      obtain i where "read_ref w r = Inr (view_of i)" "expired (view_of i) now"
        using copiedD(2) [OF c Some C] None unfolding moved_def by auto
      then show ?thesis using n Some by (simp add: content_def content_of_def)
    next
      case old: None
      then have "content w k = None" by (simp add: content_def content_of_def)
      then show ?thesis using n by simp
    qed
  qed
qed

text \<open>The live counters of what stays count the same entries as before.\<close>

lemma copied_live_keys:
  assumes inv: "worker_inv w" and c: "copied w h (set C) now ps (tab (w_index w)) g" and new: "news w h m ps None cnt bts"
    and sid: "sid \<notin> set C" "sid < gm_next_id (w_manager w)"
  shows "live_keys g sid = live_keys (tab (w_index w)) sid" "live_size g sid = live_size (tab (w_index w)) sid"
proof -
  let ?f = "tab (w_index w)"
  have same: "(\<exists>r. g k = Some r \<and> rr_segment_id r = sid) = (\<exists>r. ?f k = Some r \<and> rr_segment_id r = sid)"
    "?f k = Some r \<Longrightarrow> rr_segment_id r = sid \<Longrightarrow> g k = ?f k" for k r
  proof -
    show fw: "?f k = Some r \<Longrightarrow> rr_segment_id r = sid \<Longrightarrow> g k = ?f k" for r using copiedD(3) [OF c] sid(1) by simp
    have away: "rr_segment_id r \<noteq> sid" if r: "g k = Some r" "?f k = Some r0" "rr_segment_id r0 \<in> set C" for r r0
    proof -
      obtain p i where p: "p \<in> set ps" "holds (deref h p) r i"
        using copiedD(2) [OF c r(2,3)] r(1) unfolding moved_def by auto
      then show ?thesis using newsD(4) [OF new p(1)] holds_read(3) [OF p(2)] sid(2) by auto
    qed
    have bw: "\<exists>r. ?f k = Some r \<and> rr_segment_id r = sid" if r: "g k = Some r" "rr_segment_id r = sid" for r
    proof -
      obtain r0 where r0: "?f k = Some r0" using copiedD(1) [OF c, of k] r(1) by (cases "?f k") simp_all
      then have "rr_segment_id r0 \<notin> set C" using away [OF r(1) r0] r(2) by blast
      then show ?thesis using copiedD(3) [OF c r0] r r0 by simp
    qed
    show "(\<exists>r. g k = Some r \<and> rr_segment_id r = sid) = (\<exists>r. ?f k = Some r \<and> rr_segment_id r = sid)"
      using fw bw by metis
  qed
  show keys: "live_keys g sid = live_keys ?f sid" unfolding live_keys_def using same(1) by blast
  show "live_size g sid = live_size ?f sid"
    unfolding live_size_def keys by (rule sum.cong [OF refl]) (auto simp: live_keys_def same(2))
qed

section \<open>Publication\<close>

lemma grown_catalog:
  assumes inv: "worker_inv w" and g: "grown w h m" and new: "news w h m ps None c b" and p: "p \<in> set ps"
  shows "map_of (gm_catalog m) k \<noteq> Some p" "map_of (gm_catalog m) (seg_id (deref h p)) = None" "p \<notin> set (w_owned w)"
proof -
  have gi: "gm_inv (w_heap w) (w_manager w)" and b: "base w" using inv by (simp_all add: worker_inv_def base_def)
  have cat: "gm_catalog m = gm_catalog (w_manager w)" using g by (simp add: grown_def)
  have old: "q < hp_next (w_heap w) \<and> j < gm_next_id (w_manager w)" if "map_of (gm_catalog m) j = Some q" for j q
    using gi that unfolding gm_inv_def cat by blast
  show "map_of (gm_catalog m) k \<noteq> Some p" using old [of k p] newsD(1) [OF new p] by auto
  show "map_of (gm_catalog m) (seg_id (deref h p)) = None"
    using old [of "seg_id (deref h p)"] newsD(4) [OF new p] by (cases "map_of (gm_catalog m) (seg_id (deref h p))") auto
  show "p \<notin> set (w_owned w)" using base_mem(2) [OF b] newsD(1) [OF new p] by fastforce
qed

lemma exchange_swapped:
  assumes inv: "worker_inv w" and g: "grown w h m" and v: "v = w\<lparr> w_heap := h, w_manager := m \<rparr>"
    and new: "news w h m ps None c b" and t: "touched v w2" and rep: "replaced (w_heap w2) m C ps h3 m3"
    and own: "w_owned v' = filter (\<lambda>p. seg_id (seg_at v p) \<notin> set C) (w_owned v) @ ps"
    and by_id: "distinct (map fst (w_owned_by_id v'))"
      "\<And>sid p. map_of (w_owned_by_id v') sid = Some p \<longleftrightarrow> p \<in> set (w_owned v') \<and> seg_id (seg_at v p) = sid"
    and v': "w_heap v' = h3" "w_manager v' = m3" "w_id v' = w_id v" "w_active v' = w_active v"
  shows "swapped v C ps v'" "\<And>p. p \<in> set (w_owned v) \<Longrightarrow> seg_id (seg_at v p) \<notin> set C \<Longrightarrow> seg_at v' p = seg_at w2 p"
proof -
  have o: "owns v" "gm_inv h m" using grown_worker(1) [OF inv g v] g by (simp_all add: worker_inv_def base_def grown_def)
  have wv: "w_owned v = w_owned w" "w_heap v = h" "w_manager v = m" by (simp_all add: v)
  have off: "Some p \<notin> map_of (gm_catalog m) ` set C" if "p \<in> set (w_owned v)" "seg_id (seg_at v p) \<notin> set C" for p
  proof
    assume "Some p \<in> map_of (gm_catalog m) ` set C"
    then obtain k where k: "k \<in> set C" "map_of (gm_catalog m) k = Some p" by auto
    then have "seg_id (deref h p) = k" using o(2) unfolding gm_inv_def deref_def by fastforce
    then show False using k(1) that(2) by (simp add: wv)
  qed
  show at_old: "seg_at v' p = seg_at w2 p" if "p \<in> set (w_owned v)" "seg_id (seg_at v p) \<notin> set C" for p
    using rep off [OF that] by (simp add: v'(1) replaced_def deref_def)
  note gc = grown_catalog [OF inv g new]
  have at_mid: "deref (w_heap w2) p = deref h p" if "p \<in> set ps" for p
    using t gc(3) [OF that] by (simp add: touched_def wv deref_def)
  have "Some p \<notin> map_of (gm_catalog m) ` set C" if "p \<in> set ps" for p using gc(1) [OF that] by (auto simp: image_iff eq_commute)
  then have at_new: "seg_at v' p = seg_at v p" if "p \<in> set ps" for p
    using rep at_mid [OF that] that by (simp add: v'(1) replaced_def deref_def wv)
  have ent: "entries (w_heap w2) ps = entries h ps" using at_mid by (simp add: entries_def)
  have cat: "map_of (gm_catalog m3) = (map_of (gm_catalog m) |` (- set C)) ++ map_of (entries h ps)"
    using rep by (simp add: replaced_def ent)
  have "map_of (gm_catalog m3) (seg_id (seg_at v p)) = Some p" if p: "p \<in> set (w_owned v')" for p
  proof (cases "p \<in> set ps")
    case True
    have "distinct (map fst (entries h ps))" using new by (simp add: news_def entries_def distinct_map comp_def)
    moreover have "(seg_id (seg_at v p), p) \<in> set (entries h ps)" using True by (simp add: entries_def wv)
    ultimately show ?thesis unfolding cat using map_of_is_SomeI [of "entries h ps"] by (simp add: map_add_Some_iff)
  next
    case False
    then have q: "p \<in> set (w_owned w)" "seg_id (seg_at v p) \<notin> set C" using p own by (simp_all add: wv)
    have low: "seg_id (seg_at v p) < gm_next_id (w_manager w)" using owned_below [OF inv q(1)] grown_worker(3) [OF inv g v q(1)] by simp
    have "seg_id (seg_at v p) \<notin> dom (map_of (entries h ps))"
      unfolding dom_entries using newsD(4) [OF new] low by (metis (no_types, lifting) imageE leD)
    then have "map_of (gm_catalog m3) (seg_id (seg_at v p)) = map_of (gm_catalog m) (seg_id (seg_at v p))"
      using q(2) by (simp add: cat map_add_dom_app_simps(3))
    then show ?thesis using ownedD(1) [OF o(1)] q(1) by (simp add: wv)
  qed
  then show "swapped v C ps v'"
    unfolding swapped_def using own by_id v' at_old at_new t by (simp add: touched_def)
qed

text \<open>What the manager checks holds once the copied records are dead.\<close>

lemma exchange_ready:
  assumes inv: "worker_inv w" and g: "grown w h m" and v: "v = w\<lparr> w_heap := h, w_manager := m \<rparr>"
    and C: "\<forall>sid \<in> set C. sealed_own w sid" and new: "news w h m ps None c b"
    and mk: "marking v f w2 (without f (stale C es))" and es: "\<And>k ref. f k = Some ref \<Longrightarrow> (k, ref) \<in> set es"
  shows "\<forall>sid \<in> set C. source_ok (w_heap w2) (gm_catalog m) (w_id w) sid"
    "distinct (map (\<lambda>p. seg_id (deref (w_heap w2) p)) ps)"
    "\<forall>p \<in> set ps. issued (w_heap w2) m p \<and> seg_state (deref (w_heap w2) p) = Seg_sealed
       \<and> seg_owner (deref (w_heap w2) p) = w_id w \<and> map_of (gm_catalog m) (seg_id (deref (w_heap w2) p)) = None"
proof -
  have t: "touched v w2" and acc: "accounts w2 (without f (stale C es))" using mk by (simp_all add: marking_def)
  have wv: "w_owned v = w_owned w" "w_heap v = h" "w_manager v = m" "w_id v = w_id w" by (simp_all add: v)
  have o: "owns v" using grown_worker(1) [OF inv g v] by (simp add: worker_inv_def base_def)
  note gc = grown_catalog [OF inv g new]
  show "\<forall>sid \<in> set C. source_ok (w_heap w2) (gm_catalog m) (w_id w) sid"
  proof
    fix sid assume sid: "sid \<in> set C"
    obtain p where p: "p \<in> set (w_owned w)" "seg_id (seg_at w p) = sid" "seg_state (seg_at w p) = Seg_sealed"
      using C sid unfolding sealed_own_def by blast
    have at: "seg_at v p = seg_at w p" by (rule grown_worker(3) [OF inv g v p(1)])
    have w2: "seg_id (seg_at w2 p) = sid" "seg_owner (seg_at w2 p) = w_id w" "seg_state (seg_at w2 p) = Seg_sealed"
      using t p at ownedD(2) [OF o, of p] by (simp_all add: touched_def extends_def wv)
    have "live_keys (without f (stale C es)) sid = {}"
      using es sid by (force simp: live_keys_def without_def stale_def restrict_map_def split: if_splits)
    then have "unat (ss_live_records (seg_stats (seg_at w2 p))) = 0"
      using acc p(1) touched_fields(1) [OF t] w2(1) by (simp add: accounts_def counted_def wv)
    then have "ss_live_records (seg_stats (seg_at w2 p)) = 0" by (simp add: unat_eq_0)
    moreover have "map_of (gm_catalog m) sid = Some p" using ownedD(1) [OF o, of p] p at by (simp add: wv)
    ultimately show "source_ok (w_heap w2) (gm_catalog m) (w_id w) sid" using w2 by (simp add: source_ok_def)
  qed
  have mem: "hp_mem (w_heap w2) p = hp_mem h p" "deref (w_heap w2) p = deref h p" if "p \<in> set ps" for p
    using t gc(3) [OF that] by (simp_all add: touched_def wv deref_def)
  have "distinct (map (\<lambda>p. seg_id (deref h p)) ps)" using new by (simp add: news_def distinct_map)
  then show "distinct (map (\<lambda>p. seg_id (deref (w_heap w2) p)) ps)" using mem(2) by (simp add: distinct_map inj_on_def)
  have hn: "hp_next (w_heap w2) = hp_next h" using t by (simp add: touched_def wv)
  show "\<forall>p \<in> set ps. issued (w_heap w2) m p \<and> seg_state (deref (w_heap w2) p) = Seg_sealed
       \<and> seg_owner (deref (w_heap w2) p) = w_id w \<and> map_of (gm_catalog m) (seg_id (deref (w_heap w2) p)) = None"
  proof
    fix p assume p: "p \<in> set ps"
    have "issued (w_heap w2) m p"
      using newsD(2,3,5) [OF new p] mem(1) [OF p] hn by (auto simp: issued_def deref_def)
    then show "issued (w_heap w2) m p \<and> seg_state (deref (w_heap w2) p) = Seg_sealed
       \<and> seg_owner (deref (w_heap w2) p) = w_id w \<and> map_of (gm_catalog m) (seg_id (deref (w_heap w2) p)) = None"
      using newsD(6,8) [OF new p] gc(2) [OF p] mem(2) [OF p] by simp
  qed
qed

lemma without_live_keys:
  assumes es: "\<And>k ref. (k, ref) \<in> set es \<Longrightarrow> f k = Some ref" and sid: "sid \<notin> set C"
  shows "live_keys (without f (stale C es)) sid = live_keys f sid" "live_size (without f (stale C es)) sid = live_size f sid"
proof -
  have at: "without f (stale C es) k = f k" if k: "f k = Some ref" "rr_segment_id ref = sid" for k ref
  proof -
    have "k \<notin> fst ` set (stale C es)" using es k sid by (force simp: stale_def)
    then show ?thesis by (simp add: without_def restrict_map_def)
  qed
  moreover have "without f (stale C es) k = Some ref \<Longrightarrow> f k = Some ref" for k ref
    by (simp add: without_def restrict_map_def split: if_splits)
  ultimately show keys: "live_keys (without f (stale C es)) sid = live_keys f sid" unfolding live_keys_def by (metis (no_types, lifting))
  show "live_size (without f (stale C es)) sid = live_size f sid"
    unfolding live_size_def keys by (rule sum.cong [OF refl]) (auto simp: live_keys_def at)
qed

lemma exchange_accounts:
  assumes inv: "worker_inv w" and g: "grown w h m" and v: "v = w\<lparr> w_heap := h, w_manager := m \<rparr>"
    and new: "news w h m ps None (\<lambda>sid. card (live_keys f' sid)) (live_size f')"
    and c: "copied w h (set C) now ps (tab (w_index w)) f'"
    and mk: "marking v (tab (w_index w)) w2 (without (tab (w_index w)) (stale C es))"
    and es: "\<And>k ref. (k, ref) \<in> set es \<Longrightarrow> tab (w_index w) k = Some ref"
    and sw: "swapped v C ps v'" and at: "\<And>p. p \<in> set (w_owned v) \<Longrightarrow> seg_id (seg_at v p) \<notin> set C \<Longrightarrow> seg_at v' p = seg_at w2 p"
  shows "accounts v' f'"
  unfolding accounts_def counted_def
proof
  let ?f = "tab (w_index w)"
  have t: "touched v w2" and acc: "accounts w2 (without ?f (stale C es))" using mk by (simp_all add: marking_def)
  note D = swappedD [OF sw]
  fix q assume q: "q \<in> set (w_owned v')"
  show "unat (ss_live_records (seg_stats (seg_at v' q))) = card (live_keys f' (seg_id (seg_at v' q)))
      \<and> unat (ss_live_bytes (seg_stats (seg_at v' q))) = live_size f' (seg_id (seg_at v' q))"
  proof (cases "q \<in> set ps")
    case True
    then have "seg_at v' q = deref h q" using sw by (simp add: swapped_def v)
    then show ?thesis using newsD(9,10) [OF new True] by simp
  next
    case False
    then have p: "q \<in> set (w_owned v)" "seg_id (seg_at v q) \<notin> set C" using q unfolding D(3) by simp_all
    let ?sid = "seg_id (seg_at v' q)"
    have sid: "?sid = seg_id (seg_at v q)" "seg_at v' q = seg_at w2 q" using D(4) [OF q] at [OF p] by simp_all
    have ow: "q \<in> set (w_owned w)" using p(1) by (simp add: v)
    have low: "?sid < gm_next_id (w_manager w)"
      using owned_below [OF inv ow] grown_worker(3) [OF inv g v ow] sid(1) by simp
    have out: "?sid \<notin> set C" using p(2) sid(1) by simp
    have "unat (ss_live_records (seg_stats (seg_at w2 q))) = card (live_keys (without ?f (stale C es)) ?sid)
      \<and> unat (ss_live_bytes (seg_stats (seg_at w2 q))) = live_size (without ?f (stale C es)) ?sid"
      using acc p(1) touched_fields(1) [OF t] sid(2) by (simp add: accounts_def counted_def)
    then show ?thesis
      using without_live_keys [OF es out] copied_live_keys [OF inv c new out low] sid(2) by simp
  qed
qed

text \<open>A marked Worker in which the manager has rolled back: the counters are restored.\<close>

lemma restored_ok:
  assumes inv: "worker_inv v" and mk: "marking v f w2 (without f (stale C es))" and f: "f = tab (w_index v)"
    and es: "\<And>k ref. (k, ref) \<in> set es \<Longrightarrow> f k = Some ref" "distinct (map fst es)"
    and m: "gm_inv (w_heap w2) m'" "map_of (gm_catalog m') = map_of (gm_catalog (w_manager v))"
    and w': "w' = restore_liveness C (length (stale C es)) 0 (w2\<lparr> w_manager := m' \<rparr>) es"
  shows "worker_inv w' \<and> content w' = content v \<and> same_config v w' \<and> w_index w' = w_index v \<and> w_owned w' = w_owned v
    \<and> w_next_sequence w' = w_next_sequence v"
proof -
  let ?v = "v\<lparr> w_manager := m' \<rparr>" and ?w = "w2\<lparr> w_manager := m' \<rparr>"
  have b: "owns v" "refers v f" "owns w2" "refers w2 f" "table_inv (w_index v)" "touched v w2" "without f (stale C es) \<subseteq>\<^sub>m f"
    and acc: "counted w2 (\<lambda>sid. card (live_keys (without f (stale C es)) sid)) (live_size (without f (stale C es)))"
    using inv mk by (simp_all add: worker_inv_def base_def marking_def f accounts_def)
  note tf = touched_fields [OF b(6)]
  have fin: "finite (dom f)" by (simp add: f)
  note ow = owns_view [OF b(3), of ?w, simplified] and ov = owns_view [OF b(1), of ?v, simplified]
  have cat: "map_of (gm_catalog m') = map_of (gm_catalog (w_manager w2))" using m(2) tf(3) by simp
  have e: "w2 = v\<lparr> w_heap := w_heap w2 \<rparr>" using b(6) by (simp add: touched_def)
  have "?w = ?v\<lparr> w_heap := w_heap ?w \<rparr>" by (subst e, cases v) simp
  then have "touched ?v ?w" using b(6) by (simp add: touched_def)
  then have "marking ?v f ?w (without f (stale C es))"
    using ow [OF cat] b(4,5,7) acc m(1) tf(6) by (simp add: marking_def base_def accounts_def)
  then have mk': "marking ?v f w' f" unfolding w' by (rule restore_liveness_ok [OF fin _ es(2,1)]) simp_all
  have t': "touched ?v w'" and b': "base w'" "refers w' f" "accounts w' f" using mk' by (simp_all add: marking_def)
  note tf' = touched_fields [OF t', simplified]
  have own: "owns ?v" "owns w'" using ov [OF m(2)] b'(1) by (simp_all add: base_def)
  have "refers ?v f" using ov(2) [OF m(2)] b(2) by simp
  then have "keeps ?v w' f" using kept [OF own] t' by (simp add: touched_def tf')
  then have "content_of w' f = content_of ?v f" by (rule content_keeps)
  moreover have "content_of ?v f = content_of v f"
    by (simp add: content_of_def fun_eq_iff read_ref_def find_owned_segment_def cong: option.case_cong)
  ultimately have "content w' = content v" by (simp add: content_def tf'(6) f)
  then show ?thesis using b' tf' by (simp add: worker_inv_def f same_config_def)
qed

lemma next_owned_ids:
  assumes inv: "worker_inv w" and g: "grown w h m" and v: "v = w\<lparr> w_heap := h, w_manager := m \<rparr>" and new: "news w h m ps None c b"
  shows "distinct (map (\<lambda>p. seg_id (deref h p)) (filter (\<lambda>p. seg_id (seg_at v p) \<notin> set C) (w_owned v) @ ps))"
proof -
  let ?id = "\<lambda>p. seg_id (deref h p)" and ?old = "filter (\<lambda>p. seg_id (seg_at v p) \<notin> set C) (w_owned v)"
  have o: "owns v" using grown_worker(1) [OF inv g v] by (simp add: worker_inv_def base_def)
  have "inj_on ?id (set (w_owned v))" using owned_id_inj [OF o] by (auto simp: inj_on_def v)
  then have "distinct (map ?id ?old)" using o by (auto simp: distinct_map owns_def intro: inj_on_subset)
  moreover have "distinct (map ?id ps)" using new by (simp add: news_def distinct_map)
  moreover have "?id p \<noteq> ?id q" if "p \<in> set (w_owned w)" "q \<in> set ps" for p q
    using owned_below [OF inv that(1)] grown_worker(3) [OF inv g v that(1)] newsD(4) [OF new that(2)] by (auto simp: v)
  ultimately show ?thesis by (auto simp: v)
qed

lemma publish_vacuumed_ok:
  assumes inv: "worker_inv w" and g: "grown w h m" and v: "v = w\<lparr> w_heap := h, w_manager := m \<rparr>"
    and rb: "rebuilt w C now h m res" and ne: "C \<noteq> []" and run: "publish_vacuumed throw_at v C res = (w', r)"
  shows "worker_inv w' \<and> same_config w w' \<and> hashed_for (w_index w') = hashed_for (w_index w)
    \<and> (r = None \<and> (\<exists>n < length (vr_segments res). throw_at = Some n) \<and> content w' = content w
       \<or> r = Some (Inr (Some (vr_stats res))) \<and> w_index w' = vr_index res
         \<and> w_owned w' = filter (\<lambda>p. seg_id (seg_at w p) \<notin> set C) (w_owned w) @ vr_segments res
         \<and> (\<forall>k. content w' k = content w k \<or> content w' k = None \<and> (\<exists>x e. content w k = Some (x, e) \<and> expired_at e now)))"
proof -
  let ?f = "tab (w_index w)" and ?g = "tab (vr_index res)" and ?ps = "vr_segments res"
  define es where "es = swiss_entries (w_index w)"
  define nxt where "nxt = filter (\<lambda>p. seg_id (seg_at v p) \<notin> set C) (w_owned v) @ ?ps"
  have R: "\<forall>sid \<in> set C. sealed_own w sid" "distinct C" "table_inv (vr_index res)" "hashed_for (vr_index res) = hashed_for (w_index w)"
    and new: "news w h m ?ps None (\<lambda>sid. card (live_keys ?g sid)) (live_size ?g)" and cp: "copied w h (set C) now ?ps ?f ?g"
    using rb by (simp_all add: rebuilt_def)
  note V = grown_worker [OF inv g v]
  have wv: "w_owned v = w_owned w" "w_index v = w_index w" "w_heap v = h" "w_manager v = m" "same_config w v"
    by (simp_all add: v same_config_def)
  have ov: "owns v" "base v" "refers v ?f" "accounts v ?f" using V(1) by (simp_all add: worker_inv_def base_def wv)
  have sv: "\<forall>sid \<in> set C. sealed_own v sid" using R(1) V(3) by (simp add: sealed_own_def wv)
  have d: "distinct (map fst es)" unfolding es_def
    by (rule distinct_swiss_entries [OF table_invD(10)]) (use inv in \<open>simp add: worker_inv_def base_def\<close>)
  have ent: "(k, ref) \<in> set es \<longleftrightarrow> ?f k = Some ref" for k ref using d by (simp add: tab_def es_def [symmetric])
  have old: "filter (\<lambda>p. seg_id (seg_at v p) \<notin> set C) (w_owned w) = filter (\<lambda>p. seg_id (seg_at w p) \<notin> set C) (w_owned w)"
    by (rule filter_cong) (simp_all add: V(3))
  obtain by_id where by_id: "index_owned h [] nxt = Inr by_id" "distinct (map fst by_id)"
    "\<And>sid p. map_of by_id sid = Some p \<longleftrightarrow> p \<in> set nxt \<and> seg_id (deref h p) = sid"
    using index_owned_ok [of "[]" h nxt] next_owned_ids [OF inv g v new, of C] by (auto simp: nxt_def)
  have "w_active v \<in> set nxt" using ov(1) sealed_not_active [OF ov(1) sv] by (simp add: nxt_def owns_def)
  then have act: "map_of by_id (seg_id (seg_at v (w_active v))) = Some (w_active v)" using by_id(3) by (simp add: wv)
  obtain w2 n mr where mk: "mark_copied_dead C 0 v es = (w2, n, mr)" by (metis prod_cases3)
  have fin: "finite (dom ?f)" by simp
  have "without ?f (stale C []) = ?f" by (simp add: stale_def without_def restrict_map_def)
  then have "marking v ?f v (without ?f (stale C []))" using ov by (simp add: marking_def)
  then have M: "mr = ok" "n = length (stale C es)" "marking v ?f w2 (without ?f (stale C es))"
    using mark_copied_dead_ok [OF fin, of v v C "[]" es w2 n mr] d ent mk by (simp_all add: stale_def)
  have t: "touched v w2" "gm_inv (w_heap w2) m" using M(3) touched_fields(3) [of v w2] by (auto simp: marking_def base_def wv)
  obtain h3 m3 pr where rs: "replace_sealed throw_at (w_heap w2) m C (map Some ?ps) = (h3, m3, pr)" by (metis prod_cases3)
  note ready = exchange_ready [OF inv g v R(1) new M(3)] and tf = touched_fields [OF t(1)]
  have out: "pr = Some ok \<and> replaced (w_heap w2) m C ?ps h3 m3 \<and> gm_inv h3 m3
    \<or> pr = None \<and> (\<exists>n < length ?ps. throw_at = Some n) \<and> h3 = w_heap w2 \<and> gm_inv h3 m3 \<and> map_of (gm_catalog m3) = map_of (gm_catalog m)"
    by (rule replace_sealed_runs [OF t(2) ne R(2) _ _ _ rs]) (use ready ent in blast)+
  have pub: "(w', r) = (case pr of
       None \<Rightarrow> (restore_liveness C n 0 (w2\<lparr> w_heap := h3, w_manager := m3 \<rparr>) es, None)
     | Some (Inl e) \<Rightarrow> (restore_liveness C n 0 (w2\<lparr> w_heap := h3, w_manager := m3 \<rparr>) es, Some (Inl e))
     | Some (Inr _) \<Rightarrow> (w2\<lparr> w_heap := h3, w_manager := m3, w_index := vr_index res, w_owned := nxt, w_owned_by_id := by_id \<rparr>,
                        Some (Inr (Some (vr_stats res)))))"
    using run [unfolded publish_vacuumed_def, folded nxt_def] act mk M(1) rs by_id(1) tf(3)
    by (simp add: es_def [symmetric] wv Let_def eq_commute [of "(w', r)"])
  from out show ?thesis
  proof (elim disjE conjE)
    assume a: "pr = None" "\<exists>n < length ?ps. throw_at = Some n" "h3 = w_heap w2" "gm_inv h3 m3" "map_of (gm_catalog m3) = map_of (gm_catalog m)"
    then have "w' = restore_liveness C (length (stale C es)) 0 (w2\<lparr> w_manager := m3 \<rparr>) es" "r = None"
      using pub M(2) by simp_all
    from restored_ok [OF V(1) M(3) _ _ d _ _ this(1)] a(2-5) this(2) ent V(2) wv(2,4,5)
    show ?thesis by (auto simp: same_config_def)
  next
    assume a: "pr = Some ok" "replaced (w_heap w2) m C ?ps h3 m3" "gm_inv h3 m3"
    then have w': "w' = w2\<lparr> w_heap := h3, w_manager := m3, w_index := vr_index res, w_owned := nxt, w_owned_by_id := by_id \<rparr>"
      "r = Some (Inr (Some (vr_stats res)))" using pub by simp_all
    have sw: "swapped v C ?ps w'" "\<And>p. p \<in> set (w_owned v) \<Longrightarrow> seg_id (seg_at v p) \<notin> set C \<Longrightarrow> seg_at w' p = seg_at w2 p"
      by (rule exchange_swapped [OF inv g v new t(1) a(2)]; use w'(1) by_id(2,3) tf wv nxt_def in simp)+
    have low: "p < hp_next (w_heap w)" if "p \<in> set (w_owned v)" for p
      using base_mem(2) inv that by (simp add: worker_inv_def wv)
    have o': "owns w'" by (rule swapped_owns [OF ov(1) new v low sv sw(1)])
    have ix: "w_index w' = vr_index res" using w'(1) by simp
    note ct = swapped_content [OF inv v g _ sw(1) o', unfolded ix, OF cp]
    have "accounts w' ?g" by (rule exchange_accounts [OF inv g v new cp M(3) _ sw]) (use ent in blast)
    then have "worker_inv w'" using ct(1) o' a(3) R(3) ix w'(1) by (simp add: worker_inv_def base_def)
    then show ?thesis using ct(2) w' R(4) tf(7) wv(5) old by (simp add: same_config_def nxt_def wv(1))
  qed
qed

end
