(* ===== verification/Compaction.thy ===== *)
theory Compaction
  imports Vacuum_Refine "HOL-Library.Multiset"
begin

text \<open>
  \<open>Worker::compact\<close> as a whole: it keeps the map of the Worker, gives segments back when it reports
  success, and fails for one reason only.
\<close>

section \<open>The quiesce gate around the work\<close>

lemma quiesce_index_frame [simp]:
  "worker_inv (quiesce_index w x) = worker_inv w" "content (quiesce_index w x) = content w"
  "w_index (quiesce_index w x) = w_index w" "w_owned (quiesce_index w x) = w_owned w" "w_heap (quiesce_index w x) = w_heap w"
  "w_manager (quiesce_index w x) = w_manager w" "w_id (quiesce_index w x) = w_id w"
  "w_exclusive_writer (quiesce_index w x) = w_exclusive_writer w"
proof -
  have "quiesce_index w x = w\<lparr> w_exclusive_writer := w_exclusive_writer w,
      w_index_quiesce_active := (if w_exclusive_writer w then x else w_index_quiesce_active w) \<rparr>"
    by (simp add: quiesce_index_def)
  then show "worker_inv (quiesce_index w x) = worker_inv w" "content (quiesce_index w x) = content w"
    by (simp_all only: quiesced_frame)
qed (simp_all add: quiesce_index_def)

lemma sealed_own_quiesce [simp]: "sealed_own (quiesce_index w x) sid = sealed_own w sid"
  by (simp add: sealed_own_def)

section \<open>The candidates\<close>

lemma candidates_ok:
  assumes inv: "worker_inv w" and perm: "\<And>xs. mset (sorted_by_ratio xs) = mset xs"
  shows "distinct (candidates ratio_of sorted_by_ratio policy (w_heap w) (w_owned w))"
    "\<forall>sid \<in> set (candidates ratio_of sorted_by_ratio policy (w_heap w) (w_owned w)). sealed_own w sid"
proof -
  let ?ratio = "\<lambda>p. ratio_of (ss_live_bytes (seg_stats (seg_at w p))) (ss_used_bytes (seg_stats (seg_at w p)))"
  define picked where "picked = filter (\<lambda>p. \<not> (seg_state (seg_at w p) \<noteq> Seg_sealed \<or> ss_record_count (seg_stats (seg_at w p)) = 0)
      \<and> ?ratio p \<le> maximum_live_ratio policy) (w_owned w)"
  define ranked where "ranked = sorted_by_ratio (map (\<lambda>p. (seg_id (seg_at w p), ?ratio p)) picked)"
  have o: "owns w" using inv by (simp add: worker_inv_def base_def)
  have c: "candidates ratio_of sorted_by_ratio policy (w_heap w) (w_owned w)
      = map fst (if length ranked > maximum_segments_per_run policy then take (maximum_segments_per_run policy) ranked else ranked)"
    by (simp add: candidates_def ranked_def picked_def Let_def)
  have m: "mset (map fst ranked) = mset (map (\<lambda>p. seg_id (seg_at w p)) picked)"
    unfolding mset_map ranked_def perm by (simp add: image_mset.compositionality comp_def)
  have "distinct (map (\<lambda>p. seg_id (seg_at w p)) picked)"
    using o owned_id_inj [OF o] by (auto simp: picked_def distinct_map inj_on_def owns_def)
  then have d: "distinct (map fst ranked)" using m by (metis mset_eq_imp_distinct_iff)
  have sub: "set (map fst ranked) = (\<lambda>p. seg_id (seg_at w p)) ` set picked" using mset_eq_setD [OF m] by simp
  have "set (take n ranked) \<subseteq> set ranked" for n by (rule set_take_subset)
  then have "set (candidates ratio_of sorted_by_ratio policy (w_heap w) (w_owned w)) \<subseteq> set (map fst ranked)"
    unfolding c by auto
  then show "\<forall>sid \<in> set (candidates ratio_of sorted_by_ratio policy (w_heap w) (w_owned w)). sealed_own w sid"
    unfolding sub by (auto simp: picked_def sealed_own_def)
  show "distinct (candidates ratio_of sorted_by_ratio policy (w_heap w) (w_owned w))"
    unfolding c using d distinct_take [OF d] by (simp add: take_map)
qed

section \<open>Compaction\<close>

text \<open>The outcomes of a compaction, from the Worker \<open>w\<close> to \<open>w'\<close>.\<close>

definition compacted :: "worker \<Rightarrow> u64 \<Rightarrow> u64 list \<Rightarrow> worker \<Rightarrow> ptr list \<Rightarrow> bool" where
  "compacted w now C w' ps \<longleftrightarrow> distinct C \<and> (\<forall>sid \<in> set C. sealed_own w sid) \<and> length ps < length C
     \<and> w_owned w' = filter (\<lambda>p. seg_id (seg_at w p) \<notin> set C) (w_owned w) @ ps
     \<and> (\<forall>k. content w' k = content w k \<or> content w' k = None \<and> (\<exists>x e. content w k = Some (x, e) \<and> expired_at e now))"

lemma compact_locked_ok:
  assumes inv: "worker_inv w" and run: "compact_locked ev ratio_of sorted_by_ratio throw_at w now policy = (w', r)"
    and C: "C = candidates ratio_of sorted_by_ratio policy (w_heap w) (w_owned w)"
  shows "worker_inv w' \<and> same_config w w' \<and> hashed_for (w_index w') = hashed_for (w_index w)
    \<and> (case r of
         None \<Rightarrow> throw_at \<noteq> None \<and> content w' = content w
       | Some (Inl e) \<Rightarrow> content w' = content w
           \<and> (e = Arithmetic_overflow \<or> \<not> (distinct C \<and> (\<forall>sid \<in> set C. sealed_own w sid)))
       | Some (Inr None) \<Rightarrow> content w' = content w
       | Some (Inr (Some stats)) \<Rightarrow> \<exists>ps. compacted w now C w' ps)"
proof (cases "C = []")
  case True
  then have "w' = w" "r = Some (Inr None)" using run by (simp_all add: compact_locked_def C [symmetric])
  then show ?thesis using inv by (simp add: same_config_def)
next
  case False
  obtain h m vr where rb: "rebuild (ev_debug ev) (w_index w) (w_owned w) C (Some (manager_allocator (ev_uninit ev) (w_id w))) now
      (w_heap w) (w_manager w) = (h, m, vr)" by (metis prod_cases3)
  note R = rebuild_ok [OF inv rb]
  define v where "v = w\<lparr> w_heap := h, w_manager := m \<rparr>"
  have g: "grown w h m" using R by blast
  note V = grown_worker [OF inv g v_def]
  have cfg: "same_config w v" "w_index v = w_index w" by (simp_all add: v_def same_config_def)
  show ?thesis
  proof (cases vr)
    case (Inl e)
    then have "w' = v" "r = Some (Inl e)" using run rb False by (simp_all add: compact_locked_def C [symmetric] v_def)
    then show ?thesis using V(1,2) cfg R Inl by simp
  next
    case (Inr res)
    have rbt: "rebuilt w C now h m res" using R Inr by blast
    show ?thesis
    proof (cases "length (vr_segments res) \<ge> length C")
      case True
      then have "w' = v" "r = Some (Inr None)" using run rb False Inr by (simp_all add: compact_locked_def C [symmetric] v_def)
      then show ?thesis using V(1,2) cfg by simp
    next
      case few: False
      then have "publish_vacuumed throw_at v C res = (w', r)"
        using run rb False Inr by (simp add: compact_locked_def C [symmetric] v_def)
      note P = publish_vacuumed_ok [OF inv g v_def rbt False this]
      have "distinct C" "\<forall>sid \<in> set C. sealed_own w sid" using rbt by (simp_all add: rebuilt_def)
      then have "compacted w now C w' (vr_segments res)" if "r = Some (Inr (Some (vr_stats res)))"
        using P few that by (simp add: compacted_def)
      then show ?thesis using P by auto
    qed
  qed
qed

lemma compact_ok:
  assumes inv: "worker_inv w" and run: "compact ev ratio_of sorted_by_ratio throw_at w now policy = (w', r)"
    and C: "C = candidates ratio_of sorted_by_ratio policy (w_heap w) (w_owned w)"
  shows "worker_inv w' \<and> w_id w' = w_id w \<and> w_exclusive_writer w' = w_exclusive_writer w
    \<and> hashed_for (w_index w') = hashed_for (w_index w)
    \<and> (case r of
         None \<Rightarrow> throw_at \<noteq> None \<and> content w' = content w
       | Some (Inl e) \<Rightarrow> content w' = content w
           \<and> (e = Arithmetic_overflow \<or> \<not> (distinct C \<and> (\<forall>sid \<in> set C. sealed_own w sid)))
       | Some (Inr None) \<Rightarrow> content w' = content w
       | Some (Inr (Some stats)) \<Rightarrow> \<exists>ps. compacted w now C w' ps)"
proof -
  let ?q = "quiesce_index w True"
  obtain w1 where w1: "compact_locked ev ratio_of sorted_by_ratio throw_at ?q now policy = (w1, r)" "w' = quiesce_index w1 False"
    using run by (auto simp: compact_def split: prod.splits)
  have same: "compacted ?q now C w1 = compacted w now C w'" "sealed_own ?q = sealed_own w" "content w' = content w1" "content ?q = content w"
    by (simp_all add: compacted_def w1(2) fun_eq_iff)
  have "worker_inv ?q" "C = candidates ratio_of sorted_by_ratio policy (w_heap ?q) (w_owned ?q)" using inv C by simp_all
  from compact_locked_ok [OF this(1) w1(1) this(2), unfolded same(1,2,4) same(3) [symmetric]]
  show ?thesis by (simp add: same_config_def w1(2))
qed

lemma compacted_fewer:
  assumes inv: "worker_inv w" and c: "compacted w now C w' ps"
  shows "length (w_owned w') + length C = length (w_owned w) + length ps" "length (w_owned w') < length (w_owned w)"
proof -
  let ?id = "\<lambda>p. seg_id (seg_at w p)"
  have o: "owns w" using inv by (simp add: worker_inv_def base_def)
  have D: "distinct C" "\<forall>sid \<in> set C. sealed_own w sid" "length ps < length C"
    "w_owned w' = filter (\<lambda>p. ?id p \<notin> set C) (w_owned w) @ ps" using c by (simp_all add: compacted_def)
  have "distinct (map ?id (filter (\<lambda>p. ?id p \<in> set C) (w_owned w)))"
    using o owned_id_inj [OF o] by (auto simp: distinct_map inj_on_def owns_def)
  moreover have "set (map ?id (filter (\<lambda>p. ?id p \<in> set C) (w_owned w))) = set C" using D(2) by (auto simp: sealed_own_def)
  ultimately have "length (filter (\<lambda>p. ?id p \<in> set C) (w_owned w)) = length C"
    using D(1) by (metis distinct_card length_map)
  then show e: "length (w_owned w') + length C = length (w_owned w) + length ps"
    using sum_length_filter_compl [of "\<lambda>p. ?id p \<in> set C" "w_owned w"] D(4) by simp
  show "length (w_owned w') < length (w_owned w)" using e D(3) by linarith
qed

section \<open>When every record has expired\<close>

lemma collect_sources_error: "collect_sources h cat srcs ow ids = Inl e \<Longrightarrow> e = Invalid_reference \<or> e = Invalid_argument"
  by (induction ids arbitrary: srcs ow) (auto simp: Let_def split: option.splits if_splits)

lemma collect_sources_dom:
  "collect_sources h cat srcs ow ids = Inr (srcs', ow') \<Longrightarrow> dom (map_of srcs') = dom (map_of srcs) \<union> set ids"
  by (induction ids arbitrary: srcs ow) (auto simp: Let_def AList.update_conv' split: option.splits if_splits)

definition all_expired :: "worker \<Rightarrow> u64 set \<Rightarrow> u64 \<Rightarrow> (bytes \<times> record_ref) list \<Rightarrow> bool" where
  "all_expired w C now es \<longleftrightarrow> (\<forall>(k, ref) \<in> set es. tab (w_index w) k = Some ref \<and> rr_segment_id ref \<in> C
     \<and> (\<exists>i. read_ref w ref = Inr (view_of i) \<and> expired (view_of i) now))"

lemma vacuum_entries_expired:
  assumes inv: "worker_inv w" and cat: "map_of cat = map_of (w_owned_by_id w)"
  shows "all_expired w C now es \<Longrightarrow> vs_heap st = w_heap w \<Longrightarrow> dom (map_of (vs_sources st)) = C \<Longrightarrow>
    \<exists>st'. vacuum_entries d al cat ow now st es = (st', ok) \<and> vs_heap st' = w_heap w \<and> vs_segments st' = vs_segments st"
proof (induction es arbitrary: st)
  case (Cons e es)
  obtain k ref where e: "e = (k, ref)" by (cases e)
  obtain i where i: "tab (w_index w) k = Some ref" "rr_segment_id ref \<in> C" "read_ref w ref = Inr (view_of i)" "expired (view_of i) now"
    using Cons.prems(1) by (auto simp: all_expired_def e)
  obtain q where q: "find_owned_segment w (rr_segment_id ref) = Some q" "segment_read (seg_at w q) ref = Inr (view_of i)"
    by (rule entry_facts [OF inv i(1)]) (use i(3) in simp)
  obtain a where a: "map_of (vs_sources st) (rr_segment_id ref) = Some a" using i(2) Cons.prems(3) by blast
  have c: "map_of cat (rr_segment_id ref) = Some q" using q(1) cat by (simp add: find_owned_segment_def)
  obtain st1 where st1: "vacuum_entry d al cat ow now st e = (st1, ok)" "vs_heap st1 = w_heap w" "vs_segments st1 = vs_segments st"
    "dom (map_of (vs_sources st1)) = C"
    using c a q(2) i(2,4) Cons.prems(2,3)
    by (auto simp: vacuum_entry_def Let_def e AList.update_conv' insert_absorb)
  have "all_expired w C now es" using Cons.prems(1) by (simp add: all_expired_def)
  from Cons.IH [OF this st1(2,4)] st1(1,3) show ?case by auto
qed simp

lemma rebuild_expired:
  assumes inv: "worker_inv w" and small: "st_size (w_index w) \<le> 2 ^ 60"
    and C: "distinct C" "\<forall>sid \<in> set C. sealed_own w sid" and es: "all_expired w (set C) now (swiss_entries (w_index w))"
    and run: "rebuild d (w_index w) (w_owned w) C (Some (manager_allocator u (w_id w))) now (w_heap w) (w_manager w) = (h, m, r)"
  shows "\<exists>res. r = Inr res \<and> vr_segments res = []"
proof -
  have o: "owns w" using inv by (simp add: worker_inv_def base_def)
  define cat where "cat = make_catalog (w_heap w) (w_owned w)"
  have cm: "map_of cat = map_of (w_owned_by_id w)" unfolding cat_def by (rule catalog_owned [OF o])
  have err: "e = Arithmetic_overflow" if "r = Inl e" for e using rebuild_ok [OF inv run] C that by blast
  obtain t rr where re: "reserve (make_empty (w_index w)) (st_size (w_index w)) = (t, rr)" by fastforce
  have "table_inv (make_empty (w_index w))" by (simp add: make_empty_def clone_empty_def make_swiss_table_ok)
  then have rr: "rr = ok" using reserve_ok [OF _ re] small by auto
  show ?thesis
  proof (cases "collect_sources (w_heap w) cat [] None C")
    case (Inl e)
    then have "r = Inl e" using run by (simp add: rebuild_def cat_def)
    then show ?thesis using err collect_sources_error [OF Inl] by auto
  next
    case (Inr x)
    then obtain srcs ow where x: "collect_sources (w_heap w) cat [] None C = Inr (srcs, ow)" by (cases x) simp
    define st where "st = \<lparr> vs_heap = w_heap w, vs_alloc = w_manager w, vs_sources = srcs, vs_index = t, vs_segments = [],
       vs_stats = \<lparr> vc_source_records_verified = 0, vc_source_bytes_verified = 0, vc_records_copied = 0, vc_bytes_copied = 0,
         vc_expired_records_dropped = 0, vc_old_segments = of_nat (length C), vc_new_segments = 0 \<rparr> \<rparr>"
    have "dom (map_of (vs_sources st)) = set C" using collect_sources_dom [OF x] by (simp add: st_def)
    from vacuum_entries_expired [OF inv cm es _ this, of d "manager_allocator u (w_id w)" ow]
    obtain st' where st': "vacuum_entries d (manager_allocator u (w_id w)) cat ow now st (swiss_entries (w_index w)) = (st', ok)"
      "vs_segments st' = []" by (auto simp: st_def)
    have "r = fail Corrupted_data \<or> (\<exists>res. r = Inr res \<and> vr_segments res = [])"
      using run x re rr st' by (auto simp: rebuild_def cat_def [symmetric] st_def split: if_splits)
    then show ?thesis using err by auto
  qed
qed

lemma compact_expired:
  assumes inv: "worker_inv w" and small: "st_size (w_index w) \<le> 2 ^ 60" and C: "distinct C" "\<forall>sid \<in> set C. sealed_own w sid" "C \<noteq> []"
    and es: "all_expired w (set C) now (swiss_entries (w_index w))"
    and cand: "C = candidates ratio_of sorted_by_ratio policy (w_heap w) (w_owned w)"
  shows "\<exists>w' stats. compact ev ratio_of sorted_by_ratio throw_at w now policy = (w', Some (Inr (Some stats)))
    \<and> w_owned w' = filter (\<lambda>p. seg_id (seg_at w p) \<notin> set C) (w_owned w) \<and> content w' = Map.empty"
proof -
  let ?q = "quiesce_index w True"
  obtain h m r where rb: "rebuild (ev_debug ev) (w_index w) (w_owned w) C (Some (manager_allocator (ev_uninit ev) (w_id w))) now
      (w_heap w) (w_manager w) = (h, m, r)" by (metis prod_cases3)
  obtain res where res: "r = Inr res" "vr_segments res = []" using rebuild_expired [OF inv small C(1,2) es rb] by blast
  have inv': "worker_inv ?q" using inv by simp
  have rq: "rebuild (ev_debug ev) (w_index ?q) (w_owned ?q) C (Some (manager_allocator (ev_uninit ev) (w_id ?q))) now
      (w_heap ?q) (w_manager ?q) = (h, m, r)" using rb by simp
  note R = rebuild_ok [OF inv' rq]
  have g: "grown ?q h m" "rebuilt ?q C now h m res" using R res(1) by blast+
  obtain w1 x where p: "publish_vacuumed throw_at (?q\<lparr> w_heap := h, w_manager := m \<rparr>) C res = (w1, x)" by fastforce
  have x: "x = Some (Inr (Some (vr_stats res)))" "w_index w1 = vr_index res"
    "w_owned w1 = filter (\<lambda>p. seg_id (seg_at w p) \<notin> set C) (w_owned w)"
    using publish_vacuumed_ok [OF inv' g(1) refl g(2) C(3) p] res(2) by auto
  have cp: "copied ?q h (set C) now [] (tab (w_index w)) (tab (vr_index res))" using g(2) res(2) by (simp add: rebuilt_def)
  have d: "distinct (map fst (swiss_entries (w_index w)))"
    by (rule distinct_swiss_entries [OF table_invD(10)]) (use inv in \<open>simp add: worker_inv_def base_def\<close>)
  have "tab (vr_index res) k = None" for k
  proof (cases "tab (w_index w) k")
    case (Some ref)
    then have "(k, ref) \<in> set (swiss_entries (w_index w))" using d by (simp add: tab_def)
    then have "rr_segment_id ref \<in> set C" using es by (auto simp: all_expired_def)
    from copiedD(2) [OF cp Some this] show ?thesis by (auto simp: moved_def)
  qed (rule copiedD(1) [OF cp])
  then have "content w1 = Map.empty" by (simp add: content_def content_of_def x(2) fun_eq_iff)
  moreover have "compact_locked ev ratio_of sorted_by_ratio throw_at ?q now policy = (w1, x)"
    using C(3) rb res p by (simp add: compact_locked_def cand [symmetric])
  ultimately show ?thesis by (simp add: compact_def x(1,3))
qed

section \<open>An example\<close>

abbreviation next_id :: "worker \<Rightarrow> u64" where
  "next_id w \<equiv> gm_next_id (w_manager w)"

lemma try_retire_next_id: "try_retire h m k = (h', m', r) \<Longrightarrow> gm_next_id m' = gm_next_id m"
  using try_retire_unfold [of h m k h' m' r] by auto

lemma next_id_frame:
  "mark_live_at w p ref = (w', r) \<Longrightarrow> next_id w' = next_id w"
  "mark_dead_at w p ref = (w', r) \<Longrightarrow> next_id w' = next_id w"
  "append_active ev w inp = (w', rr) \<Longrightarrow> next_id w' = next_id w"
  "roll_back w key ref previous e = (w', r) \<Longrightarrow> next_id w' = next_id w"
  "next_id (maybe_retire w p) = next_id w"
  by (auto simp: mark_live_at_def mark_dead_at_def append_active_def roll_back_def rollback_index_def maybe_retire_def set_segment_def
      unregister_owned_segment_def Let_def dest: try_retire_next_id split: prod.splits option.splits sum.splits if_splits)

lemma publish_next_id: "publish w key ref p = (w', r) \<Longrightarrow> next_id w' = next_id w"
  by (auto simp: publish_def Let_def next_id_frame(5) dest!: next_id_frame(1,2,4) split: prod.splits option.splits sum.splits if_splits)

lemma append_record_next_id:
  assumes "base w" "append_record ev w inp = (w', r)"
  shows "next_id w' = next_id w \<or> next_id w' = next_id w + 1"
proof -
  have rot: "next_id (rotated ev w) = next_id w + 1" "next_id (prepared ev w) = next_id w + 1"
    by (simp_all add: rotated_def prepared_def Let_def)
  show ?thesis
    using assms(2) unfolding append_record_unfold [OF assms(1)]
    by (auto simp: rot next_id_frame(5) dest!: next_id_frame(3) split: prod.splits if_splits)
qed

lemma put_next_id:
  assumes "base w" "put_locked_published ev w key v e = (w', r)"
  shows "next_id w' = next_id w \<or> next_id w' = next_id w + 1"
proof -
  let ?w = "fst (next_sequence w)"
  have b: "base ?w" "next_id ?w = next_id w" using assms(1) by (simp_all add: next_sequence_def)
  obtain w1 x where a: "append_record ev ?w (put_record w key v e) = (w1, x)" by fastforce
  have n: "next_id w1 = next_id w \<or> next_id w1 = next_id w + 1" using append_record_next_id [OF b(1) a] b(2) by simp
  consider "w' = w" | "w' = w1" | y p ref where "publish w1 key ref p = (w', y)"
    using assms(2) a
    by (auto simp: put_locked_published_def put_record_def next_sequence_def Let_def
        split: if_splits prod.splits option.splits sum.splits)
  then show ?thesis using n publish_next_id by cases auto
qed

text \<open>A Worker whose only record lies in a sealed segment.\<close>

definition example_policy :: "worker \<Rightarrow> nat vacuum_policy" where
  "example_policy w = \<lparr> maximum_live_ratio = 0, maximum_segments_per_run = length (w_owned w) \<rparr>"

abbreviation example_candidates :: "worker \<Rightarrow> u64 list" where
  "example_candidates w \<equiv> candidates (\<lambda>_ _. 0) id (example_policy w) (w_heap w) (w_owned w)"

lemma example_candidates:
  "set (example_candidates w) = (\<lambda>p. seg_id (seg_at w p)) `
     {p \<in> set (w_owned w). seg_state (seg_at w p) = Seg_sealed \<and> ss_record_count (seg_stats (seg_at w p)) \<noteq> 0}"
proof -
  have "length (filter P (w_owned w)) \<le> length (w_owned w)" for P by (rule length_filter_le)
  then show ?thesis by (simp add: candidates_def example_policy_def Let_def not_less [symmetric] image_image)
qed

lemma log_count_nonzero:
  assumes "seg_log s log" "log \<noteq> []"
  shows "ss_record_count (seg_stats s) \<noteq> 0"
proof -
  have "56 * length log \<le> 67108864" using log_length_bound [of log] assms(1) by (simp add: seg_log_def)
  then have "unat (of_nat (length log) :: u64) = length log" by (simp add: unat_of_nat_64)
  then have "(of_nat (length log) :: u64) \<noteq> 0" using assms(2) by (metis length_0_conv unat_0)
  then show ?thesis using assms(1) by (simp add: seg_log_def)
qed

lemma example_sealed:
  "\<exists>w. worker_inv w \<and> content w = [[104, 105] \<mapsto> ([7], 5)] \<and> st_size (w_index w) \<le> 2 ^ 60 \<and> example_candidates w \<noteq> []
     \<and> (\<forall>k ref. tab (w_index w) k = Some ref \<longrightarrow> rr_segment_id ref \<in> set (example_candidates w))"
proof -
  obtain w1 pub where p: "put_locked_published quiet_env example_worker example_key [7] 5 = (w1, Some (Inr pub))"
    "worker_inv w1" "content w1 = [[104, 105] \<mapsto> ([7], 5)]" using example_put by blast
  let ?f = "tab (w_index w1)" and ?w = "rotated quiet_env w1"
  have b: "base w1" "refers w1 ?f" "counted w1 (\<lambda>sid. card (live_keys ?f sid)) (live_size ?f)"
    using p(2) by (simp_all add: worker_inv_def accounts_def)
  have "base example_worker" using example_worker_run(2) by (simp add: worker_inv_def)
  then have "next_id w1 \<noteq> - 1" using put_next_id [OF _ p(1)] example_worker_run(6) by auto
  from rotated_ok [OF b this, of quiet_env] fresh_unused [OF b(1,2)]
  have R: "base ?w" "refers ?w ?f" "keeps w1 ?w ?f" "counted ?w (\<lambda>sid. card (live_keys ?f sid)) (live_size ?f)" by simp_all
  have inv: "worker_inv ?w" using R by (simp add: worker_inv_def accounts_def)
  have cont: "content ?w = content w1" using content_keeps [OF R(3)] by (simp add: content_def)
  have "dom ?f = dom (content w1)" using content_None [OF p(2)] by (auto simp: dom_def)
  then have dom: "dom ?f = {[104, 105]}" by (simp add: p(3))
  have "st_size (w_index w1) = 1" using size_tab [of "w_index w1"] b(1) dom by (simp add: base_def)
  moreover have cand: "rr_segment_id ref \<in> set (example_candidates ?w)" if k: "?f k = Some ref" for k ref
  proof -
    have o: "owns ?w" "owns w1" using R(1) b(1) by (simp_all add: base_def)
    obtain q i where q: "q \<in> set (w_owned w1)" "holds (seg_at w1 q) ref i" "rr_segment_id ref = seg_id (seg_at w1 q)"
      using referred [OF o(2) b(2) k] by blast
    have nf: "q \<noteq> hp_next (w_heap w1)" by (rule owned_not_fresh(1) [OF b(1) q(1)])
    have at: "seg_state (seg_at ?w q) = Seg_sealed" "seg_id (seg_at ?w q) = rr_segment_id ref"
      "seg_stats (seg_at ?w q) = seg_stats (seg_at w1 q)"
      using nf q(3) ownedD(4) [OF o(1), of q] q(1) by auto
    obtain log j where "seg_log (seg_at w1 q) log" "j < length log" using q(2) by (auto simp: holds_def)
    moreover have "log \<noteq> []" using calculation(2) by auto
    ultimately have "ss_record_count (seg_stats (seg_at ?w q)) \<noteq> 0" unfolding at(3) using log_count_nonzero by blast
    moreover have "q \<in> set (w_owned ?w)" using q(1) by simp
    ultimately show ?thesis unfolding example_candidates at(2) [symmetric] using at(1) by (intro imageI CollectI conjI)
  qed
  moreover have "example_candidates ?w \<noteq> []"
  proof
    assume e: "example_candidates ?w = []"
    obtain ref where "?f [104, 105] = Some ref" using dom by blast
    from cand [OF this, unfolded e] show False by simp
  qed
  moreover have "content ?w = [[104, 105] \<mapsto> ([7], 5)]" using cont p(3) by (rule trans)
  moreover have "w_index ?w = w_index w1" by simp
  ultimately show ?thesis using inv by (intro exI [of _ ?w] conjI) simp_all
qed

section \<open>Properties\<close>

text \<open>
  C38.  Compaction is invisible to readers: whatever it answers, the Worker keeps its invariant and
  its routing, and every key keeps its value and expiry, except that a key whose record has expired
  at the time of the call may be gone.  Nothing is gone unless compaction reports statistics, and
  then the Worker owns fewer segments than before.
\<close>

theorem compact_keeps_content:
  assumes "worker_inv w" "compact ev ratio_of sorted_by_ratio throw_at w now policy = (w', r)"
  shows "worker_inv w' \<and> hashed_for (w_index w') = hashed_for (w_index w)
    \<and> (content w' k = content w k
       \<or> content w' k = None \<and> (\<exists>x e. content w k = Some (x, e) \<and> expired_at e now) \<and> (\<exists>stats. r = Some (Inr (Some stats))))
    \<and> (case r of Some (Inr (Some stats)) \<Rightarrow> length (w_owned w') < length (w_owned w) | _ \<Rightarrow> content w' = content w)"
proof -
  note K = compact_ok [OF assms refl]
  consider (none) "r = None" | (err) e where "r = Some (Inl e)" | (idle) "r = Some (Inr None)" | (success) stats where "r = Some (Inr (Some stats))"
    by (metis option.exhaust sum.exhaust)
  then show ?thesis
  proof cases
    case (success stats)
    then obtain ps where c: "compacted w now (candidates ratio_of sorted_by_ratio policy (w_heap w) (w_owned w)) w' ps" using K by auto
    have "content w' k = content w k \<or> content w' k = None \<and> (\<exists>x e. content w k = Some (x, e) \<and> expired_at e now)"
      using c by (simp add: compacted_def)
    then show ?thesis using K compacted_fewer(2) [OF assms(1) c] success by auto
  qed (use K in auto)
qed

theorem compact_keeps_content_witness:
  "\<exists>w w' r. content w = [[104, 105] \<mapsto> ([7], 5)] \<and> example_candidates w \<noteq> []
     \<and> compact quiet_env (\<lambda>_ _. 0) id None w 3 (example_policy w) = (w', r) \<and> worker_inv w' \<and> content w' [104, 105] = Some ([7], 5)"
proof -
  obtain w where w: "worker_inv w" "content w = [[104, 105] \<mapsto> ([7], 5)]" "example_candidates w \<noteq> []" using example_sealed by blast
  obtain w' r where run: "compact quiet_env (\<lambda>_ _. 0) id None w 3 (example_policy w) = (w', r)" by fastforce
  have "\<not> expired_at 5 3" by (simp add: expired_at_def)
  with compact_keeps_content [OF w(1) run, of "[104, 105]"] w run show ?thesis by auto
qed



text \<open>
  C40.  Compaction makes progress: when the planner finds candidates and every record the index
  refers to lies in one of them and has expired, compaction of an index of at most 2^60 entries
  succeeds, empties the index and gives back every candidate without a replacement.
\<close>

theorem compact_expired_succeeds:
  assumes "worker_inv w" "\<forall>xs. mset (sorted_by_ratio xs) = mset xs" "st_size (w_index w) \<le> 2 ^ 60"
    and "C = candidates ratio_of sorted_by_ratio policy (w_heap w) (w_owned w)" "C \<noteq> []"
    and "\<forall>k ref. tab (w_index w) k = Some ref \<longrightarrow> rr_segment_id ref \<in> set C"
    and "\<forall>k x e. content w k = Some (x, e) \<longrightarrow> expired_at e now"
  shows "\<exists>w' stats. compact ev ratio_of sorted_by_ratio throw_at w now policy = (w', Some (Inr (Some stats)))
    \<and> worker_inv w' \<and> content w' = Map.empty \<and> w_owned w' = filter (\<lambda>p. seg_id (seg_at w p) \<notin> set C) (w_owned w)"
proof -
  have C: "distinct C" "\<forall>sid \<in> set C. sealed_own w sid"
    using candidates_ok [OF assms(1), of sorted_by_ratio] assms(2) unfolding assms(4) by blast+
  have d: "distinct (map fst (swiss_entries (w_index w)))"
    by (rule distinct_swiss_entries [OF table_invD(10)]) (use assms(1) in \<open>simp add: worker_inv_def base_def\<close>)
  have "tab (w_index w) k = Some ref \<and> rr_segment_id ref \<in> set C \<and> (\<exists>i. read_ref w ref = Inr (view_of i) \<and> expired (view_of i) now)"
    if "(k, ref) \<in> set (swiss_entries (w_index w))" for k ref
  proof -
    have t: "tab (w_index w) k = Some ref" using that d by (simp add: tab_def)
    obtain i where i: "read_ref w ref = Inr (view_of i)" by (rule entry_facts [OF assms(1) t])
    then have "content w k = Some (ri_value i, ri_expire_at_ns i)" using t by (simp add: content_def content_of_def)
    then show ?thesis using t i assms(6,7) by auto
  qed
  then have es: "all_expired w (set C) now (swiss_entries (w_index w))" by (auto simp: all_expired_def)
  from compact_expired [OF assms(1,3) C assms(5) es assms(4)] obtain w' stats where
    run: "compact ev ratio_of sorted_by_ratio throw_at w now policy = (w', Some (Inr (Some stats)))"
    and w': "w_owned w' = filter (\<lambda>p. seg_id (seg_at w p) \<notin> set C) (w_owned w)" "content w' = Map.empty" by blast
  show ?thesis using run w' compact_ok [OF assms(1) run refl] by blast
qed

theorem compact_expired_succeeds_witness:
  "\<exists>w w' stats. content w = [[104, 105] \<mapsto> ([7], 5)]
     \<and> compact quiet_env (\<lambda>_ _. 0) id None w 9 (example_policy w) = (w', Some (Inr (Some stats))) \<and> content w' = Map.empty"
proof -
  obtain w where w: "worker_inv w" "content w = [[104, 105] \<mapsto> ([7], 5)]" "st_size (w_index w) \<le> 2 ^ 60" "example_candidates w \<noteq> []"
    "\<forall>k ref. tab (w_index w) k = Some ref \<longrightarrow> rr_segment_id ref \<in> set (example_candidates w)" using example_sealed by blast
  have "\<forall>k x e. content w k = Some (x, e) \<longrightarrow> expired_at e 9" by (simp add: w(2) expired_at_def)
  from compact_expired_succeeds [OF w(1) _ w(3) refl w(4,5) this, of quiet_env None] w(2) show ?thesis by auto
qed

end
