(* ===== verification/Spec2Isabelle.thy ===== *)
theory Spec2Isabelle
  imports Integer_Math Routing_Seqlock Record_Codec Segment_Header Manifest Protocol Quiesce_Gate Worker_Refine Compaction
begin

text \<open>
  A verification library for GlifiStore, a sharded key-value store with log-structured segments.
  Paths below are relative to the repository; headers are in \<open>include/glifistore\<close>, the rest in \<open>src\<close>.

  \<^bold>\<open>The program.\<close>  A Worker owns a partition of the keys: an index from keys to record references and
  a list of segments, one active and the others sealed.  A put encodes a record, appends it to the
  active segment, rotates to a new one when it is full, and publishes the reference in the index;
  an erase appends a tombstone and removes the entry; a get reads the record and erases it when it
  has expired.  Segments come from a manager that issues their identities and keeps the catalog of
  the live ones.  Sealed segments with little live data are compacted: the vacuum copies what the
  index still refers to, and the Worker exchanges segments and index in one step.  On disk a store
  has a manifest and a header per segment; clients talk to it in request and response frames.

  \<^bold>\<open>Conventions.\<close>  A fallible function returns a sum, \<open>Inl\<close> an \<open>error_code\<close>; where an exception can
  leave a function, the reply is an option and \<open>None\<close> is the exception.  Machine integers are words
  of their width and wrap as in the source; sizes of containers, which the source bounds by
  memory, are natural numbers with the comparisons against \<open>SIZE_MAX\<close> written out.  Segments are
  shared objects and live in an explicit store, \<open>seg_heap\<close>; a \<open>SegmentPtr\<close> is an address.  A hash map
  is an association list; where the source iterates over one, the order is a parameter.  The bytes
  of uninitialised buffers, the build mode, the fault-injection sites and the calls that run out of
  memory are parameters, so the theorems hold for all of them.

  \<^bold>\<open>Shared ground.\<close>
  \<^item> \<open>Glifi_Prelude\<close>: results, byte buffers (\<open>blit\<close>, \<open>sub\<close>) and word bounds used everywhere.
  \<^item> \<open>Codec\<close>: the locales \<open>framed_codec\<close> (an encoding that can be read off a stream) and
    \<open>canonical_codec\<close> (accepted bytes are exactly the encodings), with the uniqueness of a stream of
    frames proved once.  They are interpreted on the records, the manifest and the request frames.
  \<^item> \<open>Checked_Math\<close>, \<open>Integer_Math\<close>, \<open>Little_Endian\<close>: \<open>core/checked_math.hpp\<close>, \<open>core/integer_math.hpp\<close>,
    \<open>core/little_endian.hpp\<close>.  Exactness of the basis-point ratio for all arguments, round trips and
    frames of the fixed-width fields.

  \<^bold>\<open>Formats.\<close>
  \<^item> \<open>Crc32c\<close>: \<open>segment/crc32c.cpp\<close>.  The hardware loops equal the table-driven update, given what the
    instructions compute; every burst of up to four bytes changes the checksum.
  \<^item> \<open>Record_Codec\<close>: \<open>segment/record.cpp\<close>.  Round trip, canonicity, detection of a changed byte, and the
    unique reading of a log.
  \<^item> \<open>Segment_Header\<close>: \<open>segment/segment_header.cpp\<close>.  Round trip with both commit slots, the newest
    commit, and tolerance of a wrong byte in one slot.
  \<^item> \<open>Manifest\<close>: \<open>persistence/manifest.cpp\<close>.  Canonicity, well-formedness of what is decoded, and the
    selection of the newest manifest.
  \<^item> \<open>Protocol\<close>: \<open>server/protocol.cpp\<close>.  Frames are decoded from a stream however it was cut, requests
    are canonical, and the scatter/gather header agrees with the contiguous encoding.

  \<^bold>\<open>Routing.\<close>
  \<^item> \<open>Key_Hash\<close>: \<open>core/key_hash.hpp\<close>, \<open>core/worker_routing.cpp\<close>.  The INIT identity in both forms.
  \<^item> \<open>Routing_Seqlock\<close>: the process-wide routing state, one step per atomic access; a reader only
    returns states a writer has published.

  \<^bold>\<open>Index.\<close>
  \<^item> \<open>Key_Arena\<close>, \<open>Swiss_Table\<close>: \<open>index/key_arena.cpp\<close>, \<open>index/swiss_table.cpp\<close>, with the control groups
    of \<open>index/swiss_control_group.hpp\<close>.  Insertion, growth and rebuild call each other; the definition
    carries fuel, \<open>insert_fuel\<close>, and every larger amount gives the same result, because a rebuild
    inserts strictly fewer keys into a table that has room for them.
  \<^item> \<open>Swiss_Probe\<close>, \<open>Swiss_Inv\<close>, \<open>Swiss_Map\<close>, \<open>Swiss_Ops\<close>, \<open>Swiss_Rehash\<close>, \<open>Swiss_Index\<close>: the probe
    sequence, the invariant of a table, the map it stands for, and each operation on that map.
  \<^item> \<open>Index_Prepare\<close>: after a preparation the insertion cannot fail, for one key and for a batch; and
    the case in which a preparation does not prevent growth.
  \<^item> \<open>Index_Rebuild\<close>: \<open>index/index.cpp\<close>.  The contract \<open>map_index\<close> of an index and its interpretation,
    refinement of a map, the causes of a failed insertion, and the rebuild of an index from
    segments in every iteration order.

  \<^bold>\<open>Segments and Workers.\<close>
  \<^item> \<open>Segment\<close>: \<open>segment/segment.cpp\<close>.  A segment as a log of records; append, read and scan on it.
  \<^item> \<open>Global_Manager\<close>: \<open>segment/global_manager.cpp\<close>.  Every reachable catalog is well formed, also after
    the identities have wrapped, and the replacement of sealed segments is atomic.
  \<^item> \<open>Worker\<close>: \<open>worker/worker.cpp\<close>, one definition per member function.  \<open>Worker_Inv\<close> holds the invariant
    (ownership, index entries refer to records of their key, live counters count them),
    \<open>Worker_Steps\<close>, \<open>Worker_Map\<close>, \<open>Worker_Store\<close> and \<open>Worker_Ops\<close> show that every operation keeps it and
    what it does to the map \<open>content\<close>.
  \<^item> \<open>Worker_Refine\<close>: the locale \<open>expiring_store\<close>, a client of it that runs a sequence of calls, and its
    interpretation on the Worker: every sequence of calls is answered as by an expiring map.
  \<^item> \<open>Vacuum\<close>: \<open>vacuum/vacuum.cpp\<close> and \<open>Worker::compact\<close>.  \<open>Vacuum_Inv\<close> and \<open>Vacuum_Loop\<close> verify the copying
    loop, \<open>Vacuum_Publish\<close> the result of a rebuild, \<open>Vacuum_Mark\<close> the marking loops and the exchange in
    the manager, \<open>Vacuum_Refine\<close> the publication, and \<open>Compaction\<close> the whole: compaction keeps the map
    of the Worker up to expired entries, has one error, and succeeds when all has expired.
  \<^item> \<open>Quiesce_Gate\<close>: the gate of \<open>worker/worker.hpp\<close> between the exclusive Writer and threads that need
    the index at rest, one step per atomic access.  It excludes the Writer for one holder in
    program order; two holders, or stores delayed past later loads, break it.

  \<^bold>\<open>Bounds.\<close>  Besides the fuel of the insertion, loops recurse on the data or on a decreasing measure.
  Statements carry the sizes they need: an index of at most \<open>2^60\<close> entries for the progress of
  compaction, and the arena limit for insertions.

  \<^bold>\<open>Not modelled.\<close>  The Store facade over several Workers and the interleaving of their calls on the
  shared manager; the durable runtime, recovery and durable compaction, whose drivers are file
  operations between calls of the modelled codecs; the paired runtime and the experimental shards,
  concurrent protocols over weak memory beyond the gate and the seqlock treated here; the server,
  TLS, the client, configuration, logging, the command line and the C interface, which are input and
  output or adapt interfaces; maintenance, which is clocks, rates and threads.  Within modelled
  files: diagnostic texts, debug-only assertions, floating-point load factors, the vector variants of
  the control-group mask, and memory exhaustion except where it is a parameter.
\<close>

end
